(* ===== verification/Prelude.thy ===== *)
theory Prelude
  imports Main "HOL-Library.Word"
begin

text \<open>
  Shared vocabulary of the development: bytes, fixed-width unsigned arithmetic on \<open>nat\<close>
  with the wrap-around written out, the outcomes of a C++ operation that can fail, and the
  few vector primitives (checked access, checked update, \<open>memcpy\<close>) that the
  components use.

  A \<open>uint64_t\<close>, \<open>size_t\<close> or \<open>uint32_t\<close> counter is a \<open>nat\<close> below \<open>2 ^ w\<close>
  and every addition, subtraction or multiplication on it is one of \<open>wadd\<close>,
  \<open>wsub\<close>, \<open>wmul\<close> at its width. Values on which the code works bit by bit are
  \<open>32 word\<close> or \<open>8 word\<close>.
\<close>

unbundle bit_operations_syntax

named_theorems wrap_simps \<open>wrap-around arithmetic where nothing wraps\<close>
named_theorems run_simps \<open>definitions to unfold when a concrete run is evaluated\<close>
named_theorems outcome_simps \<open>sequencing of operations that can fail\<close>

section \<open>Bytes and fixed-width counters\<close>

type_synonym byte = "8 word"

definition wadd :: "nat \<Rightarrow> nat \<Rightarrow> nat \<Rightarrow> nat" where
  "wadd w a b = (a + b) mod 2 ^ w"

definition wsub :: "nat \<Rightarrow> nat \<Rightarrow> nat \<Rightarrow> nat" where
  "wsub w a b = (a + (2 ^ w - b mod 2 ^ w)) mod 2 ^ w"

definition wmul :: "nat \<Rightarrow> nat \<Rightarrow> nat \<Rightarrow> nat" where
  "wmul w a b = (a * b) mod 2 ^ w"

abbreviation "add64 \<equiv> wadd 64"
abbreviation "sub64 \<equiv> wsub 64"
abbreviation "mul64 \<equiv> wmul 64"
abbreviation "add32 \<equiv> wadd 32"
abbreviation "sub32 \<equiv> wsub 32"

lemma wadd_nowrap [wrap_simps]: "a + b < 2 ^ w \<Longrightarrow> wadd w a b = a + b"
  by (simp add: wadd_def)

lemma wmul_nowrap [wrap_simps]: "a * b < 2 ^ w \<Longrightarrow> wmul w a b = a * b"
  by (simp add: wmul_def)

lemma wsub_nowrap [wrap_simps]: "b \<le> a \<Longrightarrow> a < 2 ^ w \<Longrightarrow> wsub w a b = a - b"
proof -
  assume ba: "b \<le> a" and aw: "a < 2 ^ w"
  then have "a + (2 ^ w - b mod 2 ^ w) = (a - b) + 2 ^ w" by simp
  with aw show ?thesis by (simp add: wsub_def)
qed

lemma wadd_less [simp]: "wadd w a b < 2 ^ w"
  by (simp add: wadd_def)

lemma wsub_less [simp]: "wsub w a b < 2 ^ w"
  by (simp add: wsub_def)

lemma counters_bounded [simp]:
  "add64 a b < 18446744073709551616" "sub64 a b < 18446744073709551616"
  "add32 a b < 4294967296" "sub32 a b < 4294967296"
  using wadd_less [of 64 a b] wsub_less [of 64 a b] wadd_less [of 32 a b] wsub_less [of 32 a b]
  by simp_all

lemma wadd_assoc: "wadd w (wadd w a b) c = wadd w a (b + c)"
  by (simp add: wadd_def mod_simps add.assoc)

lemma wsub_add_mod: "(wsub w a b + b) mod 2 ^ w = a mod 2 ^ w"
proof -
  have le: "b mod 2 ^ w \<le> 2 ^ w" by (simp add: less_imp_le)
  have "(wsub w a b + b) mod 2 ^ w = (a + (2 ^ w - b mod 2 ^ w) + b mod 2 ^ w) mod 2 ^ w"
    unfolding wsub_def by (simp only: mod_add_left_eq mod_add_right_eq)
  also have "a + (2 ^ w - b mod 2 ^ w) + b mod 2 ^ w = a + 2 ^ w"
    using le by (simp only: add.assoc le_add_diff_inverse2)
  finally show ?thesis by simp
qed

section \<open>Operations that can fail\<close>

text \<open>
  An operation ends normally (\<open>Inr\<close>) or in one of four ways: undefined behaviour
  (an access outside a vector, an overlapping \<open>memcpy\<close>, \<open>front()\<close> of an empty
  container, a remainder by zero), a failed \<open>assert\<close>, a thrown
  \<open>std::runtime_error\<close>, or a loop that never ends.
\<close>

datatype failure = Undefined | Assertion | Runtime_Error string | Diverges

type_synonym 'a outcome = "failure + 'a"

definition andthen :: "'a outcome \<Rightarrow> ('a \<Rightarrow> 'b outcome) \<Rightarrow> 'b outcome" where
  "andthen r f = (case r of Inl e \<Rightarrow> Inl e | Inr x \<Rightarrow> f x)"

lemma andthen_Inr [simp, outcome_simps]: "andthen (Inr x) f = f x"
  by (simp add: andthen_def)

lemma andthen_Inl [simp, outcome_simps]: "andthen (Inl e) f = Inl e"
  by (simp add: andthen_def)

lemma andthen_eq_Inr_iff [outcome_simps]:
  "andthen r f = Inr y \<longleftrightarrow> (\<exists>x. r = Inr x \<and> f x = Inr y)"
  by (cases r) simp_all

lemma andthen_cong [fundef_cong]:
  "r = r' \<Longrightarrow> (\<And>x. r' = Inr x \<Longrightarrow> f x = g x) \<Longrightarrow> andthen r f = andthen r' g"
  by (cases r') simp_all

text \<open>
  Evaluation by rewriting: with these weak congruences the simplifier evaluates the
  arguments of \<open>andthen\<close> and \<open>Let\<close> before it looks at their continuations, so a concrete
  run costs what the code costs. \<open>run_simps\<close> collects the definitions to unfold.
\<close>

lemma andthen_weak_cong: "r = r' \<Longrightarrow> andthen r f = andthen r' f"
  by simp

lemmas by_value = andthen_weak_cong let_weak_cong

definition check :: "bool \<Rightarrow> failure \<Rightarrow> unit outcome" where
  "check b e = (if b then Inr () else Inl e)"

lemma check_True [simp, outcome_simps]: "check True e = Inr ()"
  by (simp add: check_def)

lemma check_False [simp, outcome_simps]: "check False e = Inl e"
  by (simp add: check_def)

section \<open>Vectors\<close>

definition vec_at :: "'a list \<Rightarrow> nat \<Rightarrow> 'a outcome" where
  "vec_at xs i = (if i < length xs then Inr (xs ! i) else Inl Undefined)"

definition vec_put :: "'a list \<Rightarrow> nat \<Rightarrow> 'a \<Rightarrow> 'a list outcome" where
  "vec_put xs i x = (if i < length xs then Inr (xs[i := x]) else Inl Undefined)"

definition vec_resize :: "'a \<Rightarrow> 'a list \<Rightarrow> nat \<Rightarrow> 'a list" where
  "vec_resize z xs n = take n xs @ replicate (n - length xs) z"

lemma vec_at_ok [simp]: "i < length xs \<Longrightarrow> vec_at xs i = Inr (xs ! i)"
  by (simp add: vec_at_def)

lemma vec_put_ok [simp]: "i < length xs \<Longrightarrow> vec_put xs i x = Inr (xs[i := x])"
  by (simp add: vec_put_def)

lemma length_vec_resize [simp]: "length (vec_resize z xs n) = n"
  by (simp add: vec_resize_def)

text \<open>
  \<open>overwrite xs i ys\<close> is \<open>xs\<close> with the elements of \<open>ys\<close> stored from index \<open>i\<close>.
  \<open>memcpy\<close> from another object needs both ranges inside their objects; \<open>memcpy\<close>
  within one object needs, in addition, that the ranges do not overlap.
\<close>

definition overwrite :: "'a list \<Rightarrow> nat \<Rightarrow> 'a list \<Rightarrow> 'a list" where
  "overwrite xs i ys = take i xs @ ys @ drop (i + length ys) xs"

definition memcpy_from :: "'a list \<Rightarrow> nat \<Rightarrow> 'a list \<Rightarrow> nat \<Rightarrow> 'a list outcome" where
  "memcpy_from dst i src n =
     (if i + n \<le> length dst \<and> n \<le> length src then Inr (overwrite dst i (take n src))
      else Inl Undefined)"

definition memcpy_within :: "'a list \<Rightarrow> nat \<Rightarrow> nat \<Rightarrow> nat \<Rightarrow> 'a list outcome" where
  "memcpy_within xs d s n =
     (if d + n \<le> length xs \<and> s + n \<le> length xs \<and> (d + n \<le> s \<or> s + n \<le> d)
      then Inr (overwrite xs d (take n (drop s xs))) else Inl Undefined)"

lemma length_overwrite [simp]: "i + length ys \<le> length xs \<Longrightarrow> length (overwrite xs i ys) = length xs"
  by (simp add: overwrite_def)

lemma take_overwrite [simp]: "i \<le> length xs \<Longrightarrow> take i (overwrite xs i ys) = take i xs"
  by (simp add: overwrite_def)

lemma take_drop_overwrite:
  assumes "r \<le> i" and "i + length ys \<le> length xs"
  shows "take (i + length ys - r) (drop r (overwrite xs i ys)) = take (i - r) (drop r xs) @ ys"
proof -
  have "i + length ys - r = length (take (i - r) (drop r xs) @ ys)"
    using assms by simp
  moreover have "drop r (overwrite xs i ys)
      = (take (i - r) (drop r xs) @ ys) @ drop (i + length ys) xs"
    using assms by (simp add: overwrite_def drop_take)
  ultimately show ?thesis by (metis append_eq_conv_conj)
qed

lemma restrict_map_all: "dom m \<subseteq> A \<Longrightarrow> m |` A = m"
  by (rule ext) (metis domIff restrict_in restrict_out subsetD)

lemmas [run_simps] = wadd_def wsub_def wmul_def vec_at_def vec_put_def vec_resize_def overwrite_def
  memcpy_from_def memcpy_within_def Let_def

lemmas [run_simps] = mask_numeral [where ?'a = "32 word"]

lemma replicate_numeral_run [run_simps]:
  "replicate (numeral k) x = x # replicate (pred_numeral k) x"
  by (simp add: numeral_eq_Suc)

section \<open>Indices modulo the size of a window\<close>

lemma mod_once: "n \<le> y \<Longrightarrow> y < n + n \<Longrightarrow> y mod n = y - (n :: nat)"
  by (simp add: le_mod_geq)

lemma mod_window_inj:
  assumes "a \<le> (j :: nat)" "j < a + n" "a \<le> k" "k < a + n" "j mod n = k mod n"
  shows "j = k"
proof -
  have "x = y" if "x \<le> y" "y < x + n" "x mod n = y mod n" for x y :: nat
  proof -
    have "n dvd y - x" using mod_eq_dvd_iff_nat [of x y n] that by simp
    with that show ?thesis by (auto dest: dvd_imp_le)
  qed
  from this [of j k] this [of k j] assms show ?thesis by (cases "j \<le> k") auto
qed

lemma inj_on_mod_window: "inj_on (\<lambda>j. j mod n) {a..<a + n :: nat}"
  by (rule inj_onI) (auto intro: mod_window_inj)

lemma mod_window_image_mem:
  assumes "H \<subseteq> {a..<a + n :: nat}" "a \<le> x" "x < a + n"
  shows "x mod n \<in> (\<lambda>j. j mod n) ` H \<longleftrightarrow> x \<in> H"
  using inj_on_image_mem_iff [OF inj_on_mod_window [of n a], of x H] assms by simp

end
