(* ===== verification/Wrapping_Integers.thy ===== *)
theory Wrapping_Integers
  imports Prelude
begin

text \<open>
  \<open>src/src/wrapping_integers.hh\<close> and \<open>.cc\<close>: 32-bit sequence numbers relative to a zero
  point, and their conversion from and to 64-bit absolute sequence numbers.
\<close>

section \<open>The type and its operations\<close>

record wrap32 =
  raw_value :: "32 word"

definition Wrap32 :: "32 word \<Rightarrow> wrap32" where
  "Wrap32 v = \<lparr>raw_value = v\<rparr>"

definition wrap32_plus :: "wrap32 \<Rightarrow> 32 word \<Rightarrow> wrap32" where
  "wrap32_plus x n = Wrap32 (raw_value x + n)"

definition wrap32_eq :: "wrap32 \<Rightarrow> wrap32 \<Rightarrow> bool" where
  "wrap32_eq x y \<longleftrightarrow> raw_value x = raw_value y"

definition getRawValue :: "wrap32 \<Rightarrow> 32 word" where
  "getRawValue x = raw_value x"

definition wrap :: "64 word \<Rightarrow> wrap32 \<Rightarrow> wrap32" where
  "wrap n zero_point = wrap32_plus zero_point (ucast n)"

definition unwrap :: "wrap32 \<Rightarrow> wrap32 \<Rightarrow> 64 word \<Rightarrow> 64 word" where
  "unwrap x zero_point checkpoint =
     (let wrap_checkpoint = wrap checkpoint zero_point;
          diff = raw_value x - getRawValue wrap_checkpoint
      in if diff AND 0x80000000 \<noteq> 0 \<and> ucast diff + checkpoint \<le> 0xFFFFFFFF
         then checkpoint + ucast diff
         else checkpoint + scast diff)"

section \<open>Word facts\<close>

lemma high_bit: "(d :: 32 word) AND 0x80000000 = 0 \<longleftrightarrow> uint d < 2 ^ 31"
proof -
  have e: "(0x80000000 :: 32 word) = push_bit 31 1" by (simp add: push_bit_eq_mult)
  have "(d AND 0x80000000 = 0) = (\<not> bit d 31)"
    unfolding e by (simp only: bit_iff_and_push_bit_not_eq_0 not_not)
  also have "bit d 31 \<longleftrightarrow> 2 ^ 31 \<le> uint d"
  proof -
    have u: "uint d < 2 ^ 32" using uint_lt2p [of d] by simp
    have b: "bit d 31 \<longleftrightarrow> odd (uint d div 2 ^ 31)" 
      using bit_uint_iff [of d 31] by (simp add: bit_iff_odd)
    have z: "0 \<le> uint d" by simp
    show ?thesis
    proof (cases "uint d < 2 ^ 31")
      case True with b z show ?thesis by simp
    next
      case False
      then have "uint d div 2 ^ 31 = (uint d - 2 ^ 31) div 2 ^ 31 + 1"
        by (subst div_pos_geq) simp_all
      also have "(uint d - 2 ^ 31) div 2 ^ 31 = 0" using False u by simp
      finally show ?thesis using b False by simp
    qed
  qed
  finally show ?thesis by (simp add: linorder_not_le)
qed



lemma ucast_add_down:
  "LENGTH('b) \<le> LENGTH('a) \<Longrightarrow> ucast (a + b :: 'a::len word) = (ucast a + ucast b :: 'b::len word)"
  by transfer (simp, metis min.absorb1 take_bit_add take_bit_take_bit)

lemma ucast_scast_down: "LENGTH('b) \<le> LENGTH('a) \<Longrightarrow> ucast (scast (d :: 'b::len word) :: 'a::len word) = d"
  by (rule bit_word_eqI) (auto simp add: bit_unsigned_iff bit_signed_iff)

lemma ucast_ucast_down: "LENGTH('b) \<le> LENGTH('a) \<Longrightarrow> ucast (ucast (d :: 'b::len word) :: 'a::len word) = d"
  by (rule bit_word_eqI) (auto simp add: bit_unsigned_iff bit_signed_iff)

lemma uint_add_scast: "uint (cp + scast (d :: 'b::len word) :: 'a::len word) = (uint cp + sint d) mod 2 ^ LENGTH('a)"
  by (simp only: uint_word_ariths scast_eq uint_word_of_int mod_add_right_eq)
lemma sint_word32: "sint (d :: 32 word) = (if uint d < 2 ^ 31 then uint d else uint d - 2 ^ 32)"
proof -
  have u: "uint d < 2 ^ 32" using uint_lt2p [of d] by simp
  have "sint d = (uint d + 2 ^ 31) mod 2 ^ 32 - 2 ^ 31"
    by (simp add: sint_uint signed_take_bit_eq_take_bit_shift take_bit_eq_mod)
  moreover have "(uint d + 2 ^ 31) mod 2 ^ 32 = (if uint d < 2 ^ 31 then uint d + 2 ^ 31 else uint d + 2 ^ 31 - 2 ^ 32)"
    using u by (auto simp: mod_pos_geq)
  ultimately show ?thesis by auto
qed




section \<open>Reading unwrap on integers\<close>

text \<open>The distance from the wrapped checkpoint, which is all that \<open>unwrap\<close> looks at.\<close>

definition wrap_distance :: "wrap32 \<Rightarrow> wrap32 \<Rightarrow> 64 word \<Rightarrow> int" where
  "wrap_distance x zp cp = uint (raw_value x - raw_value (wrap cp zp))"

lemma wrap_distance_bounds: "0 \<le> wrap_distance x zp cp" "wrap_distance x zp cp < 2 ^ 32"
  using uint_lt2p [of "raw_value x - raw_value (wrap cp zp)"] by (simp_all add: wrap_distance_def)

lemma unwrap_uint:
  "uint (unwrap x zp cp) =
     (if wrap_distance x zp cp < 2 ^ 31 \<or> (wrap_distance x zp cp + uint cp) mod 2 ^ 64 < 2 ^ 32
      then (uint cp + wrap_distance x zp cp) mod 2 ^ 64
      else (uint cp + wrap_distance x zp cp - 2 ^ 32) mod 2 ^ 64)"
proof -
  define d where "d = raw_value x - raw_value (wrap cp zp)"
  have "uint d < 2 ^ 32" using uint_lt2p [of d] by simp
  then have u: "uint (ucast d :: 64 word) = uint d"
    by (simp add: unsigned_ucast_eq take_bit_int_eq_self)
  have le: "ucast d + cp \<le> (0xFFFFFFFF :: 64 word) \<longleftrightarrow> (uint d + uint cp) mod 2 ^ 64 < 2 ^ 32"
    by (auto simp add: word_le_def uint_word_ariths u)
  have add: "uint (cp + ucast d) = (uint cp + uint d) mod 2 ^ 64"
    by (simp add: uint_word_ariths u)
  have sadd: "uint (cp + scast d) = (uint cp + sint d) mod 2 ^ 64"
    using uint_add_scast [of cp d] by simp
  show ?thesis
    unfolding unwrap_def Let_def getRawValue_def wrap_distance_def d_def [symmetric]
    by (auto simp: high_bit le add sadd sint_word32 add_diff_eq)
qed


text \<open>Two absolute numbers wrap to the same value when they agree modulo \<open>2 ^ 32\<close>.\<close>

lemma wrap_eq_iff: "wrap m zp = x \<longleftrightarrow> raw_value x = raw_value zp + ucast m"
  by (cases x) (auto simp: wrap_def wrap32_plus_def Wrap32_def)

lemma uint_ucast32: "uint (ucast (m :: 64 word) :: 32 word) = uint m mod 2 ^ 32"
  by (simp add: unsigned_ucast_eq take_bit_eq_mod)

lemma wrap_distance_wrap: "wrap_distance (wrap m zp) zp cp = (uint m - uint cp) mod 2 ^ 32"
proof -
  have "wrap_distance (wrap m zp) zp cp = uint (ucast m - ucast cp :: 32 word)"
    by (simp add: wrap_distance_def wrap_def wrap32_plus_def Wrap32_def)
  also have "\<dots> = (uint m mod 2 ^ 32 - uint cp mod 2 ^ 32) mod 2 ^ 32"
    by (simp only: uint_word_ariths uint_ucast32) simp
  finally show ?thesis by (simp only: mod_diff_eq)
qed

lemma unwrap_congruent: "uint (unwrap (wrap m zp) zp cp) mod 2 ^ 32 = uint m mod 2 ^ 32"
proof -
  define d where "d = (uint m - uint cp) mod 2 ^ 32"
  obtain q where q: "uint m - uint cp = d + q * 2 ^ 32"
    unfolding d_def by (metis mod_div_mult_eq add.commute)
  have dist: "wrap_distance (wrap m zp) zp cp = d"
    by (simp only: wrap_distance_wrap d_def)
  have dvd: "(2 :: int) ^ 32 dvd 2 ^ 64" by (rule le_imp_power_dvd) simp
  have eq: "uint cp + d + k * 2 ^ 32 = uint m + (k - q) * 2 ^ 32" for k
    using q by (simp add: algebra_simps)
  have "(uint cp + d + k * 2 ^ 32) mod 2 ^ 64 mod 2 ^ 32 = uint m mod 2 ^ 32" for k
    by (simp only: mod_mod_cancel [OF dvd] eq mod_mult_self1)
  from this [of 0] this [of "- 1"]
  have "(uint cp + d) mod 2 ^ 64 mod 2 ^ 32 = uint m mod 2 ^ 32"
    and "(uint cp + d - 2 ^ 32) mod 2 ^ 64 mod 2 ^ 32 = uint m mod 2 ^ 32"
    by (simp_all only: mult_zero_left add_0_right mult_minus_left mult_1_left add_uminus_conv_diff)
  then show ?thesis
    unfolding unwrap_uint dist by (simp only: if_distrib [of "\<lambda>x. x mod 2 ^ 32"] if_cancel)
qed

lemma unwrap_closest_int:
  assumes "uint cp < 2 ^ 64 - 2 ^ 32" and r: "r = uint (unwrap (wrap m zp) zp cp)"
  shows "\<bar>r - uint cp\<bar> \<le> \<bar>uint m - uint cp\<bar>"
proof -
  define d where "d = (uint m - uint cp) mod 2 ^ 32"
  obtain k where k: "uint m - uint cp = d + k * 2 ^ 32"
    unfolding d_def by (metis mod_div_mult_eq add.commute)
  have dist: "wrap_distance (wrap m zp) zp cp = d"
    by (simp only: wrap_distance_wrap d_def)
  have d: "0 \<le> d" "d < 4294967296" unfolding d_def by simp_all
  have m: "0 \<le> uint m" "0 \<le> uint cp" by simp_all
  from assms(1) d m have nowrap: "(uint cp + d) mod 2 ^ 64 = uint cp + d" by simp
  have r': "r = (if d < 2 ^ 31 \<or> uint cp + d < 2 ^ 32 then uint cp + d else uint cp + d - 2 ^ 32)"
    using nowrap assms(1) d m by (simp add: r unwrap_uint dist add.commute)
  define K where "K = k * 2 ^ 32"
  have "k \<le> - 1 \<or> k = 0 \<or> 1 \<le> k" by linarith
  then have K: "K \<le> - 4294967296 \<or> K = 0 \<or> 4294967296 \<le> K" by (auto simp: K_def)
  have M: "uint m = uint cp + d + K" using k by (simp add: K_def)
  show ?thesis
  proof (cases "d < 2147483648 \<or> uint cp + d < 4294967296")
    case True
    then have "r = uint cp + d" using r' by simp
    then show ?thesis using True K M d m by linarith
  next
    case False
    then have "r = uint cp + d - 4294967296" using r' by simp
    then show ?thesis using False K M d m by linarith
  qed
qed


lemma wrap_unwrap: "wrap (unwrap x zp cp) zp = x"
proof -
  have "wrap (ucast (raw_value x - raw_value zp)) zp = x"
    by (simp add: wrap_eq_iff ucast_ucast_down)
  then obtain m where m: "x = wrap m zp" by metis
  have "uint (ucast (unwrap x zp cp) :: 32 word) = uint (ucast m :: 32 word)"
    using unwrap_congruent [of m zp cp] by (simp only: m uint_ucast32)
  then have "(ucast (unwrap x zp cp) :: 32 word) = ucast m" by (simp only: word_uint_eq_iff)
  then show ?thesis by (simp add: m wrap_def)
qed

lemma unwrap_recover:
  assumes cp: "uint cp < 2 ^ 64 - 2 ^ 32" and near: "\<bar>uint m - uint cp\<bar> < 2 ^ 31"
  shows "unwrap (wrap m zp) zp cp = m"
proof -
  define r where "r = uint (unwrap (wrap m zp) zp cp)"
  have "\<bar>r - uint cp\<bar> \<le> \<bar>uint m - uint cp\<bar>"
    using unwrap_closest_int [OF cp r_def] .
  with near have bound: "\<bar>r - uint m\<bar> < 2 ^ 32" by simp
  have "r mod 2 ^ 32 = uint m mod 2 ^ 32" unfolding r_def by (rule unwrap_congruent)
  then have "(2 :: int) ^ 32 dvd (r - uint m)" by (simp only: mod_eq_dvd_iff)
  with bound have "r = uint m"
    using zdvd_not_zless [of "\<bar>r - uint m\<bar>" "2 ^ 32"] by auto
  then show ?thesis unfolding r_def by (simp only: word_uint_eq_iff)
qed

text \<open>
  The test against \<open>UINT32_MAX\<close> adds in 64 bits and wraps too, so for checkpoints in the
  last \<open>2 ^ 32\<close> values the branch meant for small checkpoints is taken.
\<close>

lemma unwrap_near_limit:
  "uint (unwrap (Wrap32 0xFFFFFFFE) (Wrap32 0) 0xFFFFFFFFFFFFFFFF) = 0xFFFFFFFE"
  "wrap 0xFFFFFFFFFFFFFFFE (Wrap32 0) = Wrap32 0xFFFFFFFE"
  by code_simp+

end
