(* ===== verification/Byte_Stream.thy ===== *)
theory Byte_Stream
  imports Prelude
begin

text \<open>
  \<open>src/src/byte_stream.hh\<close>, \<open>byte_stream.cc\<close> and \<open>byte_stream_helpers.cc\<close>: the flat
  buffer behind a byte stream, the stream's writer and reader sides, and the \<open>read\<close>
  helper. The file also holds the interface \<open>fifo_stream\<close> that the other components rely
  on and its interpretation on the code's operations.
\<close>

section \<open>ByteStream::Buffer\<close>

record byte_buffer =
  buf_capacity :: nat
  buf_array :: "byte list"
  write_index :: nat
  read_index :: nat

definition buffer_new :: "nat \<Rightarrow> byte_buffer" where
  "buffer_new capacity =
     \<lparr>buf_capacity = capacity, buf_array = replicate capacity 0, write_index = 0, read_index = 0\<rparr>"

definition bytesBuffered :: "byte_buffer \<Rightarrow> nat" where
  "bytesBuffered b = sub64 (write_index b) (read_index b)"

definition availableCapacity :: "byte_buffer \<Rightarrow> nat" where
  "availableCapacity b = sub64 (buf_capacity b) (bytesBuffered b)"

text \<open>The element-by-element move of overlapping ranges, \<open>array_[i] = array_[i + read_index_]\<close>.\<close>

fun move_down :: "byte list \<Rightarrow> nat \<Rightarrow> nat \<Rightarrow> nat \<Rightarrow> byte list outcome" where
  "move_down arr r i 0 = Inr arr"
| "move_down arr r i (Suc n) =
     andthen (vec_at arr (add64 i r)) (\<lambda>x.
     andthen (vec_put arr i x) (\<lambda>arr'. move_down arr' r (Suc i) n))"

definition buffer_push :: "byte_buffer \<Rightarrow> byte list \<Rightarrow> nat \<Rightarrow> byte_buffer outcome" where
  "buffer_push b data len_pushed =
     (if len_pushed = 0 then Inr b
      else
        let to_tail = sub64 (length (buf_array b)) (write_index b);
            to_read = read_index b
        in if to_tail \<ge> len_pushed then
             andthen (memcpy_from (buf_array b) (write_index b) data len_pushed) (\<lambda>arr.
             Inr (b\<lparr>buf_array := arr, write_index := add64 (write_index b) len_pushed\<rparr>))
           else
             let arr = (if add64 to_read to_tail < len_pushed
                        then vec_resize 0 (buf_array b) (mul64 (length (buf_array b)) 4)
                        else buf_array b);
                 n = bytesBuffered b
             in andthen (if n > 0 \<and> read_index b \<ge> n then memcpy_within arr 0 (read_index b) n
                         else move_down arr (read_index b) 0 n) (\<lambda>arr'.
                let w = sub64 (write_index b) (read_index b)
                in andthen (memcpy_from arr' w data len_pushed) (\<lambda>arr''.
                   Inr (b\<lparr>buf_array := arr'', write_index := add64 w len_pushed, read_index := 0\<rparr>))))"

definition buffer_pop :: "byte_buffer \<Rightarrow> nat \<Rightarrow> byte_buffer" where
  "buffer_pop b len = b\<lparr>read_index := add64 (read_index b) len\<rparr>"

definition buffer_isEmpty :: "byte_buffer \<Rightarrow> bool" where
  "buffer_isEmpty b \<longleftrightarrow> write_index b = read_index b"

definition toStringView :: "byte_buffer \<Rightarrow> byte list" where
  "toStringView b = take (bytesBuffered b) (drop (read_index b) (buf_array b))"

section \<open>ByteStream, Writer and Reader\<close>

record byte_stream =
  stream_capacity :: nat
  flags :: "8 word"
  total_pushed :: nat
  total_popped :: nat
  buffer :: byte_buffer

definition EOF_FLAG :: "32 word" where "EOF_FLAG = 1"
definition ERROR_FLAG :: "32 word" where "ERROR_FLAG = 2"

definition ByteStream :: "nat \<Rightarrow> byte_stream" where
  "ByteStream capacity =
     \<lparr>stream_capacity = capacity, flags = 0, total_pushed = 0, total_popped = 0,
      buffer = buffer_new capacity\<rparr>"

definition available_capacity :: "byte_stream \<Rightarrow> nat" where
  "available_capacity s = availableCapacity (buffer s)"

definition writer_push :: "byte_stream \<Rightarrow> byte list \<Rightarrow> byte_stream outcome" where
  "writer_push s data =
     (let len_pushed = min (length data) (available_capacity s)
      in andthen (buffer_push (buffer s) data len_pushed) (\<lambda>b.
         Inr (s\<lparr>total_pushed := add64 (total_pushed s) len_pushed, buffer := b\<rparr>)))"

definition writer_close :: "byte_stream \<Rightarrow> byte_stream" where
  "writer_close s = s\<lparr>flags := ucast ((scast (flags s) :: 32 word) OR EOF_FLAG)\<rparr>"

definition set_error :: "byte_stream \<Rightarrow> byte_stream" where
  "set_error s = s\<lparr>flags := ucast ((scast (flags s) :: 32 word) OR ERROR_FLAG)\<rparr>"

definition is_closed :: "byte_stream \<Rightarrow> bool" where
  "is_closed s \<longleftrightarrow> (scast (flags s) :: 32 word) AND EOF_FLAG \<noteq> 0"

definition bytes_pushed :: "byte_stream \<Rightarrow> nat" where
  "bytes_pushed s = total_pushed s"

definition peek :: "byte_stream \<Rightarrow> byte list" where
  "peek s = toStringView (buffer s)"

definition is_finished :: "byte_stream \<Rightarrow> bool" where
  "is_finished s \<longleftrightarrow> (scast (flags s) :: 32 word) AND EOF_FLAG \<noteq> 0 \<and> buffer_isEmpty (buffer s)"

definition has_error :: "byte_stream \<Rightarrow> bool" where
  "has_error s \<longleftrightarrow> (scast (flags s) :: 32 word) AND ERROR_FLAG \<noteq> 0"

definition bytes_buffered :: "byte_stream \<Rightarrow> nat" where
  "bytes_buffered s = bytesBuffered (buffer s)"

definition reader_pop :: "byte_stream \<Rightarrow> nat \<Rightarrow> byte_stream" where
  "reader_pop s len =
     (let len_popped = min len (bytes_buffered s)
      in s\<lparr>total_popped := add64 (total_popped s) len_popped,
           buffer := buffer_pop (buffer s) len_popped\<rparr>)"

definition bytes_popped :: "byte_stream \<Rightarrow> nat" where
  "bytes_popped s = total_popped s"

text \<open>
  The two ends of a stream are casts of the stream to a class without members of its own (the size
  is asserted), so what an end reads and writes is the stream itself.
\<close>

definition reader_end :: "byte_stream \<Rightarrow> byte_stream" where
  "reader_end s = s"

definition writer_end :: "byte_stream \<Rightarrow> byte_stream" where
  "writer_end s = s"


section \<open>The buffer invariant\<close>

text \<open>
  The indices stay ordered inside the array, the array keeps the size the constructor gave
  it, and no counter is near its width. The bound on the capacity is what makes the array
  itself possible.
\<close>

definition buffer_inv :: "byte_buffer \<Rightarrow> bool" where
  "buffer_inv b \<longleftrightarrow> read_index b \<le> write_index b \<and> write_index b \<le> length (buf_array b)
     \<and> length (buf_array b) = buf_capacity b \<and> buf_capacity b < 2 ^ 64"

lemma buffer_inv_new: "capacity < 2 ^ 64 \<Longrightarrow> buffer_inv (buffer_new capacity)"
  by (simp add: buffer_inv_def buffer_new_def)

lemma buffer_invD:
  assumes "buffer_inv b"
  shows "read_index b \<le> write_index b" "write_index b \<le> length (buf_array b)"
    "length (buf_array b) = buf_capacity b" "buf_capacity b < 2 ^ 64"
  using assms by (simp_all add: buffer_inv_def)

lemma bytesBuffered_inv: "buffer_inv b \<Longrightarrow> bytesBuffered b = write_index b - read_index b"
  by (simp add: buffer_inv_def bytesBuffered_def wrap_simps)

lemma availableCapacity_inv:
  "buffer_inv b \<Longrightarrow> availableCapacity b = buf_capacity b - (write_index b - read_index b)"
  using buffer_invD [of b] by (auto simp: availableCapacity_def bytesBuffered_inv wsub_nowrap)

lemma toStringView_inv:
  "buffer_inv b \<Longrightarrow> toStringView b = take (write_index b - read_index b) (drop (read_index b) (buf_array b))"
  by (simp add: toStringView_def bytesBuffered_inv)

lemma length_toStringView: "buffer_inv b \<Longrightarrow> length (toStringView b) = bytesBuffered b"
  using buffer_invD [of b] by (auto simp: toStringView_def bytesBuffered_inv)

lemma move_down_overwrite:
  "i + r + n \<le> length arr \<Longrightarrow> length arr < 2 ^ 64 \<Longrightarrow>
   move_down arr r i n = Inr (overwrite arr i (take n (drop (i + r) arr)))"
proof (induction arr r i n rule: move_down.induct)
  case (1 arr r i)
  then show ?case by (simp add: overwrite_def)
next
  case (2 arr r i n)
  let ?arr = "arr[i := arr ! (i + r)]"
  have i: "i + r < length arr" using "2.prems"(1) by simp
  have "move_down arr r i (Suc n) = move_down ?arr r (Suc i) n"
    using i "2.prems"(2) by (simp add: wrap_simps)
  also have "\<dots> = Inr (overwrite ?arr (Suc i) (take n (drop (Suc i + r) ?arr)))"
    using "2.IH" "2.prems" i by (simp add: wrap_simps)
  also have "drop (Suc i + r) ?arr = drop (Suc (i + r)) arr"
    by (simp add: drop_update_cancel)
  also have "overwrite ?arr (Suc i) (take n (drop (Suc (i + r)) arr))
      = overwrite arr i (take (Suc n) (drop (i + r) arr))"
    using i by (simp add: overwrite_def take_Suc_conv_app_nth Cons_nth_drop_Suc [symmetric])
  finally show ?case .
qed

text \<open>Pushing within the available capacity succeeds and appends.\<close>

lemma buffer_push_spec:
  assumes inv: "buffer_inv b" and len: "n \<le> availableCapacity b" "n \<le> length data"
  obtains b' where "buffer_push b data n = Inr b'" "buffer_inv b'"
    "toStringView b' = toStringView b @ take n data" "buf_capacity b' = buf_capacity b"
proof -
  let ?r = "read_index b" and ?w = "write_index b" and ?a = "buf_array b"
  have rw: "?r \<le> ?w" "?w \<le> length ?a" "length ?a = buf_capacity b" "buf_capacity b < 2 ^ 64"
    using buffer_invD [OF inv] by auto
  have n: "n \<le> length ?a - (?w - ?r)" using len(1) rw by (simp add: availableCapacity_inv [OF inv])
  have to_tail: "sub64 (length ?a) ?w = length ?a - ?w" using rw by (simp add: wsub_nowrap)
  have view: "toStringView b = take (?w - ?r) (drop ?r ?a)"
    by (simp add: toStringView_def bytesBuffered_inv [OF inv])
  consider (none) "n = 0" | (tail) "0 < n" "?w + n \<le> length ?a"
    | (shift) "0 < n" "length ?a < ?w + n" by linarith
  then show thesis
  proof cases
    case none
    then show thesis using that [of b] inv by (simp add: buffer_push_def)
  next
    case tail
    let ?b = "b\<lparr>buf_array := overwrite ?a ?w (take n data), write_index := ?w + n\<rparr>"
    have inv': "buffer_inv ?b" using tail rw len by (simp add: buffer_inv_def)
    show thesis
    proof (rule that [of ?b])
      show "buffer_push b data n = Inr ?b"
      proof -
        have "n \<le> length ?a - ?w" using tail by simp
        moreover have "add64 ?w n = ?w + n" using tail rw by (simp add: wadd_nowrap)
        ultimately show ?thesis
          using tail len by (simp add: buffer_push_def Let_def memcpy_from_def to_tail)
      qed
      show "toStringView ?b = toStringView b @ take n data"
        using tail rw len take_drop_overwrite [of ?r ?w "take n data" ?a]
        by (simp add: view) (simp add: toStringView_def bytesBuffered_inv [OF inv'])
    qed (use inv' in simp_all)
  next
    case shift
    let ?m = "?w - ?r"
    define arr where "arr = overwrite ?a 0 (toStringView b)"
    let ?b = "b\<lparr>buf_array := overwrite arr ?m (take n data), write_index := ?m + n, read_index := 0\<rparr>"
    have m: "length (toStringView b) = ?m" using rw by (simp add: view)
    have arr: "length arr = length ?a" "take ?m arr = toStringView b"
      using m rw by (simp_all add: arr_def overwrite_def)
    have inv': "buffer_inv ?b" using n rw len arr by (simp add: buffer_inv_def)
    have moved: "(if 0 < ?m \<and> ?m \<le> ?r then memcpy_within ?a 0 ?r ?m else move_down ?a ?r 0 ?m) = Inr arr"
      using rw move_down_overwrite [of 0 ?r ?m ?a]
      by (auto simp: memcpy_within_def arr_def view)
    show thesis
    proof (rule that [of ?b])
      show "buffer_push b data n = Inr ?b"
      proof -
        have "\<not> n \<le> length ?a - ?w" using shift by simp
        moreover have "add64 ?r (length ?a - ?w) = ?r + (length ?a - ?w)"
          using rw by (simp add: wadd_nowrap)
        moreover have "\<not> ?r + (length ?a - ?w) < n" using n rw by simp
        moreover have "sub64 ?w ?r = ?m" using rw by (simp add: wsub_nowrap)
        moreover have "add64 ?m n = ?m + n" "?m + n \<le> length arr"
          using n rw arr by (simp_all add: wadd_nowrap)
        ultimately show ?thesis
          using shift(1) len(2) moved
          by (simp add: buffer_push_def Let_def bytesBuffered_inv [OF inv] memcpy_from_def to_tail)
      qed
      show "toStringView ?b = toStringView b @ take n data"
      proof -
        have "length (take n data) = n" using len by simp
        with take_drop_overwrite [of 0 ?m "take n data" arr] n rw arr
        have "take (?m + n) (overwrite arr ?m (take n data)) = toStringView b @ take n data" by simp
        then show ?thesis by (simp add: toStringView_inv [OF inv'])
      qed
    qed (use inv' in simp_all)
  qed
qed

lemma buffer_pop_spec:
  assumes "buffer_inv b" and "n \<le> bytesBuffered b"
  shows "buffer_inv (buffer_pop b n)" "toStringView (buffer_pop b n) = drop n (toStringView b)"
    "buf_capacity (buffer_pop b n) = buf_capacity b"
proof -
  have n: "read_index b + n \<le> write_index b"
    using assms(2) buffer_invD [OF assms(1)] by (simp add: bytesBuffered_inv [OF assms(1)])
  have pop: "buffer_pop b n = b\<lparr>read_index := read_index b + n\<rparr>"
    using n assms(1) by (simp add: buffer_pop_def buffer_inv_def wrap_simps)
  show inv: "buffer_inv (buffer_pop b n)" using assms(1) n by (simp add: pop buffer_inv_def)
  show "toStringView (buffer_pop b n) = drop n (toStringView b)"
    using inv assms(1) by (simp add: toStringView_def bytesBuffered_inv) (simp add: pop drop_take add.commute)
  show "buf_capacity (buffer_pop b n) = buf_capacity b" by (simp add: buffer_pop_def)
qed


section \<open>The stream: invariant and laws of its operations\<close>

definition stream_inv :: "byte_stream \<Rightarrow> bool" where
  "stream_inv s \<longleftrightarrow> buffer_inv (buffer s) \<and> buf_capacity (buffer s) = stream_capacity s
     \<and> total_pushed s = add64 (total_popped s) (length (peek s)) \<and> total_popped s < 2 ^ 64"

lemma bit_scast_flags: "n < 8 \<Longrightarrow> bit (scast (f :: 8 word) :: 32 word) n \<longleftrightarrow> bit f n"
  by (cases "n = 7") (simp_all add: bit_signed_iff min_def)

lemma flag_test:
  "(scast (f :: 8 word) :: 32 word) AND EOF_FLAG \<noteq> 0 \<longleftrightarrow> bit f 0"
  "(scast (f :: 8 word) :: 32 word) AND ERROR_FLAG \<noteq> 0 \<longleftrightarrow> bit f 1"
proof -
  have "EOF_FLAG = push_bit 0 1" "ERROR_FLAG = push_bit 1 1"
    by (simp_all add: EOF_FLAG_def ERROR_FLAG_def)
  note flags = this
  show "(scast f :: 32 word) AND EOF_FLAG \<noteq> 0 \<longleftrightarrow> bit f 0"
    unfolding flags(1) bit_iff_and_push_bit_not_eq_0 [symmetric] by (simp add: bit_scast_flags)
  show "(scast f :: 32 word) AND ERROR_FLAG \<noteq> 0 \<longleftrightarrow> bit f 1"
    unfolding flags(2) bit_iff_and_push_bit_not_eq_0 [symmetric] by (simp add: bit_scast_flags)
qed

lemma flag_set:
  assumes "n < 8"
  shows "bit (ucast ((scast (f :: 8 word) :: 32 word) OR EOF_FLAG) :: 8 word) n \<longleftrightarrow> bit f n \<or> n = 0"
    "bit (ucast ((scast (f :: 8 word) :: 32 word) OR ERROR_FLAG) :: 8 word) n \<longleftrightarrow> bit f n \<or> n = 1"
proof -
  have e: "bit (EOF_FLAG :: 32 word) n \<longleftrightarrow> n = 0" "bit (ERROR_FLAG :: 32 word) n \<longleftrightarrow> n = 1"
    by (auto simp: EOF_FLAG_def ERROR_FLAG_def bit_1_iff bit_2_iff)
  show "bit (ucast ((scast f :: 32 word) OR EOF_FLAG) :: 8 word) n \<longleftrightarrow> bit f n \<or> n = 0"
    "bit (ucast ((scast f :: 32 word) OR ERROR_FLAG) :: 8 word) n \<longleftrightarrow> bit f n \<or> n = 1"
    using assms by (simp_all add: bit_unsigned_iff bit_or_iff bit_scast_flags e)
qed

lemma stream_flags [simp]:
  "is_closed (writer_close s)" "has_error (writer_close s) = has_error s"
  "has_error (set_error s)" "is_closed (set_error s) = is_closed s"
  "peek (writer_close s) = peek s" "peek (set_error s) = peek s"
  "stream_capacity (writer_close s) = stream_capacity s"
  "stream_inv (writer_close s) = stream_inv s" "stream_inv (set_error s) = stream_inv s"
  "available_capacity (writer_close s) = available_capacity s"
  by (simp_all add: is_closed_def has_error_def flag_test writer_close_def set_error_def flag_set
      peek_def stream_inv_def available_capacity_def)

lemma stream_new [simp]:
  assumes "c < 2 ^ 64"
  shows "stream_inv (ByteStream c)" "peek (ByteStream c) = []" "\<not> is_closed (ByteStream c)"
    "stream_capacity (ByteStream c) = c" "total_popped (ByteStream c) = 0"
    "total_pushed (ByteStream c) = 0"
proof -
  show "peek (ByteStream c) = []"
    by (simp add: peek_def ByteStream_def toStringView_def buffer_new_def bytesBuffered_def wsub_def)
  moreover have "buffer_inv (buffer (ByteStream c))" "buf_capacity (buffer (ByteStream c)) = c"
    using assms by (simp_all add: ByteStream_def buffer_inv_new) (simp add: buffer_new_def)
  ultimately show "stream_inv (ByteStream c)"
    by (simp add: stream_inv_def) (simp add: ByteStream_def wadd_def)
qed (simp_all add: ByteStream_def is_closed_def flag_test)

lemma bytes_buffered_peek: "stream_inv s \<Longrightarrow> bytes_buffered s = length (peek s)"
  by (simp add: bytes_buffered_def peek_def stream_inv_def length_toStringView)

lemma available_capacity_peek:
  assumes "stream_inv s"
  shows "available_capacity s = stream_capacity s - length (peek s)"
    "length (peek s) \<le> stream_capacity s" "stream_capacity s < 2 ^ 64"
proof -
  have inv: "buffer_inv (buffer s)" "buf_capacity (buffer s) = stream_capacity s"
    using assms by (simp_all add: stream_inv_def)
  then show "available_capacity s = stream_capacity s - length (peek s)"
    by (simp add: available_capacity_def availableCapacity_inv peek_def length_toStringView bytesBuffered_inv)
  show "length (peek s) \<le> stream_capacity s" "stream_capacity s < 2 ^ 64"
    using inv buffer_invD [OF inv(1)] by (simp_all add: peek_def length_toStringView bytesBuffered_inv)
qed

lemma is_finished_peek: "stream_inv s \<Longrightarrow> is_finished s \<longleftrightarrow> is_closed s \<and> peek s = []"
  using buffer_invD [of "buffer s"] bytes_buffered_peek [of s]
  by (auto simp: is_finished_def is_closed_def buffer_isEmpty_def bytes_buffered_def stream_inv_def
      bytesBuffered_inv)

lemma writer_push_spec:
  assumes inv: "stream_inv s"
  obtains s' where "writer_push s d = Inr s'" "stream_inv s'"
    "peek s' = peek s @ take (available_capacity s) d"
    "stream_capacity s' = stream_capacity s" "flags s' = flags s"
    "total_popped s' = total_popped s"
    "total_pushed s' = add64 (total_pushed s) (min (length d) (available_capacity s))"
proof -
  let ?n = "min (length d) (available_capacity s)"
  have b: "buffer_inv (buffer s)" "?n \<le> availableCapacity (buffer s)" "?n \<le> length d"
    using inv by (simp_all add: stream_inv_def available_capacity_def)
  obtain b' where b': "buffer_push (buffer s) d ?n = Inr b'" "buffer_inv b'"
    "toStringView b' = toStringView (buffer s) @ take ?n d" "buf_capacity b' = buf_capacity (buffer s)"
    using buffer_push_spec [OF b] by metis
  let ?s = "s\<lparr>total_pushed := add64 (total_pushed s) ?n, buffer := b'\<rparr>"
  have take: "take ?n d = take (available_capacity s) d" by (simp add: min_def)
  have peek: "peek ?s = peek s @ take (available_capacity s) d"
    using b'(3) take by (simp add: peek_def)
  have len: "length (peek ?s) = length (peek s) + ?n" using peek by (simp add: min.commute)
  show thesis
  proof (rule that [of ?s])
    show "stream_inv ?s"
      using inv b' len by (simp add: stream_inv_def wadd_assoc)
    show "writer_push s d = Inr ?s" using b'(1) by (simp add: writer_push_def)
  qed (use peek in simp_all)
qed

lemma reader_pop_spec:
  assumes inv: "stream_inv s"
  shows "stream_inv (reader_pop s n)" "peek (reader_pop s n) = drop n (peek s)"
    "stream_capacity (reader_pop s n) = stream_capacity s" "flags (reader_pop s n) = flags s"
    "total_pushed (reader_pop s n) = total_pushed s"
    "total_popped (reader_pop s n) = add64 (total_popped s) (min n (length (peek s)))"
proof -
  let ?n = "min n (length (peek s))"
  have b: "buffer_inv (buffer s)" "?n \<le> bytesBuffered (buffer s)"
    using inv bytes_buffered_peek [OF inv] by (simp_all add: stream_inv_def bytes_buffered_def)
  have pop: "reader_pop s n = s\<lparr>total_popped := add64 (total_popped s) ?n,
      buffer := buffer_pop (buffer s) ?n\<rparr>"
    by (simp add: reader_pop_def Let_def bytes_buffered_peek [OF inv])
  show peek: "peek (reader_pop s n) = drop n (peek s)"
    using buffer_pop_spec(2) [OF b] by (simp add: pop peek_def min_def)
  show "stream_inv (reader_pop s n)"
  proof -
    have "?n + (length (peek s) - n) = length (peek s)" by simp
    then show ?thesis
      using inv buffer_pop_spec [OF b] peek
      by (simp add: stream_inv_def) (simp add: pop wadd_assoc)
  qed
qed (simp_all add: reader_pop_def Let_def bytes_buffered_peek [OF inv])


section \<open>The read helper\<close>

function read_loop :: "byte_stream \<Rightarrow> nat \<Rightarrow> byte list \<Rightarrow> (byte list \<times> byte_stream) outcome" where
  "read_loop s len out =
     (if bytes_buffered s \<noteq> 0 \<and> length out < len then
        let view = peek s
        in if view = [] then Inl (Runtime_Error ''Reader::peek() returned empty string_view'')
           else let view' = take (len - length out) view
                in read_loop (reader_pop s (length view')) len (out @ view')
      else Inr (out, s))"
  by pat_completeness auto
termination
  by (relation "measure (\<lambda>(s, len, out). len - length out)") 
     (auto simp: min_def simp flip: length_greater_0_conv)

declare read_loop.simps [simp del]

definition read_stream :: "byte_stream \<Rightarrow> nat \<Rightarrow> (byte list \<times> byte_stream) outcome" where
  "read_stream s len = read_loop s len []"

lemma read_loop_done:
  assumes "stream_inv s" and "len \<le> length out \<or> peek s = []"
  shows "read_loop s len out = Inr (out, s)"
  using assms by (subst read_loop.simps) (auto simp: bytes_buffered_peek)

lemma read_stream_spec:
  assumes inv: "stream_inv s"
  obtains s' where "read_stream s len = Inr (take len (peek s), s')" "stream_inv s'"
    "peek s' = drop len (peek s)" "stream_capacity s' = stream_capacity s" "flags s' = flags s"
proof (cases "len = 0 \<or> peek s = []")
  case True
  then show thesis
    using that [of s] inv read_loop_done [OF inv, of len "[]"] by (auto simp: read_stream_def)
next
  case False
  let ?v = "take len (peek s)"
  let ?s = "reader_pop s (length ?v)"
  have s: "stream_inv ?s" "peek ?s = drop len (peek s)"
    using reader_pop_spec [OF inv, of "length ?v"] by (simp_all add: min_def)
  have "read_stream s len = read_loop ?s len ?v"
    using False inv by (simp add: read_stream_def read_loop.simps [of s len "[]"] bytes_buffered_peek Let_def)
  also have "\<dots> = Inr (?v, ?s)"
    using False s by (intro read_loop_done) (auto simp: min_def)
  finally show thesis
    using that [of ?s] s reader_pop_spec [OF inv] by simp
qed

section \<open>The stream as a bounded queue of bytes\<close>

text \<open>
  What the clients of a stream rely on. A client sees the bytes that are in the stream, how
  many more fit, and whether the writer has closed it; the operations keep the invariant and
  are those of a bounded first-in first-out queue. \<open>stream_trace\<close> runs a list of calls
  and collects the bytes the stream accepted and the bytes it handed out.
\<close>

datatype stream_call = Push "byte list" | Pop nat | Close

fun stream_trace ::
  "('s \<Rightarrow> byte list \<Rightarrow> 's outcome) \<Rightarrow> ('s \<Rightarrow> nat \<Rightarrow> 's) \<Rightarrow> ('s \<Rightarrow> 's) \<Rightarrow>
   ('s \<Rightarrow> byte list) \<Rightarrow> ('s \<Rightarrow> nat) \<Rightarrow> 's \<Rightarrow> stream_call list \<Rightarrow>
   (byte list \<times> byte list \<times> 's) outcome" where
  "stream_trace psh pp cls pk room s [] = Inr ([], [], s)"
| "stream_trace psh pp cls pk room s (Push d # cs) =
     andthen (psh s d) (\<lambda>s'. andthen (stream_trace psh pp cls pk room s' cs) (\<lambda>(acc, del, t).
     Inr (take (room s) d @ acc, del, t)))"
| "stream_trace psh pp cls pk room s (Pop n # cs) =
     andthen (stream_trace psh pp cls pk room (pp s n) cs) (\<lambda>(acc, del, t).
     Inr (acc, take n (pk s) @ del, t))"
| "stream_trace psh pp cls pk room s (Close # cs) = stream_trace psh pp cls pk room (cls s) cs"

locale fifo_stream =
  fixes push :: "'s \<Rightarrow> byte list \<Rightarrow> 's outcome"
    and pop :: "'s \<Rightarrow> nat \<Rightarrow> 's"
    and close :: "'s \<Rightarrow> 's"
    and contents :: "'s \<Rightarrow> byte list"
    and room :: "'s \<Rightarrow> nat"
    and limit :: "'s \<Rightarrow> nat"
    and closed :: "'s \<Rightarrow> bool"
    and invar :: "'s \<Rightarrow> bool"
  assumes push_ok: "invar s \<Longrightarrow> \<exists>s'. push s d = Inr s' \<and> invar s'
      \<and> contents s' = contents s @ take (room s) d \<and> limit s' = limit s \<and> closed s' = closed s"
    and pop_ok: "invar s \<Longrightarrow> invar (pop s n) \<and> contents (pop s n) = drop n (contents s)
      \<and> limit (pop s n) = limit s \<and> closed (pop s n) = closed s"
    and close_ok: "invar s \<Longrightarrow> invar (close s) \<and> contents (close s) = contents s
      \<and> limit (close s) = limit s \<and> closed (close s)"
    and room_ok: "invar s \<Longrightarrow> room s + length (contents s) = limit s"
begin

lemma trace_conserves:
  "invar s \<Longrightarrow> \<exists>acc del t. stream_trace push pop close contents room s cs = Inr (acc, del, t)
     \<and> invar t \<and> contents s @ acc = del @ contents t \<and> limit t = limit s
     \<and> (closed s \<or> Close \<in> set cs \<longrightarrow> closed t)"
proof (induction cs arbitrary: s)
  case Nil
  then show ?case by simp
next
  case (Cons c cs)
  show ?case
  proof (cases c)
    case (Push d)
    obtain s' where s': "push s d = Inr s'" "invar s'" "contents s' = contents s @ take (room s) d"
      "limit s' = limit s" "closed s' = closed s"
      using push_ok [OF Cons.prems] by metis
    show ?thesis using Cons.IH [OF s'(2)] s' by (auto simp: Push)
  next
    case (Pop n)
    have pop: "invar (pop s n)" "contents (pop s n) = drop n (contents s)"
      "limit (pop s n) = limit s" "closed (pop s n) = closed s"
      using pop_ok [OF Cons.prems] by auto
    obtain acc del t where t: "stream_trace push pop close contents room (pop s n) cs = Inr (acc, del, t)"
      "invar t" "drop n (contents s) @ acc = del @ contents t" "limit t = limit s"
      "closed s \<or> Close \<in> set cs \<longrightarrow> closed t"
      using Cons.IH [OF pop(1)] pop by auto
    have "contents s @ acc = take n (contents s) @ drop n (contents s) @ acc" by simp
    also have "\<dots> = (take n (contents s) @ del) @ contents t" using t(3) by simp
    finally show ?thesis using t by (auto simp: Pop)
  next
    case Close
    then show ?thesis using Cons.IH [of "close s"] close_ok [OF Cons.prems] by auto
  qed
qed

lemma room_le: "invar s \<Longrightarrow> length (contents s) \<le> limit s"
  using room_ok [of s] by simp

end

interpretation code_stream: fifo_stream writer_push reader_pop writer_close peek
  available_capacity stream_capacity is_closed stream_inv
proof (unfold_locales, goal_cases)
  case (1 s d)
  then show ?case by (rule writer_push_spec [of s d]) (auto simp: is_closed_def)
next
  case (2 s n)
  then show ?case using reader_pop_spec [of s n] by (simp add: is_closed_def)
next
  case (3 s)
  then show ?case by simp
next
  case (4 s)
  then show ?case using available_capacity_peek [of s] by simp
qed

section \<open>Evaluating concrete runs\<close>

lemma move_down_numeral [run_simps]:
  "move_down arr r i (numeral k) =
     andthen (vec_at arr (add64 i r)) (\<lambda>x.
     andthen (vec_put arr i x) (\<lambda>arr'. move_down arr' r (Suc i) (pred_numeral k)))"
  by (simp add: numeral_eq_Suc)

lemmas [run_simps] = ByteStream_def buffer_new_def available_capacity_def availableCapacity_def
  bytesBuffered_def writer_push_def buffer_push_def reader_pop_def buffer_pop_def bytes_buffered_def
  peek_def toStringView_def bytes_pushed_def bytes_popped_def writer_close_def set_error_def
  is_closed_def has_error_def is_finished_def buffer_isEmpty_def EOF_FLAG_def ERROR_FLAG_def

end
