(* ===== verification/Bitmap.thy ===== *)
theory Bitmap
  imports Prelude
begin

text \<open>
  \<open>src/util/bitmap.hpp\<close>: the bitmap the reassembler keeps over its window, with the batch
  operation that counts and clears a circular range, and \<open>BitmapNaive\<close>, the reference
  implementation for testing. \<open>Block_Size\<close> is its default, 32, which is the only
  instance the program uses, so \<open>BlockType\<close> is a 32-bit unsigned integer.
\<close>

section \<open>The block bitmap\<close>

text \<open>The width in bits of \<open>BlockType\<close> for a \<open>Block_Size\<close>.\<close>

definition block_type_bits :: "nat \<Rightarrow> nat" where
  "block_type_bits n = (if n \<le> 8 then 8 else if n \<le> 16 then 16 else if n \<le> 32 then 32 else 64)"

lemma block_type_bits_default: "block_type_bits 32 = LENGTH(32)"
  by (simp add: block_type_bits_def)

record bitmap =
  blocks :: "32 word list"
  element_capacity :: nat
  array_size :: nat

definition bitmap_default :: bitmap where
  "bitmap_default = \<lparr>blocks = [], element_capacity = 0, array_size = 0\<rparr>"

definition blocks_needed :: "nat \<Rightarrow> nat" where
  "blocks_needed capacity = sub64 (add64 capacity 32) 1 div 32"

definition Bitmap :: "nat \<Rightarrow> bitmap" where
  "Bitmap capacity =
     \<lparr>blocks = replicate (blocks_needed capacity) 0, element_capacity = capacity,
      array_size = blocks_needed capacity\<rparr>"

definition bitmap_resize :: "bitmap \<Rightarrow> nat \<Rightarrow> bitmap" where
  "bitmap_resize b capacity =
     b\<lparr>element_capacity := capacity, array_size := blocks_needed capacity,
       blocks := vec_resize 0 (blocks b) (blocks_needed capacity)\<rparr>"

definition bitmap_set :: "bitmap \<Rightarrow> nat \<Rightarrow> bitmap outcome" where
  "bitmap_set b i =
     andthen (check (i < element_capacity b) Assertion) (\<lambda>_.
     andthen (vec_at (blocks b) (i div 32)) (\<lambda>w.
     andthen (vec_put (blocks b) (i div 32) (w OR push_bit (i mod 32) 1)) (\<lambda>d.
     Inr (b\<lparr>blocks := d\<rparr>))))"

definition bitmap_unset :: "bitmap \<Rightarrow> nat \<Rightarrow> bitmap outcome" where
  "bitmap_unset b i =
     andthen (check (i < element_capacity b) Assertion) (\<lambda>_.
     andthen (vec_at (blocks b) (i div 32)) (\<lambda>w.
     andthen (vec_put (blocks b) (i div 32) (w AND NOT (push_bit (i mod 32) 1))) (\<lambda>d.
     Inr (b\<lparr>blocks := d\<rparr>))))"

definition bitmap_get :: "bitmap \<Rightarrow> nat \<Rightarrow> bool outcome" where
  "bitmap_get b i =
     andthen (check (i < element_capacity b) Assertion) (\<lambda>_.
     andthen (vec_at (blocks b) (i div 32)) (\<lambda>w.
     Inr (drop_bit (i mod 32) w AND 1 \<noteq> 0)))"

text \<open>The number of one bits, \<open>__builtin_popcount\<close>.\<close>

definition countOnes :: "32 word \<Rightarrow> nat" where
  "countOnes w = length (filter (\<lambda>j. bit w j) [0..<32])"

text \<open>
  The loop over whole blocks between the first and the last. Its index runs through the
  residues of \<open>array_size_\<close>, so \<open>array_size_\<close> tests of the exit condition see every
  index once: if none of them is the last block, the loop never ends.
\<close>

fun clear_blocks :: "nat \<Rightarrow> 32 word list \<Rightarrow> nat \<Rightarrow> nat \<Rightarrow> nat \<Rightarrow> nat \<Rightarrow> (nat \<times> 32 word list) outcome" where
  "clear_blocks 0 d n i e pop_count = Inl Diverges"
| "clear_blocks (Suc fuel) d n i e pop_count =
     (if i = e then Inr (pop_count, d)
      else
        andthen (vec_at d i) (\<lambda>w.
        andthen (vec_put d i 0) (\<lambda>d'.
        clear_blocks fuel d' n (add64 i 1 mod n) e (add64 pop_count (countOnes w)))))"

definition getPopCountAndUnsetBatch :: "bitmap \<Rightarrow> nat \<Rightarrow> nat \<Rightarrow> (nat \<times> bitmap) outcome" where
  "getPopCountAndUnsetBatch b start_element end_element =
     (let start_array = start_element div 32;
          start_bit = start_element mod 32;
          end_array = end_element div 32;
          end_bit = end_element mod 32;
          start_mask = push_bit start_bit (- 1);
          end_mask = drop_bit (31 - end_bit) (- 1)
      in andthen (vec_at (blocks b) start_array) (\<lambda>ws.
         if start_array = end_array then
           let mask = start_mask AND end_mask
           in andthen (vec_put (blocks b) start_array (ws AND NOT mask)) (\<lambda>d.
              Inr (countOnes (ws AND mask), b\<lparr>blocks := d\<rparr>))
         else
           andthen (vec_put (blocks b) start_array (ws AND NOT start_mask)) (\<lambda>d.
           andthen (check (array_size b \<noteq> 0) Undefined) (\<lambda>_.
           andthen (clear_blocks (array_size b) d (array_size b)
                      (add64 start_array 1 mod array_size b) end_array
                      (countOnes (ws AND start_mask))) (\<lambda>(pop_count, d').
           andthen (vec_at d' end_array) (\<lambda>we.
           andthen (vec_put d' end_array (we AND NOT end_mask)) (\<lambda>d''.
           Inr (add64 pop_count (countOnes (we AND end_mask)), b\<lparr>blocks := d''\<rparr>))))))))"

section \<open>The naive bitmap\<close>

type_synonym bitmap_naive = "8 word list"

definition BitmapNaive :: "nat \<Rightarrow> bitmap_naive" where
  "BitmapNaive capacity = replicate capacity 0"

definition naive_set :: "bitmap_naive \<Rightarrow> nat \<Rightarrow> bitmap_naive outcome" where
  "naive_set d i = andthen (check (i < length d) Assertion) (\<lambda>_. vec_put d i 1)"

definition naive_unset :: "bitmap_naive \<Rightarrow> nat \<Rightarrow> bitmap_naive outcome" where
  "naive_unset d i = andthen (check (i < length d) Assertion) (\<lambda>_. vec_put d i 0)"

definition naive_get :: "bitmap_naive \<Rightarrow> nat \<Rightarrow> bool outcome" where
  "naive_get d i =
     andthen (check (i < length d) Assertion) (\<lambda>_. andthen (vec_at d i) (\<lambda>w. Inr (w \<noteq> 0)))"

section \<open>Bits of a list of blocks\<close>

definition block_bits :: "32 word list \<Rightarrow> nat set" where
  "block_bits d = {i. i < 32 * length d \<and> bit (d ! (i div 32)) (i mod 32)}"

definition mask_range :: "nat \<Rightarrow> 32 word \<Rightarrow> nat set" where
  "mask_range k m = {i. i div 32 = k \<and> bit m (i mod 32)}"

lemma finite_block_bits [simp]: "finite (block_bits d)"
  by (rule finite_subset [of _ "{..<32 * length d}"]) (auto simp: block_bits_def)

lemma mem_block_bits: "i < 32 * length d \<Longrightarrow> i \<in> block_bits d \<longleftrightarrow> bit (d ! (i div 32)) (i mod 32)"
  by (simp add: block_bits_def)

lemma block_bits_bound: "block_bits d \<subseteq> {..<32 * length d}"
  by (auto simp: block_bits_def)

lemma block_bits_update:
  assumes "k < length d"
  shows "block_bits (d[k := w]) = {i. if i div 32 = k then bit w (i mod 32) else i \<in> block_bits d}"
  using assms by (auto simp: block_bits_def nth_list_update)

lemma block_bits_or:
  assumes "k < length d"
  shows "block_bits (d[k := d ! k OR m]) = block_bits d \<union> mask_range k m"
  unfolding block_bits_update [OF assms]
  using assms by (auto simp: mask_range_def bit_or_iff block_bits_def)

lemma block_bits_clear:
  assumes "k < length d"
  shows "block_bits (d[k := d ! k AND NOT m]) = block_bits d - mask_range k m"
  unfolding block_bits_update [OF assms]
  using assms by (auto simp: mask_range_def bit_and_iff bit_not_iff block_bits_def)

lemma block_bits_zero:
  assumes "k < length d"
  shows "block_bits (d[k := 0]) = block_bits d - {32 * k..<32 * k + 32}"
  unfolding block_bits_update [OF assms] using assms by (auto simp: block_bits_def)

lemma countOnes_card:
  assumes "k < length d"
  shows "countOnes (d ! k AND m) = card (block_bits d \<inter> mask_range k m)"
proof -
  have "countOnes (d ! k AND m) = card {j. j < 32 \<and> bit (d ! k AND m) j}"
    by (auto simp: countOnes_def distinct_length_filter intro!: arg_cong [where f = card])
  also have "\<dots> = card ((\<lambda>j. 32 * k + j) ` {j. j < 32 \<and> bit (d ! k AND m) j})"
    by (rule card_image [symmetric]) (auto simp: inj_on_def)
  also have "(\<lambda>j. 32 * k + j) ` {j. j < 32 \<and> bit (d ! k AND m) j} = block_bits d \<inter> mask_range k m"
    (is "?f ` ?J = ?R")
  proof (intro equalityI subsetI)
    fix i assume "i \<in> ?f ` ?J"
    with assms show "i \<in> ?R" by (auto simp: block_bits_def mask_range_def bit_and_iff)
  next
    fix i assume "i \<in> ?R"
    then have "i mod 32 \<in> ?J" "i = 32 * k + i mod 32"
      by (auto simp: block_bits_def mask_range_def bit_and_iff)
    then show "i \<in> ?f ` ?J" by blast
  qed
  finally show ?thesis .
qed


lemma mod32_less: "(i :: nat) mod 32 < 32"
  by simp

lemma div32_iff: "i div 32 = k \<longleftrightarrow> 32 * k \<le> i \<and> i < 32 * k + (32 :: nat)"
proof -
  have "i = 32 * (i div 32) + i mod 32" by simp
  moreover have "i mod 32 < 32" by simp
  moreover have "32 * k \<le> i \<and> i < 32 * k + 32 \<Longrightarrow> i div 32 = k"
    by (rule div_nat_eqI) simp_all
  ultimately show ?thesis by auto
qed

lemma mod32_eq: "i div 32 = k \<Longrightarrow> i mod 32 = i - 32 * (k :: nat)"
  by (metis minus_div_mult_eq_mod mult.commute)

lemma mask_range_bit:
  assumes "j < 32"
  shows "mask_range k (push_bit j 1) = {32 * k + j}"
proof -
  have "bit (push_bit j 1 :: 32 word) (i mod 32) \<longleftrightarrow> i mod 32 = j" for i
    using assms by (auto simp: push_bit_eq_mult bit_exp_iff)
  moreover have "i div 32 = k \<and> i mod 32 = j \<longleftrightarrow> i = 32 * k + j" for i
    using assms by auto
  ultimately show ?thesis by (auto simp: mask_range_def)
qed

lemma mask_range_start:
  assumes "s < 32"
  shows "mask_range k (push_bit s (- 1)) = {32 * k + s..<32 * k + 32}"
proof -
  have "bit (push_bit s (- 1) :: 32 word) (i mod 32) \<longleftrightarrow> s \<le> i mod 32" for i
    using mod32_less [of i] by (simp add: bit_push_bit_iff bit_not_iff bit_mask_iff not_less)
  moreover have "i div 32 = k \<and> s \<le> i mod 32 \<longleftrightarrow> 32 * k + s \<le> i \<and> i < 32 * k + 32" for i
    using assms mod32_eq [of i k] by (cases "i div 32 = k") (auto simp: div32_iff)
  ultimately show ?thesis by (auto simp: mask_range_def)
qed

lemma mask_range_end:
  assumes "e < 32"
  shows "mask_range k (drop_bit (31 - e) (- 1)) = {32 * k..32 * k + e}"
proof -
  have "bit (drop_bit (31 - e) (- 1) :: 32 word) (i mod 32) \<longleftrightarrow> i mod 32 \<le> e" for i
    using assms by (auto simp: bit_drop_bit_eq bit_mask_iff)
  moreover have "i div 32 = k \<and> i mod 32 \<le> e \<longleftrightarrow> 32 * k \<le> i \<and> i \<le> 32 * k + e" for i
    using assms mod32_eq [of i k] by (cases "i div 32 = k") (auto simp: div32_iff)
  ultimately show ?thesis by (auto simp: mask_range_def)
qed

lemma mask_range_and: "mask_range k (a AND b) = mask_range k a \<inter> mask_range k b"
  by (auto simp: mask_range_def bit_and_iff)

lemma mask_range_all: "mask_range k (- 1) = {32 * k..<32 * k + 32}"
  by (auto simp: mask_range_def)

lemma countOnes_block: "k < length d \<Longrightarrow> countOnes (d ! k) = card (block_bits d \<inter> {32 * k..<32 * k + 32})"
  using countOnes_card [of k d "- 1"] by (simp add: mask_range_all)

section \<open>Invariant and single-bit operations\<close>

text \<open>
  Every element has its bit, the spare bits of the last block are zero, and the capacity is
  one a vector can have.
\<close>

definition bitmap_inv :: "bitmap \<Rightarrow> bool" where
  "bitmap_inv b \<longleftrightarrow> length (blocks b) = array_size b
     \<and> array_size b = (element_capacity b + 31) div 32
     \<and> block_bits (blocks b) \<subseteq> {..<element_capacity b} \<and> element_capacity b < 2 ^ 63"

definition bits :: "bitmap \<Rightarrow> nat set" where
  "bits b = block_bits (blocks b)"

lemma finite_bits [simp]: "finite (bits b)"
  by (simp add: bits_def)

lemma blocks_needed_eq: "c < 2 ^ 63 \<Longrightarrow> blocks_needed c = (c + 31) div 32"
  by (simp add: blocks_needed_def wrap_simps)

lemma block_bits_replicate [simp]: "block_bits (replicate n 0) = {}"
  by (auto simp: block_bits_def)

lemma bitmap_invD:
  assumes "bitmap_inv b"
  shows "length (blocks b) = array_size b" "array_size b = (element_capacity b + 31) div 32"
    "bits b \<subseteq> {..<element_capacity b}" "element_capacity b < 2 ^ 63"
  using assms by (simp_all add: bitmap_inv_def bits_def)

lemma bitmap_index: "bitmap_inv b \<Longrightarrow> i < element_capacity b \<Longrightarrow> i div 32 < length (blocks b)"
  by (simp add: bitmap_inv_def)

lemma bitmap_new:
  assumes "c < 2 ^ 63"
  shows "bitmap_inv (Bitmap c)" "bits (Bitmap c) = {}" "element_capacity (Bitmap c) = c"
    "bitmap_resize bitmap_default c = Bitmap c"
  using assms
  by (simp_all add: bitmap_inv_def bits_def Bitmap_def blocks_needed_eq bitmap_resize_def
      bitmap_default_def vec_resize_def)

lemma bitmap_set_spec:
  assumes inv: "bitmap_inv b" and i: "i < element_capacity b"
  obtains b' where "bitmap_set b i = Inr b'" "bitmap_inv b'" "bits b' = insert i (bits b)"
    "element_capacity b' = element_capacity b"
proof -
  let ?k = "i div 32" and ?m = "push_bit (i mod 32) 1 :: 32 word"
  let ?b = "b\<lparr>blocks := (blocks b)[?k := blocks b ! ?k OR ?m]\<rparr>"
  have k: "?k < length (blocks b)" using inv i by (rule bitmap_index)
  have bits: "bits ?b = insert i (bits b)"
    using block_bits_or [OF k, of ?m] unfolding bits_def mask_range_bit [OF mod32_less] by simp
  show thesis
  proof (rule that [of ?b])
    show "bitmap_inv ?b" using inv bits i by (simp add: bitmap_inv_def bits_def)
  qed (use k i bits in \<open>simp_all add: bitmap_set_def\<close>)
qed

lemma bitmap_unset_spec:
  assumes inv: "bitmap_inv b" and i: "i < element_capacity b"
  obtains b' where "bitmap_unset b i = Inr b'" "bitmap_inv b'" "bits b' = bits b - {i}"
    "element_capacity b' = element_capacity b"
proof -
  let ?k = "i div 32" and ?m = "push_bit (i mod 32) 1 :: 32 word"
  let ?b = "b\<lparr>blocks := (blocks b)[?k := blocks b ! ?k AND NOT ?m]\<rparr>"
  have k: "?k < length (blocks b)" using inv i by (rule bitmap_index)
  have bits: "bits ?b = bits b - {i}"
    using block_bits_clear [OF k, of ?m] unfolding bits_def mask_range_bit [OF mod32_less] by simp
  show thesis
  proof (rule that [of ?b])
    show "bitmap_inv ?b" using inv bits i by (auto simp: bitmap_inv_def bits_def)
  qed (use k i bits in \<open>simp_all add: bitmap_unset_def\<close>)
qed

lemma bitmap_get_spec:
  assumes inv: "bitmap_inv b" and i: "i < element_capacity b"
  shows "bitmap_get b i = Inr (i \<in> bits b)"
proof -
  have k: "i div 32 < length (blocks b)" using inv i by (rule bitmap_index)
  then have "i \<in> bits b \<longleftrightarrow> bit (blocks b ! (i div 32)) (i mod 32)"
    by (auto simp: bits_def block_bits_def)
  also have "\<dots> \<longleftrightarrow> drop_bit (i mod 32) (blocks b ! (i div 32)) AND 1 \<noteq> 0"
    by (simp add: bit_iff_odd_drop_bit and_one_eq odd_iff_mod_2_eq_one)
  finally show ?thesis using k i by (simp add: bitmap_get_def)
qed

lemma bitmap_out_of_range:
  assumes "element_capacity b \<le> i"
  shows "bitmap_set b i = Inl Assertion" "bitmap_unset b i = Inl Assertion" "bitmap_get b i = Inl Assertion"
  using assms by (simp_all add: bitmap_set_def bitmap_unset_def bitmap_get_def)


section \<open>The batch operation\<close>

text \<open>
  \<open>clears\<close> relates a count and blocks to a later count and blocks between which the bits
  of a set of positions were counted and cleared. Such steps compose.
\<close>

definition clears :: "nat set \<Rightarrow> nat \<times> 32 word list \<Rightarrow> nat \<times> 32 word list \<Rightarrow> bool" where
  "clears R x y \<longleftrightarrow> length (snd y) = length (snd x)
     \<and> block_bits (snd y) = block_bits (snd x) - R
     \<and> fst y = fst x + card (block_bits (snd x) \<inter> R)"

lemma clears_trans:
  assumes xy: "clears R x y" and yz: "clears S y z"
  shows "clears (R \<union> S) x z"
proof -
  let ?A = "block_bits (snd x)"
  have "?A \<inter> (R \<union> S) = ?A \<inter> R \<union> (?A - R) \<inter> S" by blast
  moreover have "card (?A \<inter> R \<union> (?A - R) \<inter> S) = card (?A \<inter> R) + card ((?A - R) \<inter> S)"
    by (rule card_Un_disjoint) auto
  ultimately show ?thesis using xy yz by (auto simp: clears_def)
qed

lemma clears_none: "clears {} x x"
  by (simp add: clears_def)

lemma clears_mask:
  assumes "k < length d"
  shows "clears (mask_range k m) (p, d) (p + countOnes (d ! k AND m), d[k := d ! k AND NOT m])"
  using assms by (simp add: clears_def block_bits_clear countOnes_card)

lemma clears_count: "clears R (p, d) (p', d') \<Longrightarrow> p' + card (block_bits d') = p + card (block_bits d)"
  by (simp add: clears_def) (metis add.commute card_Int_Diff finite_block_bits)

text \<open>The positions of the blocks that the loop visits from block \<open>i\<close> up to, not including, block \<open>e\<close>.\<close>

definition loop_range :: "nat \<Rightarrow> nat \<Rightarrow> nat \<Rightarrow> nat set" where
  "loop_range n i e = (if i \<le> e then {32 * i..<32 * e} else {32 * i..<32 * n} \<union> {..<32 * e})"

definition loop_length :: "nat \<Rightarrow> nat \<Rightarrow> nat \<Rightarrow> nat" where
  "loop_length n i e = (if i \<le> e then e - i else n - i + e)"

lemma clear_blocks_spec:
  assumes "i < n" "e < n" "length d = n" "loop_length n i e < fuel" "n \<le> 2 ^ 58"
    and "p + card (block_bits d) < 2 ^ 64"
  obtains p' d' where "clear_blocks fuel d n i e p = Inr (p', d')" "clears (loop_range n i e) (p, d) (p', d')"
  using assms
proof (induction fuel arbitrary: d i p thesis)
  case 0
  then show ?case by simp
next
  case (Suc fuel)
  show ?case
  proof (cases "i = e")
    case True
    then show ?thesis using Suc.prems(1) [of p d] by (simp add: loop_range_def clears_none)
  next
    case False
    let ?j = "add64 i 1 mod n" and ?d = "d[i := 0]" and ?p = "add64 p (countOnes (d ! i))"
    let ?B = "{32 * i..<32 * i + 32}"
    have j: "?j = (if Suc i = n then 0 else Suc i)"
      using Suc.prems by (simp add: wadd_nowrap)
    have i: "i < length d" using Suc.prems by simp
    have count: "countOnes (d ! i) = card (block_bits d \<inter> ?B)" by (rule countOnes_block [OF i])
    have "card (block_bits d \<inter> ?B) \<le> card (block_bits d)" by (rule card_mono) auto
    then have p: "?p = p + card (block_bits d \<inter> ?B)"
      using Suc.prems(7) count by (simp add: wadd_nowrap)
    have step: "clears ?B (p, d) (?p, ?d)"
      using p block_bits_zero [OF i] by (simp add: clears_def)
    have len: "loop_length n ?j e < fuel" "?j < n"
      using Suc.prems False j by (auto simp: loop_length_def split: if_splits)
    have range: "loop_range n i e = ?B \<union> loop_range n ?j e"
      using Suc.prems False j by (auto simp: loop_range_def split: if_splits)
    have bound: "?p + card (block_bits ?d) < 2 ^ 64"
      using clears_count [OF step] Suc.prems(7) by simp
    obtain p' d' where r: "clear_blocks fuel ?d n ?j e ?p = Inr (p', d')"
      "clears (loop_range n ?j e) (?p, ?d) (p', d')"
      using Suc.IH [OF _ len(2) Suc.prems(3) _ len(1) Suc.prems(6) bound] Suc.prems(4) by auto
    show ?thesis
    proof (rule Suc.prems(1))
      show "clear_blocks (Suc fuel) d n i e p = Inr (p', d')" using False i r(1) by simp
      show "clears (loop_range n i e) (p, d) (p', d')" unfolding range using step r(2) by (rule clears_trans)
    qed
  qed
qed


text \<open>The circular range of elements from \<open>s\<close> up to and including \<open>e\<close>.\<close>

definition ring :: "nat \<Rightarrow> nat \<Rightarrow> nat \<Rightarrow> nat set" where
  "ring n s e = (if s \<le> e then {s..e} else {s..<n} \<union> {..e})"

text \<open>The arguments for which the first and last block coincide although the range wraps.\<close>

definition wraps_in_block :: "nat \<Rightarrow> nat \<Rightarrow> bool" where
  "wraps_in_block s e \<longleftrightarrow> s div 32 = e div 32 \<and> e < s"

lemma split_index: "32 * (i div 32) + i mod 32 = (i :: nat)"
  by simp

lemma start_range: "mask_range (s div 32) (push_bit (s mod 32) (- 1)) = {s..<32 * (s div 32) + 32}"
  using mask_range_start [OF mod32_less, of "s div 32" s] by (simp only: split_index)

lemma end_range: "mask_range (e div 32) (drop_bit (31 - e mod 32) (- 1)) = {32 * (e div 32)..e}"
  using mask_range_end [OF mod32_less, of "e div 32" e] by (simp only: split_index)

lemma batch_range:
  assumes i: "32 * i \<le> s" "s < 32 * i + 32" and j: "32 * j \<le> e" "e < 32 * j + (32 :: nat)"
    and n: "i < n" "j < n" "cap \<le> 32 * n" and ne: "i \<noteq> j"
  defines "i' \<equiv> (if Suc i = n then 0 else Suc i)"
  shows "loop_length n i' j < n"
    "{..<cap} \<inter> ({s..<32 * i + 32} \<union> loop_range n i' j \<union> {32 * j..e}) = {..<cap} \<inter> ring cap s e"
proof -
  consider (up) "i < j" | (last) "j < i" "Suc i = n" | (down) "j < i" "Suc i < n"
    using ne n by linarith
  note cases = this
  show "loop_length n i' j < n"
    using cases by cases (use n in \<open>auto simp: i'_def loop_length_def\<close>)
  show "{..<cap} \<inter> ({s..<32 * i + 32} \<union> loop_range n i' j \<union> {32 * j..e}) = {..<cap} \<inter> ring cap s e"
    using cases
  proof cases
    case up
    then show ?thesis using i j n by (auto simp: i'_def loop_range_def ring_def)
  next
    case last
    then show ?thesis using i j n by (auto simp: i'_def loop_range_def ring_def)
  next
    case down
    then show ?thesis using i j n by (auto simp: i'_def loop_range_def ring_def)
  qed
qed

lemma batch_same_block:
  assumes inv: "bitmap_inv b" and s: "s < element_capacity b" and eq: "s div 32 = e div 32"
  obtains b' where "getPopCountAndUnsetBatch b s e = Inr (card (bits b \<inter> {s..e}), b')" "bitmap_inv b'"
    "bits b' = bits b - {s..e}" "element_capacity b' = element_capacity b"
proof -
  let ?k = "s div 32" and ?d = "blocks b"
  let ?m = "push_bit (s mod 32) (- 1) AND drop_bit (31 - e mod 32) (- 1) :: 32 word"
  let ?b = "b\<lparr>blocks := ?d[?k := ?d ! ?k AND NOT ?m]\<rparr>"
  have k: "?k < length ?d" using inv s by (rule bitmap_index)
  have "{s..<32 * ?k + 32} \<inter> {32 * ?k..e} = {s..e}"
    using split_index [of s] mod32_less [of s] div32_iff [of e ?k] eq by auto
  then have m: "mask_range ?k ?m = {s..e}"
    using end_range [of e, folded eq] by (simp only: mask_range_and start_range)
  have bits: "bits ?b = bits b - {s..e}"
    using block_bits_clear [OF k, of ?m] m by (simp add: bits_def)
  show thesis
  proof (rule that [of ?b])
    show "getPopCountAndUnsetBatch b s e = Inr (card (bits b \<inter> {s..e}), ?b)"
      using k countOnes_card [OF k, of ?m] m eq
      by (simp only: getPopCountAndUnsetBatch_def Let_def vec_at_ok vec_put_ok andthen_Inr
          simp_thms(6) if_True bits_def)
    show "bitmap_inv ?b" using inv bits by (auto simp: bitmap_inv_def bits_def)
  qed (use bits in simp_all)
qed

lemma batch_across_blocks:
  assumes inv: "bitmap_inv b" and s: "s < element_capacity b" and e: "e < element_capacity b"
    and ne: "s div 32 \<noteq> e div 32"
  obtains b' where "getPopCountAndUnsetBatch b s e = Inr (card (bits b \<inter> ring (element_capacity b) s e), b')"
    "bitmap_inv b'" "bits b' = bits b - ring (element_capacity b) s e"
    "element_capacity b' = element_capacity b"
proof -
  let ?i = "s div 32" and ?j = "e div 32" and ?d = "blocks b" and ?n = "array_size b"
  let ?sm = "push_bit (s mod 32) (- 1) :: 32 word" and ?em = "drop_bit (31 - e mod 32) (- 1) :: 32 word"
  let ?c1 = "countOnes (?d ! ?i AND ?sm)" and ?d1 = "?d[?i := ?d ! ?i AND NOT ?sm]"
  let ?i1 = "add64 ?i 1 mod ?n"
  have ij: "?i < length ?d" "?j < length ?d" using inv s e by (simp_all add: bitmap_index)
  have n: "length ?d = ?n" "?n \<le> 2 ^ 58" "?n \<noteq> 0"
    using bitmap_invD [OF inv] ij by auto
  have c1: "clears {s..<32 * ?i + 32} (0, ?d) (?c1, ?d1)"
    using clears_mask [OF ij(1), of ?sm 0] by (simp only: start_range add_0)
  have i1: "?i1 = (if Suc ?i = ?n then 0 else Suc ?i)"
    using ij n by (simp add: wadd_nowrap)
  have i1_less: "?i1 < ?n" using n by simp
  have cap: "bits b \<subseteq> {..<element_capacity b}" "element_capacity b \<le> 32 * ?n"
    using bitmap_invD [OF inv] div32_iff [of "element_capacity b + 31" ?n] by auto
  have in_block: "32 * ?i \<le> s" "s < 32 * ?i + 32" "32 * ?j \<le> e" "e < 32 * ?j + 32"
    using div32_iff [of s ?i] div32_iff [of e ?j] by simp_all
  note range = batch_range [OF in_block ij [unfolded n(1)] cap(2) ne, folded i1]
  have len: "loop_length ?n ?i1 ?j < ?n" by (rule range(1))
  have "block_bits ?d \<subseteq> {..<element_capacity b}" "element_capacity b < 2 ^ 63"
    using bitmap_invD [OF inv] by (simp_all add: bits_def)
  then have "card (block_bits ?d) \<le> element_capacity b"
    using card_mono [of "{..<element_capacity b}" "block_bits ?d"] by simp
  then have bound: "0 + card (block_bits ?d) < 2 ^ 64" "?c1 + card (block_bits ?d1) < 2 ^ 64"
    using clears_count [OF c1] \<open>element_capacity b < 2 ^ 63\<close> by simp_all
  obtain c2 d2 where r2: "clear_blocks ?n ?d1 ?n ?i1 ?j ?c1 = Inr (c2, d2)"
    and c2: "clears (loop_range ?n ?i1 ?j) (?c1, ?d1) (c2, d2)"
    using clear_blocks_spec [OF i1_less _ _ len n(2) bound(2)] ij n by auto
  let ?c3 = "c2 + countOnes (d2 ! ?j AND ?em)" and ?d3 = "d2[?j := d2 ! ?j AND NOT ?em]"
  have j2: "?j < length d2" using c2 ij by (simp add: clears_def)
  have c3: "clears {32 * ?j..e} (c2, d2) (?c3, ?d3)"
    using clears_mask [OF j2, of ?em c2] by (simp only: end_range)
  let ?R = "{s..<32 * ?i + 32} \<union> loop_range ?n ?i1 ?j \<union> {32 * ?j..e}"
  have all: "clears ?R (0, ?d) (?c3, ?d3)" using c1 c2 c3 by (blast intro: clears_trans)
  have "?c3 < 2 ^ 64" using clears_count [OF all] bound(1) by simp
  then have add: "add64 c2 (countOnes (d2 ! ?j AND ?em)) = ?c3" by (simp add: wadd_nowrap)
  have R: "bits b \<inter> ?R = bits b \<inter> ring (element_capacity b) s e"
    using range(2) cap(1) by blast
  let ?b = "b\<lparr>blocks := ?d3\<rparr>"
  have bits: "bits ?b = bits b - ring (element_capacity b) s e"
    using all R by (auto simp: clears_def bits_def)
  show thesis
  proof (rule that [of ?b])
    show "getPopCountAndUnsetBatch b s e = Inr (card (bits b \<inter> ring (element_capacity b) s e), ?b)"
    proof -
      have "?c3 = card (bits b \<inter> ring (element_capacity b) s e)"
        using all R by (simp add: clears_def bits_def)
      then show ?thesis
        using ij ne n r2 j2 add
        by (simp add: getPopCountAndUnsetBatch_def Let_def)
    qed
    show "bitmap_inv ?b" using inv bits all by (auto simp: bitmap_inv_def bits_def clears_def)
  qed (use bits in simp_all)
qed


lemma batch_spec:
  assumes inv: "bitmap_inv b" and s: "s < element_capacity b" and e: "e < element_capacity b"
    and ok: "\<not> wraps_in_block s e"
  obtains b' where "getPopCountAndUnsetBatch b s e = Inr (card (bits b \<inter> ring (element_capacity b) s e), b')"
    "bitmap_inv b'" "bits b' = bits b - ring (element_capacity b) s e"
    "element_capacity b' = element_capacity b"
proof (cases "s div 32 = e div 32")
  case True
  then have "ring (element_capacity b) s e = {s..e}" using ok by (simp add: ring_def wraps_in_block_def)
  then show thesis using batch_same_block [OF inv s True] that by metis
next
  case False
  then show thesis using batch_across_blocks [OF inv s e] that by metis
qed

text \<open>In the remaining case the two masks are disjoint and nothing is counted or cleared.\<close>

lemma batch_wraps_in_block:
  assumes "bitmap_inv b" "s < element_capacity b" "wraps_in_block s e"
  obtains b' where "getPopCountAndUnsetBatch b s e = Inr (0, b')" "bitmap_inv b'" "bits b' = bits b"
    "element_capacity b' = element_capacity b"
proof -
  have "s div 32 = e div 32" "{s..e} = {}" using assms(3) by (simp_all add: wraps_in_block_def)
  then show thesis using batch_same_block [OF assms(1,2), of e] that by auto
qed

section \<open>Sets of elements as the common interface of the two bitmaps\<close>

datatype bit_call = Bset nat | Bunset nat | Bget nat

fun bit_trace :: "('b \<Rightarrow> nat \<Rightarrow> 'b outcome) \<Rightarrow> ('b \<Rightarrow> nat \<Rightarrow> 'b outcome) \<Rightarrow>
    ('b \<Rightarrow> nat \<Rightarrow> bool outcome) \<Rightarrow> 'b \<Rightarrow> bit_call list \<Rightarrow> bool list outcome" where
  "bit_trace st us gt b [] = Inr []"
| "bit_trace st us gt b (Bset i # cs) = andthen (st b i) (\<lambda>b'. bit_trace st us gt b' cs)"
| "bit_trace st us gt b (Bunset i # cs) = andthen (us b i) (\<lambda>b'. bit_trace st us gt b' cs)"
| "bit_trace st us gt b (Bget i # cs) =
     andthen (gt b i) (\<lambda>x. andthen (bit_trace st us gt b cs) (\<lambda>xs. Inr (x # xs)))"

text \<open>The same calls on a set: an index out of range fails the assertion.\<close>

fun set_trace :: "nat \<Rightarrow> nat set \<Rightarrow> bit_call list \<Rightarrow> bool list outcome" where
  "set_trace n A [] = Inr []"
| "set_trace n A (Bset i # cs) = (if i < n then set_trace n (insert i A) cs else Inl Assertion)"
| "set_trace n A (Bunset i # cs) = (if i < n then set_trace n (A - {i}) cs else Inl Assertion)"
| "set_trace n A (Bget i # cs) =
     (if i < n then andthen (set_trace n A cs) (\<lambda>xs. Inr ((i \<in> A) # xs)) else Inl Assertion)"

locale bit_table =
  fixes tset :: "'b \<Rightarrow> nat \<Rightarrow> 'b outcome"
    and tunset :: "'b \<Rightarrow> nat \<Rightarrow> 'b outcome"
    and tget :: "'b \<Rightarrow> nat \<Rightarrow> bool outcome"
    and size_of :: "'b \<Rightarrow> nat"
    and elems :: "'b \<Rightarrow> nat set"
    and invar :: "'b \<Rightarrow> bool"
  assumes set_ok: "invar b \<Longrightarrow> i < size_of b \<Longrightarrow> \<exists>b'. tset b i = Inr b' \<and> invar b'
      \<and> elems b' = insert i (elems b) \<and> size_of b' = size_of b"
    and unset_ok: "invar b \<Longrightarrow> i < size_of b \<Longrightarrow> \<exists>b'. tunset b i = Inr b' \<and> invar b'
      \<and> elems b' = elems b - {i} \<and> size_of b' = size_of b"
    and get_ok: "invar b \<Longrightarrow> i < size_of b \<Longrightarrow> tget b i = Inr (i \<in> elems b)"
    and out_of_range: "size_of b \<le> i \<Longrightarrow> tset b i = Inl Assertion"
      "size_of b \<le> i \<Longrightarrow> tunset b i = Inl Assertion" "size_of b \<le> i \<Longrightarrow> tget b i = Inl Assertion"
begin

lemma trace_is_set_trace:
  "invar b \<Longrightarrow> bit_trace tset tunset tget b cs = set_trace (size_of b) (elems b) cs"
proof (induction cs arbitrary: b)
  case Nil
  then show ?case by simp
next
  case (Cons c cs)
  show ?case
  proof (cases c)
    case (Bset i)
    then show ?thesis
      using Cons.IH set_ok [OF Cons.prems, of i] out_of_range(1) [of b i]
      by (cases "i < size_of b") (auto simp: not_less)
  next
    case (Bunset i)
    then show ?thesis
      using Cons.IH unset_ok [OF Cons.prems, of i] out_of_range(2) [of b i]
      by (cases "i < size_of b") (auto simp: not_less)
  next
    case (Bget i)
    then show ?thesis
      using Cons.IH [OF Cons.prems] get_ok [OF Cons.prems, of i] out_of_range(3) [of b i]
      by (cases "i < size_of b") (auto simp: not_less)
  qed
qed

end

interpretation block_table: bit_table bitmap_set bitmap_unset bitmap_get element_capacity bits bitmap_inv
proof (unfold_locales, goal_cases)
  case (1 b i)
  then show ?case by (rule bitmap_set_spec) auto
next
  case (2 b i)
  then show ?case by (rule bitmap_unset_spec) auto
qed (simp_all add: bitmap_get_spec bitmap_out_of_range)

definition naive_bits :: "bitmap_naive \<Rightarrow> nat set" where
  "naive_bits d = {i. i < length d \<and> d ! i \<noteq> 0}"

interpretation naive_table: bit_table naive_set naive_unset naive_get length naive_bits "\<lambda>_. True"
  by unfold_locales
    (auto simp: naive_set_def naive_unset_def naive_get_def naive_bits_def nth_list_update)

section \<open>Evaluating concrete runs\<close>

lemma countOnes_zero [simp]: "countOnes 0 = 0"
  by (simp add: countOnes_def)

lemma countOnes_step: "countOnes w = of_bool (w AND 1 \<noteq> 0) + countOnes (drop_bit 1 w)"
proof -
  define A where "A = {j. j < 32 \<and> bit w (Suc j)}"
  have top: "bit w (Suc j) \<Longrightarrow> j < 31" for j using bit_imp_le_length [of w "Suc j"] by simp
  have "{j. j < 32 \<and> bit w j} = (if bit w 0 then {0} else {}) \<union> Suc ` A"
  proof (intro equalityI subsetI)
    fix j assume "j \<in> {j. j < 32 \<and> bit w j}"
    then show "j \<in> (if bit w 0 then {0} else {}) \<union> Suc ` A" by (cases j) (auto simp: A_def)
  next
    fix j assume j: "j \<in> (if bit w 0 then {0} else {}) \<union> Suc ` A"
    then show "j \<in> {j. j < 32 \<and> bit w j}"
      by (auto simp: A_def split: if_splits dest: top)
  qed
  moreover have "card (Suc ` A) = card A" by (simp add: card_image)
  moreover have "0 \<notin> Suc ` A" "finite A" by (auto simp: A_def)
  ultimately have "card {j. j < 32 \<and> bit w j} = of_bool (bit w 0) + card A" by simp
  moreover have "length (filter P [0..<32]) = card {j. j < 32 \<and> P j}" for P :: "nat \<Rightarrow> bool"
    using distinct_card [of "filter P [0..<32]"] by (simp add: conj_commute)
  moreover have "bit (drop_bit 1 w) j = bit w (Suc j)" for j by (simp add: bit_drop_bit_eq)
  ultimately show ?thesis by (simp add: countOnes_def A_def and_one_eq mod_2_eq_odd bit_0)
qed

lemma countOnes_one [simp]: "countOnes 1 = 1"
  using countOnes_step [of 1] by simp

lemmas [run_simps] = countOnes_step [of "numeral k" for k] countOnes_step [of "- numeral k" for k]

lemma clear_blocks_numeral [run_simps]:
  "clear_blocks (numeral k) d n i e pop_count =
     (if i = e then Inr (pop_count, d)
      else
        andthen (vec_at d i) (\<lambda>w.
        andthen (vec_put d i 0) (\<lambda>d'.
        clear_blocks (pred_numeral k) d' n (add64 i 1 mod n) e (add64 pop_count (countOnes w)))))"
  by (simp add: numeral_eq_Suc)

lemmas [run_simps] = bitmap_default_def bitmap_resize_def blocks_needed_def Bitmap_def bitmap_get_def
  bitmap_set_def bitmap_unset_def getPopCountAndUnsetBatch_def BitmapNaive_def naive_set_def
  naive_unset_def naive_get_def

end
