(* ===== verification/Reassembler.thy ===== *)
theory Reassembler
  imports Byte_Stream Bitmap
begin

text \<open>
  \<open>src/src/reassembler.hh\<close> and \<open>.cc\<close>: the reassembler, its refinement of an abstract
  reassembler that keeps the early bytes in a map, and what follows for the byte stream it
  writes to. \<open>TaskExecutionScopeGuard\<close> (\<open>src/util/task_guard.hpp\<close>) runs the closing
  step \<open>close_if_done\<close> on every way out of \<open>insert\<close>; it is the function \<open>scope_guard\<close>.
\<close>

section \<open>State and operations\<close>

record reassembler =
  first_unassembled :: nat
  pending_count :: nat
  reach_end :: bool
  buffer_size :: nat
  sliding_window :: "byte list"
  window_bitmap :: bitmap

definition Reassembler :: reassembler where
  "Reassembler = \<lparr>first_unassembled = 0, pending_count = 0, reach_end = False, buffer_size = 0,
     sliding_window = [], window_bitmap = bitmap_default\<rparr>"

definition getFirstUnassembledIndex :: "reassembler \<Rightarrow> nat" where
  "getFirstUnassembledIndex r = first_unassembled r"

definition bytes_pending :: "reassembler \<Rightarrow> nat" where
  "bytes_pending r = pending_count r"

text \<open>
  The loop that appends the bytes that follow the pushed ones, \<open>while(bitmap_.get(window_index))\<close>.
  Every round clears one bit at the next index modulo the window size, so at most
  \<open>buffer_size_\<close> rounds are possible; one more unit of fuel lets the last test fail.
\<close>

fun drain_window :: "nat \<Rightarrow> nat \<Rightarrow> byte list \<Rightarrow> bitmap \<Rightarrow> nat \<Rightarrow> byte list \<Rightarrow> nat \<Rightarrow> nat \<Rightarrow>
    (bitmap \<times> nat \<times> byte list \<times> nat) outcome" where
  "drain_window 0 bs win bm pending data i fua = Inl Diverges"
| "drain_window (Suc fuel) bs win bm pending data i fua =
     andthen (bitmap_get bm (i mod bs)) (\<lambda>present.
     if \<not> present then Inr (bm, pending, data, fua)
     else
       andthen (bitmap_unset bm (i mod bs)) (\<lambda>bm'.
       andthen (vec_at win (i mod bs)) (\<lambda>c.
       drain_window fuel bs win bm' (sub64 pending 1) (data @ [c]) (add64 i 1) (add64 fua 1))))"

text \<open>The loop that stores the bytes of an early substring; \<open>n\<close> is what is left of it.\<close>

fun store_early :: "nat \<Rightarrow> nat \<Rightarrow> nat \<Rightarrow> nat \<Rightarrow> byte list \<Rightarrow> byte list \<Rightarrow> bitmap \<Rightarrow> nat \<Rightarrow>
    (byte list \<times> bitmap \<times> nat) outcome" where
  "store_early 0 i first_index bs data win bm pending = Inr (win, bm, pending)"
| "store_early (Suc n) i first_index bs data win bm pending =
     (let w = add64 i first_index mod bs
      in andthen (bitmap_get bm w) (\<lambda>present.
         if present then store_early n (Suc i) first_index bs data win bm pending
         else
           andthen (bitmap_set bm w) (\<lambda>bm'.
           andthen (vec_at data i) (\<lambda>c.
           andthen (vec_put win w c) (\<lambda>win'.
           store_early n (Suc i) first_index bs data win' bm' (add64 pending 1))))))"

text \<open>The first statements of \<open>insert\<close>: note the end, and size the window at the first call.\<close>

definition prepare :: "reassembler \<Rightarrow> bool \<Rightarrow> byte_stream \<Rightarrow> reassembler" where
  "prepare r is_last_substring output =
     (let r1 = (if is_last_substring then r\<lparr>reach_end := True\<rparr> else r)
      in if sliding_window r1 = [] then
           let n = available_capacity output
           in r1\<lparr>buffer_size := n, sliding_window := vec_resize 0 (sliding_window r1) n,
                 window_bitmap := bitmap_resize (window_bitmap r1) n\<rparr>
         else r1)"

definition close_if_done :: "reassembler \<times> byte_stream \<Rightarrow> reassembler \<times> byte_stream" where
  "close_if_done x =
     (case x of (r, output) \<Rightarrow>
        (r, if reach_end r \<and> pending_count r = 0 then writer_close output else output))"

text \<open>The destructor of the guard runs the task with what the body leaves; an exception keeps no state.\<close>

definition scope_guard :: "('a \<Rightarrow> 'a) \<Rightarrow> 'a outcome \<Rightarrow> 'a outcome" where
  "scope_guard task body = (case body of Inl e \<Rightarrow> Inl e | Inr x \<Rightarrow> Inr (task x))"

definition reassembler_insert ::
  "reassembler \<Rightarrow> nat \<Rightarrow> byte list \<Rightarrow> bool \<Rightarrow> byte_stream \<Rightarrow> (reassembler \<times> byte_stream) outcome" where
  "reassembler_insert r0 first_index data is_last_substring output =
     (let r = prepare r0 is_last_substring output;
          bs = buffer_size r;
          fua = first_unassembled r;
          tail = min (add64 first_index (length data)) (add64 fua (available_capacity output))
      in scope_guard close_if_done
        (if first_index \<ge> tail \<or> fua \<ge> tail then Inr (r, output)
         else if first_index \<le> fua then
           andthen (check (bs \<noteq> 0) Undefined) (\<lambda>_.
           andthen (getPopCountAndUnsetBatch (window_bitmap r) (fua mod bs)
                      (sub64 (add64 tail bs) 1 mod bs)) (\<lambda>(popped, bm).
           andthen (drain_window (Suc bs) bs (sliding_window r) bm (sub64 (pending_count r) popped)
                      data tail tail) (\<lambda>(bm', pending, data', fua').
           andthen (check (sub64 fua first_index \<le> length data') (Runtime_Error ''out_of_range'')) (\<lambda>_.
           andthen (writer_push output (drop (sub64 fua first_index) data')) (\<lambda>output'.
           Inr (r\<lparr>first_unassembled := fua', pending_count := pending, window_bitmap := bm'\<rparr>, output'))))))
         else
           andthen (check (bs \<noteq> 0) Undefined) (\<lambda>_.
           andthen (store_early (sub64 tail first_index) 0 first_index bs data (sliding_window r)
                      (window_bitmap r) (pending_count r)) (\<lambda>(win, bm, pending).
           Inr (r\<lparr>sliding_window := win, window_bitmap := bm, pending_count := pending\<rparr>, output)))))"

lemma scope_guard_simps [simp]:
  "scope_guard t (Inr x) = Inr (t x)" "scope_guard t (Inl e) = Inl e"
  "scope_guard t (andthen u f) = andthen u (\<lambda>y. scope_guard t (f y))"
  "scope_guard t (if c then v else w) = (if c then scope_guard t v else scope_guard t w)"
  by (simp_all add: scope_guard_def andthen_def split: sum.split)

text \<open>The task at each of the ways out.\<close>

lemma reassembler_insert_exits:
  "reassembler_insert r0 first_index data is_last_substring output =
     (let r = prepare r0 is_last_substring output;
          bs = buffer_size r;
          fua = first_unassembled r;
          tail = min (add64 first_index (length data)) (add64 fua (available_capacity output))
      in if first_index \<ge> tail \<or> fua \<ge> tail then Inr (close_if_done (r, output))
         else if first_index \<le> fua then
           andthen (check (bs \<noteq> 0) Undefined) (\<lambda>_.
           andthen (getPopCountAndUnsetBatch (window_bitmap r) (fua mod bs)
                      (sub64 (add64 tail bs) 1 mod bs)) (\<lambda>(popped, bm).
           andthen (drain_window (Suc bs) bs (sliding_window r) bm (sub64 (pending_count r) popped)
                      data tail tail) (\<lambda>(bm', pending, data', fua').
           andthen (check (sub64 fua first_index \<le> length data') (Runtime_Error ''out_of_range'')) (\<lambda>_.
           andthen (writer_push output (drop (sub64 fua first_index) data')) (\<lambda>output'.
           Inr (close_if_done
             (r\<lparr>first_unassembled := fua', pending_count := pending, window_bitmap := bm'\<rparr>, output')))))))
         else
           andthen (check (bs \<noteq> 0) Undefined) (\<lambda>_.
           andthen (store_early (sub64 tail first_index) 0 first_index bs data (sliding_window r)
                      (window_bitmap r) (pending_count r)) (\<lambda>(win, bm, pending).
           Inr (close_if_done
             (r\<lparr>sliding_window := win, window_bitmap := bm, pending_count := pending\<rparr>, output)))))"
  by (simp only: reassembler_insert_def Let_def scope_guard_simps case_prod_unfold)

section \<open>The abstract reassembler\<close>

text \<open>
  The bytes held early are a map from stream index to byte; inserting pushes the missing
  bytes and then every held byte that follows without a gap.
\<close>

fun run_from :: "nat \<Rightarrow> (nat \<rightharpoonup> byte) \<Rightarrow> nat \<Rightarrow> byte list" where
  "run_from 0 m i = []"
| "run_from (Suc n) m i = (case m i of None \<Rightarrow> [] | Some b \<Rightarrow> b # run_from n m (Suc i))"

definition spec_insert :: "nat \<Rightarrow> (nat \<rightharpoonup> byte) \<Rightarrow> nat \<Rightarrow> nat \<Rightarrow> byte list \<Rightarrow>
    nat \<times> (nat \<rightharpoonup> byte) \<times> byte list" where
  "spec_insert nxt held lim first_index data =
     (let tail = min (first_index + length data) lim
      in if tail \<le> first_index \<or> tail \<le> nxt then (nxt, held, [])
         else if first_index \<le> nxt then
           let run = run_from (lim - tail) held tail;
               nxt' = tail + length run
           in (nxt', held |` {nxt'..}, take (tail - nxt) (drop (nxt - first_index) data) @ run)
         else
           (nxt, (\<lambda>j. if first_index \<le> j \<and> j < tail \<and> held j = None
                      then Some (data ! (j - first_index)) else held j), []))"


section \<open>The window as a map\<close>

text \<open>
  \<open>holds base n bm win m\<close>: the bitmap and the window, read modulo their size \<open>n\<close> from
  stream index \<open>base\<close> on, hold exactly the bytes of \<open>m\<close>.
\<close>

definition holds :: "nat \<Rightarrow> nat \<Rightarrow> bitmap \<Rightarrow> byte list \<Rightarrow> (nat \<rightharpoonup> byte) \<Rightarrow> bool" where
  "holds base n bm win m \<longleftrightarrow> bitmap_inv bm \<and> element_capacity bm = n \<and> length win = n
     \<and> dom m \<subseteq> {base..<base + n} \<and> bits bm = (\<lambda>j. j mod n) ` dom m
     \<and> (\<forall>j b. m j = Some b \<longrightarrow> win ! (j mod n) = b)"

lemma holdsD:
  assumes "holds base n bm win m"
  shows "bitmap_inv bm" "element_capacity bm = n" "length win = n" "dom m \<subseteq> {base..<base + n}"
    "bits bm = (\<lambda>j. j mod n) ` dom m" "m j = Some b \<Longrightarrow> win ! (j mod n) = b"
  using assms by (auto simp: holds_def)

lemma holds_finite: "holds base n bm win m \<Longrightarrow> finite (dom m)"
  by (rule finite_subset [OF holdsD(4)]) auto

lemma holds_card: "holds base n bm win m \<Longrightarrow> card (bits bm) = card (dom m)"
  using card_image [OF inj_on_subset [OF inj_on_mod_window [of n base]], of "dom m"]
  by (simp add: holds_def)

lemma holds_get:
  assumes "holds base n bm win m" "base \<le> x" "x < base + n"
  shows "bitmap_get bm (x mod n) = Inr (x \<in> dom m)"
  using bitmap_get_spec [OF holdsD(1) [OF assms(1)], of "x mod n"] assms
    mod_window_image_mem [OF holdsD(4) [OF assms(1)] assms(2,3)]
  by (simp add: holds_def)

lemma holds_unset:
  assumes h: "holds base n bm win m" and x: "base \<le> x" "x < base + n"
  obtains bm' where "bitmap_unset bm (x mod n) = Inr bm'" "holds base n bm' win (m(x := None))"
proof -
  have i: "x mod n < element_capacity bm" using h x by (simp add: holds_def)
  obtain bm' where bm': "bitmap_unset bm (x mod n) = Inr bm'" "bitmap_inv bm'"
    "bits bm' = bits bm - {x mod n}" "element_capacity bm' = element_capacity bm"
    using bitmap_unset_spec [OF holdsD(1) [OF h] i] .
  have "(\<lambda>j. j mod n) ` dom m - {x mod n} = (\<lambda>j. j mod n) ` (dom m - {x})"
    using inj_on_image_set_diff [OF inj_on_mod_window [of n base], of "dom m" "{x}"] holdsD(4) [OF h] x
    by auto
  then have "holds base n bm' win (m(x := None))" using bm' h by (auto simp: holds_def)
  with bm'(1) show thesis by (rule that)
qed

lemma holds_set:
  assumes h: "holds base n bm win m" and x: "base \<le> x" "x < base + n" and new: "x \<notin> dom m"
  obtains bm' where "bitmap_set bm (x mod n) = Inr bm'" "holds base n bm' (win[x mod n := c]) (m(x \<mapsto> c))"
proof -
  have i: "x mod n < element_capacity bm" using h x by (simp add: holds_def)
  obtain bm' where bm': "bitmap_set bm (x mod n) = Inr bm'" "bitmap_inv bm'"
    "bits bm' = insert (x mod n) (bits bm)" "element_capacity bm' = element_capacity bm"
    using bitmap_set_spec [OF holdsD(1) [OF h] i] .
  have "x mod n \<noteq> j mod n" if "j \<in> dom m" for j
    using mod_window_image_mem [OF holdsD(4) [OF h] x] new that by auto
  then have "(win[x mod n := c]) ! (j mod n) = b" if "(m(x \<mapsto> c)) j = Some b" for j b
    using that h i by (cases "j = x") (auto simp: holds_def nth_list_update domI)
  then have "holds base n bm' (win[x mod n := c]) (m(x \<mapsto> c))"
    using bm' h x by (auto simp: holds_def)
  with bm'(1) show thesis by (rule that)
qed

lemma holds_shift:
  assumes "holds base n bm win m" "dom m \<subseteq> {base'..<base' + n}"
  shows "holds base' n bm win m"
  using assms by (simp add: holds_def)

text \<open>Clearing a run of the window with the batch operation.\<close>

lemma ring_mod_window:
  assumes "a \<le> b" "b < a + n" 
  shows "ring n (a mod n) (b mod n) = (\<lambda>j. j mod n) ` {a..b}"
proof -
  define q r where "q = a div n" and "r = a mod n"
  have "0 < n" using assms by simp
  then have a: "a = q * n + r" "r < n" by (simp_all add: q_def r_def)
  obtain d where d: "b = a + d" using assms(1) le_Suc_ex by blast
  have dn: "d < n" using d assms by simp
  have am: "a mod n = r" using a by simp
  have im: "(\<lambda>j. j mod n) ` {a..b} = (\<lambda>t. (r + t) mod n) ` {0..d}"
  proof -
    have "{a..b} = (\<lambda>t. a + t) ` {0..d}" using d by simp
    then show ?thesis using a by (simp only: image_image) (simp add: add.assoc)
  qed
  show ?thesis
  proof (cases "r + d < n")
    case True
    have "b mod n = r + d" using True a d by (simp add: add.assoc)
    moreover have "(\<lambda>t. (r + t) mod n) ` {0..d} = (\<lambda>t. r + t) ` {0..d}"
      using True by (intro image_cong) auto
    ultimately show ?thesis by (simp add: im am ring_def)
  next
    case False
    have once: "(r + t) mod n = (if r + t < n then r + t else r + t - n)" if "t \<le> d" for t
      using that a dn mod_once [of n "r + t"] by simp
    have "b mod n = (r + d) mod n" using a d by (simp add: add.assoc)
    with once [of d] False have "b mod n = r + d - n" by simp
    moreover have "(\<lambda>t. (r + t) mod n) ` {0..d} = {r..<n} \<union> {..r + d - n}"
    proof (intro equalityI subsetI)
      fix x assume "x \<in> (\<lambda>t. (r + t) mod n) ` {0..d}"
      then show "x \<in> {r..<n} \<union> {..r + d - n}" using a dn by (auto simp: once)
    next
      fix x assume x: "x \<in> {r..<n} \<union> {..r + d - n}"
      define t where "t = (if r \<le> x then x - r else x + n - r)"
      have "t \<le> d \<and> (r + t) mod n = x"
      proof (cases "r \<le> x")
        case True
        then show ?thesis using x False a dn once [of t] by (auto simp: t_def)
      next
        case no: False
        then show ?thesis using x False a dn once [of t] by (auto simp: t_def)
      qed
      then show "x \<in> (\<lambda>t. (r + t) mod n) ` {0..d}" by force
    qed
    ultimately show ?thesis using False dn a(2) unfolding ring_def am im by simp
  qed
qed


lemma holds_batch:
  assumes h: "holds fua n bm win m" and tail: "fua < tail" "tail \<le> fua + n" "tail + n < 2 ^ 64"
    and ok: "\<not> wraps_in_block (fua mod n) ((tail - 1) mod n)"
  obtains bm' where "getPopCountAndUnsetBatch bm (fua mod n) (sub64 (add64 tail n) 1 mod n)
      = Inr (card (dom m \<inter> {..<tail}), bm')" "holds fua n bm' win (m |` {tail..})"
proof -
  have n: "0 < n" "element_capacity bm = n" using tail h by (simp_all add: holds_def)
  have e: "sub64 (add64 tail n) 1 mod n = (tail - 1) mod n"
  proof -
    have "sub64 (add64 tail n) 1 = (tail - 1) + n" using tail by (simp add: wrap_simps)
    then show ?thesis by simp
  qed
  have ring: "ring n (fua mod n) ((tail - 1) mod n) = (\<lambda>j. j mod n) ` {fua..<tail}"
    using ring_mod_window [of fua "tail - 1" n] tail by (simp add: atLeastLessThanSuc_atLeastAtMost [symmetric])
  obtain bm' where bm': "getPopCountAndUnsetBatch bm (fua mod n) ((tail - 1) mod n)
      = Inr (card (bits bm \<inter> ring n (fua mod n) ((tail - 1) mod n)), bm')" "bitmap_inv bm'"
    "bits bm' = bits bm - ring n (fua mod n) ((tail - 1) mod n)" "element_capacity bm' = n"
    using batch_spec [OF holdsD(1) [OF h] _ _ ok] n by auto
  have inj: "inj_on (\<lambda>j. j mod n) {fua..<fua + n}" by (rule inj_on_mod_window)
  have sub: "{fua..<tail} \<subseteq> {fua..<fua + n}" "dom m \<subseteq> {fua..<fua + n}"
    using tail holdsD(4) [OF h] by auto
  have "bits bm \<inter> ring n (fua mod n) ((tail - 1) mod n) = (\<lambda>j. j mod n) ` (dom m \<inter> {fua..<tail})"
    unfolding ring holdsD(5) [OF h] using inj_on_image_Int [OF inj sub(2,1)] by simp
  moreover have "dom m \<inter> {fua..<tail} = dom m \<inter> {..<tail}" using sub(2) by auto
  moreover have "card ((\<lambda>j. j mod n) ` (dom m \<inter> {..<tail})) = card (dom m \<inter> {..<tail})"
    by (rule card_image) (rule inj_on_subset [OF inj], use sub(2) in auto)
  ultimately have count: "card (bits bm \<inter> ring n (fua mod n) ((tail - 1) mod n)) = card (dom m \<inter> {..<tail})"
    by simp
  have "bits bm' = (\<lambda>j. j mod n) ` (dom m - {fua..<tail})"
    unfolding bm'(3) ring holdsD(5) [OF h] using inj_on_image_set_diff [OF inj _ sub(1), of "dom m"] sub(2)
    by auto
  moreover have "dom m - {fua..<tail} = dom (m |` {tail..})" using sub(2) by auto
  ultimately have "holds fua n bm' win (m |` {tail..})"
    using h bm' by (auto simp: holds_def restrict_map_def split: if_splits)
  then show thesis using that bm'(1) e count by simp
qed


lemma run_from_upd: "j < i \<Longrightarrow> run_from k (m(j := x)) i = run_from k m i"
  by (induction k arbitrary: i) (auto split: option.splits)

lemma length_run_from: "length (run_from k m i) \<le> k"
  by (induction k arbitrary: i) (auto split: option.splits)

lemma drain_window_spec:
  assumes "holds i n bm win m" "dom m \<subseteq> {i..<lim}" "i \<le> lim" "lim \<le> i + n" "0 < n" "lim < 2 ^ 64"
    and "lim - i < fuel"
  obtains bm' where
    "drain_window fuel n win bm (card (dom m)) data i i =
       Inr (bm', card (dom (m |` {i + length (run_from (lim - i) m i)..})),
         data @ run_from (lim - i) m i, i + length (run_from (lim - i) m i))"
    "holds (i + length (run_from (lim - i) m i)) n bm' win (m |` {i + length (run_from (lim - i) m i)..})"
    "i + length (run_from (lim - i) m i) \<notin> dom m"
  using assms
proof (induction fuel arbitrary: i bm m data thesis)
  case 0
  then show ?case by simp
next
  case (Suc fuel)
  note h = Suc.prems(2)
  have get: "bitmap_get bm (i mod n) = Inr (i \<in> dom m)"
    using holds_get [OF h, of i] Suc.prems(6) by simp
  show ?case
  proof (cases "m i")
    case None
    then have run: "run_from (lim - i) m i = []" by (cases "lim - i") auto
    have "m |` {i..} = m" using Suc.prems(3) by (intro restrict_map_all) auto
    then show ?thesis
      using Suc.prems(1) [of bm] None get h by (simp add: run domIff)
  next
    case (Some c)
    then have i: "i \<in> dom m" "i < lim" using Suc.prems(3) by auto
    define m1 where "m1 = m(i := None)"
    obtain bm1 where bm1: "bitmap_unset bm (i mod n) = Inr bm1" "holds i n bm1 win m1"
      using holds_unset [OF h, of i] Suc.prems(6) by (auto simp: m1_def)
    have "{i..<lim} - {i} = {Suc i..<lim}" by auto
    then have dom: "dom m1 \<subseteq> {Suc i..<lim}" using Suc.prems(3) by (auto simp: m1_def)
    have "dom m1 \<subseteq> {Suc i..<Suc i + n}"
      by (rule subset_trans [OF dom]) (use Suc.prems(5) in auto)
    then have h1: "holds (Suc i) n bm1 win m1" by (rule holds_shift [OF bm1(2)])
    have byte: "vec_at win (i mod n) = Inr c"
      using h Some Suc.prems(6) by (simp add: holds_def)
    have card: "card (dom m) = Suc (card (dom m1))"
      using card_Suc_Diff1 [OF holds_finite [OF h] i(1)] by (simp add: m1_def)
    have "card (dom m) \<le> lim - i"
      using card_mono [OF _ Suc.prems(3)] by simp
    then have less: "card (dom m) < 2 ^ 64" using Suc.prems(7) by simp
    have pend: "sub64 (card (dom m)) 1 = card (dom m1)"
      using card less by (simp add: wrap_simps)
    have idx: "add64 i 1 = Suc i" using i(2) Suc.prems(7) by (simp add: wrap_simps)
    have run: "run_from (lim - i) m i = c # run_from (lim - Suc i) m1 (Suc i)"
    proof -
      have "lim - i = Suc (lim - Suc i)" using i(2) by simp
      then show ?thesis using Some by (simp only: run_from.simps option.case run_from_upd lessI m1_def)
    qed
    have restr: "m1 |` {Suc i + k..} = m |` {i + length (c # replicate k c)..}" for k
      by (auto simp: restrict_map_def fun_eq_iff m1_def)
    have step: "drain_window (Suc fuel) n win bm (card (dom m)) data i i =
        drain_window fuel n win bm1 (card (dom m1)) (data @ [c]) (Suc i) (Suc i)"
      using get bm1(1) byte i(1) pend idx by simp
    let ?k = "length (run_from (lim - Suc i) m1 (Suc i))"
    have arith: "Suc i \<le> lim" "lim \<le> Suc i + n" "lim - Suc i < fuel"
      using i(2) Suc.prems(5,8) by simp_all
    obtain bm' where bm': "drain_window fuel n win bm1 (card (dom m1)) (data @ [c]) (Suc i) (Suc i) =
         Inr (bm', card (dom (m1 |` {Suc i + ?k..})), (data @ [c]) @ run_from (lim - Suc i) m1 (Suc i), Suc i + ?k)"
      "holds (Suc i + ?k) n bm' win (m1 |` {Suc i + ?k..})" "Suc i + ?k \<notin> dom m1"
      by (rule Suc.IH [OF _ h1 dom arith(1,2) Suc.prems(6,7) arith(3)])
    show ?thesis
    proof (rule Suc.prems(1))
      show "drain_window (Suc fuel) n win bm (card (dom m)) data i i =
        Inr (bm', card (dom (m |` {i + length (run_from (lim - i) m i)..})),
          data @ run_from (lim - i) m i, i + length (run_from (lim - i) m i))"
        using step bm'(1) restr [of ?k] by (simp add: run del: dom_restrict drain_window.simps)
      show "holds (i + length (run_from (lim - i) m i)) n bm' win (m |` {i + length (run_from (lim - i) m i)..})"
        using bm'(2) restr [of ?k] by (simp add: run)
      show "i + length (run_from (lim - i) m i) \<notin> dom m" using bm'(3) by (simp add: run m1_def)
    qed
  qed
qed


definition fill :: "(nat \<rightharpoonup> byte) \<Rightarrow> nat \<Rightarrow> nat \<Rightarrow> nat \<Rightarrow> byte list \<Rightarrow> (nat \<rightharpoonup> byte)" where
  "fill m a z first_index data =
     (\<lambda>j. if a \<le> j \<and> j < z \<and> m j = None then Some (data ! (j - first_index)) else m j)"

lemma fill_none: "z \<le> a \<Longrightarrow> fill m a z f d = m"
  by (auto simp: fill_def)

lemma fill_present: "m a \<noteq> None \<Longrightarrow> fill m a z f d = fill m (Suc a) z f d"
  by (auto simp: fill_def fun_eq_iff le_less Suc_le_eq)

lemma fill_absent:
  "a < z \<Longrightarrow> m a = None \<Longrightarrow> fill m a z f d = fill (m(a \<mapsto> d ! (a - f))) (Suc a) z f d"
  by (auto simp: fill_def fun_eq_iff le_less Suc_le_eq)

lemma dom_fill: "dom (fill m a z f d) = dom m \<union> {a..<z}"
  by (auto simp: fill_def split: if_splits)

lemma store_early_spec:
  assumes "holds base n bm win m" "base \<le> first_index + i" "first_index + i + k \<le> base + n"
    and "i + k \<le> length data" "0 < n" "base + n < 2 ^ 64"
  obtains win' bm' where
    "store_early k i first_index n data win bm (card (dom m)) =
       Inr (win', bm', card (dom (fill m (first_index + i) (first_index + i + k) first_index data)))"
    "holds base n bm' win' (fill m (first_index + i) (first_index + i + k) first_index data)"
  using assms
proof (induction k arbitrary: i bm win m thesis)
  case 0
  then show ?case by (simp add: fill_none)
next
  case (Suc k)
  note h = Suc.prems(2)
  let ?x = "first_index + i"
  have x: "base \<le> ?x" "?x < base + n" using Suc.prems by simp_all
  have idx: "add64 i first_index = ?x" using x(2) Suc.prems(7) by (simp add: wrap_simps add.commute)
  have get: "bitmap_get bm (?x mod n) = Inr (?x \<in> dom m)" using holds_get [OF h x] .
  show ?case
  proof (cases "?x \<in> dom m")
    case True
    then have fill: "fill m ?x (?x + Suc k) first_index data = fill m (first_index + Suc i) (first_index + Suc i + k) first_index data"
      by (subst fill_present) auto
    have step: "store_early (Suc k) i first_index n data win bm p = store_early k (Suc i) first_index n data win bm p" for p
      using get idx True by simp
    show ?thesis
    proof (rule Suc.IH [OF _ h, of "Suc i"])
      fix win' bm'
      assume "store_early k (Suc i) first_index n data win bm (card (dom m)) = Inr (win', bm',
          card (dom (fill m (first_index + Suc i) (first_index + Suc i + k) first_index data)))"
        "holds base n bm' win' (fill m (first_index + Suc i) (first_index + Suc i + k) first_index data)"
      then show ?thesis by (intro Suc.prems(1) [of win' bm']) (simp_all only: fill step)
    qed (use Suc.prems in simp_all)
  next
    case False
    let ?c = "data ! i"
    obtain bm1 where bm1: "bitmap_set bm (?x mod n) = Inr bm1" "holds base n bm1 (win[?x mod n := ?c]) (m(?x \<mapsto> ?c))"
      using holds_set [OF h x False] .
    have w: "?x mod n < length win" using h Suc.prems(6) by (simp add: holds_def)
    have card: "card (dom (m(?x \<mapsto> ?c))) = Suc (card (dom m))"
      using False holds_finite [OF h] by simp
    have "card (dom (m(?x \<mapsto> ?c))) \<le> n" using card_mono [OF _ holdsD(4) [OF bm1(2)]] by simp
    then have "card (dom m) + 1 < 2 ^ 64" using card Suc.prems(7) by simp
    then have add: "add64 (card (dom m)) 1 = card (dom (m(?x \<mapsto> ?c)))"
      unfolding card by (simp add: wadd_nowrap)
    have fill: "fill m ?x (?x + Suc k) first_index data =
        fill (m(?x \<mapsto> ?c)) (first_index + Suc i) (first_index + Suc i + k) first_index data"
      using False by (subst fill_absent) auto
    have step: "store_early (Suc k) i first_index n data win bm (card (dom m)) =
        store_early k (Suc i) first_index n data (win[?x mod n := ?c]) bm1 (card (dom (m(?x \<mapsto> ?c))))"
      using get idx False bm1(1) w add Suc.prems by simp
    show ?thesis
    proof (rule Suc.IH [OF _ bm1(2), of "Suc i"])
      fix win' bm'
      assume "store_early k (Suc i) first_index n data (win[?x mod n := ?c]) bm1 (card (dom (m(?x \<mapsto> ?c))))
          = Inr (win', bm', card (dom (fill (m(?x \<mapsto> ?c)) (first_index + Suc i)
              (first_index + Suc i + k) first_index data)))"
        "holds base n bm' win' (fill (m(?x \<mapsto> ?c)) (first_index + Suc i) (first_index + Suc i + k)
           first_index data)"
      then show ?thesis by (intro Suc.prems(1) [of win' bm']) (simp_all only: fill step)
    qed (use Suc.prems in simp_all)
  qed
qed


section \<open>The invariant between the reassembler and its stream\<close>

definition held :: "reassembler \<Rightarrow> (nat \<rightharpoonup> byte)" where
  "held r = (\<lambda>j. let n = buffer_size r in
     if first_unassembled r \<le> j \<and> j < first_unassembled r + n \<and> j mod n \<in> bits (window_bitmap r)
     then Some (sliding_window r ! (j mod n)) else None)"

definition window_end :: "reassembler \<Rightarrow> byte_stream \<Rightarrow> nat" where
  "window_end r output = first_unassembled r + available_capacity output"

definition ready :: "reassembler \<Rightarrow> byte_stream \<Rightarrow> bool" where
  "ready r output \<longleftrightarrow> stream_inv output \<and> stream_capacity output < 2 ^ 62
     \<and> buffer_size r = stream_capacity output
     \<and> holds (first_unassembled r) (buffer_size r) (window_bitmap r) (sliding_window r) (held r)
     \<and> dom (held r) \<subseteq> {first_unassembled r<..<window_end r output}
     \<and> pending_count r = card (dom (held r))"

definition unused :: "reassembler \<Rightarrow> byte_stream \<Rightarrow> bool" where
  "unused r output \<longleftrightarrow> stream_inv output \<and> stream_capacity output < 2 ^ 62 \<and> peek output = []
     \<and> first_unassembled r = 0 \<and> pending_count r = 0 \<and> buffer_size r = 0
     \<and> sliding_window r = [] \<and> window_bitmap r = bitmap_default"

definition reassembler_inv :: "reassembler \<Rightarrow> byte_stream \<Rightarrow> bool" where
  "reassembler_inv r output \<longleftrightarrow> ready r output \<or> unused r output"

lemma held_eq:
  assumes "holds (first_unassembled r) (buffer_size r) (window_bitmap r) (sliding_window r) m"
  shows "held r = m"
proof (rule ext)
  fix j
  let ?n = "buffer_size r"
  show "held r j = m j"
  proof (cases "first_unassembled r \<le> j \<and> j < first_unassembled r + ?n")
    case True
    then have "j mod ?n \<in> bits (window_bitmap r) \<longleftrightarrow> j \<in> dom m"
      using mod_window_image_mem [OF holdsD(4) [OF assms]] holdsD(5) [OF assms] by simp
    then show ?thesis using True holdsD(6) [OF assms] by (auto simp: held_def Let_def)
  next
    case False
    then have "j \<notin> dom m" using holdsD(4) [OF assms] by auto
    then show ?thesis using False by (auto simp: held_def Let_def)
  qed
qed

lemma readyI:
  assumes "holds (first_unassembled r) (stream_capacity output) (window_bitmap r) (sliding_window r) m"
    and "stream_inv output" "stream_capacity output < 2 ^ 62" "buffer_size r = stream_capacity output"
    and "dom m \<subseteq> {first_unassembled r<..<window_end r output}" "pending_count r = card (dom m)"
  shows "ready r output" "held r = m"
proof -
  show h: "held r = m" using assms(1,4) by (intro held_eq) simp
  show "ready r output" using assms by (simp add: ready_def h)
qed

lemma inv_stream:
  assumes "reassembler_inv r output"
  shows "stream_inv output" "stream_capacity output < 2 ^ 62"
    "available_capacity output \<le> stream_capacity output"
proof -
  show s: "stream_inv output" "stream_capacity output < 2 ^ 62"
    using assms by (auto simp: reassembler_inv_def ready_def unused_def)
  show "available_capacity output \<le> stream_capacity output"
    using available_capacity_peek [OF s(1)] by simp
qed

lemma unused_new: "c < 2 ^ 62 \<Longrightarrow> unused Reassembler (ByteStream c)"
  by (simp add: unused_def Reassembler_def)

lemma holds_empty:
  assumes "n < 2 ^ 63"
  shows "holds base n (Bitmap n) (replicate n 0) Map.empty"
  using bitmap_new [OF assms] by (simp add: holds_def)

lemma held_reach_end [simp]: "held (r\<lparr>reach_end := x\<rparr>) = held r"
  by (simp add: held_def fun_eq_iff Let_def)

lemma ready_reach_end [simp]: "ready (r\<lparr>reach_end := x\<rparr>) out = ready r out"
  by (simp add: ready_def window_end_def)

lemma prepare_ready:
  assumes inv: "reassembler_inv r output"
  shows "ready (prepare r b output) output" "held (prepare r b output) = held r"
    "first_unassembled (prepare r b output) = first_unassembled r"
    "reach_end (prepare r b output) = (reach_end r \<or> b)"
proof -
  show keep: "first_unassembled (prepare r b output) = first_unassembled r"
    "reach_end (prepare r b output) = (reach_end r \<or> b)"
    by (simp_all add: prepare_def Let_def)
  note s = inv_stream [OF inv]
  have "ready (prepare r b output) output \<and> held (prepare r b output) = held r"
  proof (cases "unused r output")
    case True
    then have "available_capacity output = stream_capacity output" "held r = Map.empty"
      using available_capacity_peek(1) [OF s(1)] by (auto simp: unused_def held_def fun_eq_iff)
    then show ?thesis
      using True s holds_empty [of "stream_capacity output" 0] bitmap_new(4) [of "stream_capacity output"]
        readyI [of "prepare r b output" "output" Map.empty]
      by (simp add: unused_def prepare_def Let_def vec_resize_def)
  next
    case False
    with inv have ready: "ready r output" by (simp add: reassembler_inv_def)
    show ?thesis
    proof (cases "sliding_window r = []")
      case True
      then have cap: "stream_capacity output = 0" using ready by (simp add: ready_def holds_def)
      then have zero: "available_capacity output = 0" using s by simp
      have h: "bitmap_inv (window_bitmap r)" "element_capacity (window_bitmap r) = 0" "buffer_size r = 0"
        using ready cap by (simp_all add: ready_def holds_def)
      have "bitmap_resize (window_bitmap r) 0 = window_bitmap r"
        using bitmap_invD [OF h(1)] h(2) by (simp add: bitmap_resize_def blocks_needed_eq vec_resize_def)
      then have "prepare r b output = r\<lparr>reach_end := reach_end r \<or> b\<rparr>"
        using True h(3) by (cases b) (simp_all add: prepare_def Let_def zero vec_resize_def)
      then show ?thesis using ready by simp
    next
      case False
      then have "prepare r b output = r\<lparr>reach_end := reach_end r \<or> b\<rparr>"
        by (cases b) (simp_all add: prepare_def Let_def)
      then show ?thesis using ready by simp
    qed
  qed
  then show "ready (prepare r b output) output" "held (prepare r b output) = held r" by simp_all
qed


section \<open>insert implements the abstract reassembler\<close>

text \<open>
  The batch operation on the bitmap is wrong on ranges that wrap around inside one block of
  32 bits (theory \<open>Bitmap\<close>), so the refinement has to exclude them; \<open>batch_safe\<close> below says
  when the call made by \<open>insert\<close> is not such a range.
\<close>

definition batch_safe :: "reassembler \<Rightarrow> byte_stream \<Rightarrow> nat \<Rightarrow> byte list \<Rightarrow> bool" where
  "batch_safe r out first_index data =
     (let fua = first_unassembled r; n = stream_capacity out;
          tail = min (first_index + length data) (window_end r out)
      in first_index \<le> fua \<and> fua < tail \<longrightarrow> \<not> wraps_in_block (fua mod n) ((tail - 1) mod n))"

lemma run_from_restrict: "a \<le> i \<Longrightarrow> run_from k (m |` {a..}) i = run_from k m i"
  by (induction k arbitrary: i) (auto simp: restrict_map_def split: option.splits)

lemma restrict_atLeast: "a \<le> b \<Longrightarrow> (m |` {a..}) |` {b..} = m |` {b..}" for a :: nat
  by (simp add: Int_absorb1)

lemma readyD:
  assumes "ready r out"
  shows "stream_inv out" "stream_capacity out < 2 ^ 62" "buffer_size r = stream_capacity out"
    "holds (first_unassembled r) (stream_capacity out) (window_bitmap r) (sliding_window r) (held r)"
    "dom (held r) \<subseteq> {first_unassembled r<..<window_end r out}"
    "pending_count r = card (dom (held r))"
    "window_end r out \<le> first_unassembled r + stream_capacity out"
proof -
  show *: "stream_inv out" "stream_capacity out < 2 ^ 62" "buffer_size r = stream_capacity out"
    "dom (held r) \<subseteq> {first_unassembled r<..<window_end r out}"
    "pending_count r = card (dom (held r))"
    "holds (first_unassembled r) (stream_capacity out) (window_bitmap r) (sliding_window r) (held r)"
    using assms by (auto simp: ready_def)
  show "window_end r out \<le> first_unassembled r + stream_capacity out"
    using available_capacity_peek [OF *(1)] by (simp add: window_end_def)
qed

lemma pushed_bytes:
  assumes "f \<le> fua" "fua < tail" "tail = min (f + length d) lim" "length run \<le> lim - tail"
  shows "take (lim - fua) (drop (fua - f) (d @ run)) = take (tail - fua) (drop (fua - f) d) @ run"
    "fua - f \<le> length (d @ run)"
proof -
  have "take (lim - fua) (drop (fua - f) (d @ run)) = take (tail - fua) (drop (fua - f) d) @ run"
  proof (cases "f + length d \<le> lim")
    case True
    then have tail: "tail = f + length d" using assms(3) by simp
    define xs where "xs = drop (fua - f) d"
    have xs: "length xs = tail - fua" "drop (fua - f) (d @ run) = xs @ run"
      using assms(1,2) tail by (simp_all add: xs_def)
    have "length run \<le> lim - fua - (tail - fua)" "tail - fua \<le> lim - fua" 
      using assms(2,4) tail True by simp_all
    then show ?thesis unfolding xs(2) xs_def [symmetric] using xs(1) by simp
  next
    case False
    then have "tail = lim" "run = []" using assms(3,4) by simp_all
    then show ?thesis by simp
  qed
  moreover have "fua - f \<le> length (d @ run)"
  proof -
    have "fua < f + length d" using assms(2,3) by simp
    then show ?thesis by simp
  qed
  ultimately show "take (lim - fua) (drop (fua - f) (d @ run)) = take (tail - fua) (drop (fua - f) d) @ run"
    "fua - f \<le> length (d @ run)" by blast+
qed

lemma insert_in_order:
  assumes rd: "ready r out" and tail: "tail = min (f + length d) (window_end r out)"
    and branch: "f \<le> first_unassembled r" "first_unassembled r < tail"
    and lim: "window_end r out \<le> 2 ^ 63"
    and ok: "\<not> wraps_in_block (first_unassembled r mod stream_capacity out) ((tail - 1) mod stream_capacity out)"
  obtains bm bm' p d' fua' out' where
    "getPopCountAndUnsetBatch (window_bitmap r) (first_unassembled r mod buffer_size r)
       (sub64 (add64 tail (buffer_size r)) 1 mod buffer_size r) = Inr (p, bm)"
    "drain_window (Suc (buffer_size r)) (buffer_size r) (sliding_window r) bm
       (sub64 (pending_count r) p) d tail tail = Inr (bm', card (dom (held r |` {fua'..})), d', fua')"
    "sub64 (first_unassembled r) f \<le> length d'"
    "writer_push out (drop (sub64 (first_unassembled r) f) d') = Inr out'"
    "fua' = tail + length (run_from (window_end r out - tail) (held r) tail)"
    "ready (r\<lparr>first_unassembled := fua', pending_count := card (dom (held r |` {fua'..})), window_bitmap := bm'\<rparr>) out'"
    "held (r\<lparr>first_unassembled := fua', pending_count := card (dom (held r |` {fua'..})), window_bitmap := bm'\<rparr>)
       = held r |` {fua'..}"
    "peek out' = peek out @ take (tail - first_unassembled r) (drop (first_unassembled r - f) d)
       @ run_from (window_end r out - tail) (held r) tail"
    "fua' + available_capacity out' = window_end r out" "flags out' = flags out"
    "stream_capacity out' = stream_capacity out" "total_popped out' = total_popped out"
proof -
  define fua m n lim where "fua = first_unassembled r" and "m = held r"
    and "n = stream_capacity out" and "lim = window_end r out"
  define run where "run = run_from (lim - tail) m tail"
  define fua' where "fua' = tail + length run"
  note rdD = readyD [OF rd, folded fua_def m_def n_def lim_def]
  have avail: "available_capacity out = lim - fua" by (simp add: lim_def fua_def window_end_def)
  have lims: "f \<le> fua" "fua < tail" "tail \<le> lim" "lim \<le> 2 ^ 63" "lim \<le> fua + n" "n < 2 ^ 62" "0 < n"
    using assms rdD(2,7) by (simp_all add: fua_def lim_def n_def)
  have "tail + n < 2 ^ 64" using lims by simp
  moreover have "tail \<le> fua + n" using lims by simp
  ultimately obtain bm where bm: "getPopCountAndUnsetBatch (window_bitmap r) (fua mod n)
       (sub64 (add64 tail n) 1 mod n) = Inr (card (dom m \<inter> {..<tail}), bm)"
    "holds fua n bm (sliding_window r) (m |` {tail..})"
    using holds_batch [OF rdD(4) lims(2)] ok by (auto simp: fua_def n_def)
  have domt: "dom (m |` {tail..}) \<subseteq> {tail..<lim}" using rdD(5) by auto
  then have "holds tail n bm (sliding_window r) (m |` {tail..})"
    using lims by (intro holds_shift [OF bm(2)] subset_trans [OF domt]) auto
  moreover have "lim \<le> tail + n" "lim < 2 ^ 64" "lim - tail < Suc n" using lims by simp_all
  ultimately obtain bm' where bm': "drain_window (Suc n) n (sliding_window r) bm (card (dom (m |` {tail..}))) d tail tail =
       Inr (bm', card (dom ((m |` {tail..}) |` {fua'..})), d @ run, fua')"
    "holds fua' n bm' (sliding_window r) ((m |` {tail..}) |` {fua'..})" "fua' \<notin> dom (m |` {tail..})"
    using drain_window_spec [OF _ domt lims(3) _ lims(7), of bm "sliding_window r" "Suc n" d]
    by (auto simp: run_def fua'_def run_from_restrict)
  have fua': "tail \<le> fua'" "fua' \<le> lim" "length run \<le> lim - tail"
    using length_run_from [of "lim - tail" m tail] lims by (auto simp: fua'_def run_def)
  have mm: "(m |` {tail..}) |` {fua'..} = m |` {fua'..}" using fua' by (rule_tac restrict_atLeast)
  have fin: "finite (dom m)" by (rule holds_finite [OF rdD(4)])
  have "(dom m \<inter> {..<tail}) \<union> dom (m |` {tail..}) = dom m"
    "(dom m \<inter> {..<tail}) \<inter> dom (m |` {tail..}) = {}" by auto
  then have "card (dom m) = card (dom m \<inter> {..<tail}) + card (dom (m |` {tail..}))"
    using card_Un_disjoint [of "dom m \<inter> {..<tail}" "dom (m |` {tail..})"] fin
      finite_Int [OF disjI1, OF fin, of "{tail..}"] by (simp add: dom_restrict)
  moreover have "card (dom m) \<le> n" using card_mono [OF _ holdsD(4) [OF rdD(4)]] by simp
  ultimately have pend: "sub64 (pending_count r) (card (dom m \<inter> {..<tail})) = card (dom (m |` {tail..}))"
    using lims(6) rdD(6) by (simp add: wrap_simps del: dom_restrict)
  have sf: "sub64 fua f = fua - f" using lims by (simp add: wrap_simps)
  have new: "take (lim - fua) (drop (fua - f) (d @ run)) = take (tail - fua) (drop (fua - f) d) @ run"
    "fua - f \<le> length (d @ run)"
    using pushed_bytes [OF lims(1,2), of d lim run] fua'(3) tail by (simp_all add: lim_def)
  obtain out' where out': "writer_push out (drop (fua - f) (d @ run)) = Inr out'" "stream_inv out'"
    "peek out' = peek out @ take (tail - fua) (drop (fua - f) d) @ run"
    "stream_capacity out' = stream_capacity out" "flags out' = flags out" "total_popped out' = total_popped out"
    using writer_push_spec [OF rdD(1), of "drop (fua - f) (d @ run)"] new(1) unfolding avail by metis
  have len: "length (take (tail - fua) (drop (fua - f) d) @ run) = fua' - fua"
    using lims tail by (simp add: fua'_def)
  have "length (peek out') = length (peek out) + (fua' - fua)" using out'(3) len by simp
  then have av': "fua' + available_capacity out' = lim"
    using available_capacity_peek [OF out'(2)] available_capacity_peek [OF rdD(1)] avail out'(4) fua' lims by simp
  let ?r = "r\<lparr>first_unassembled := fua', pending_count := card (dom (m |` {fua'..})), window_bitmap := bm'\<rparr>"
  have dom': "dom (m |` {fua'..}) \<subseteq> {fua'<..<lim}"
  proof
    fix j assume j: "j \<in> dom (m |` {fua'..})"
    moreover from j bm'(3) fua'(1) have "j \<noteq> fua'" by auto
    ultimately show "j \<in> {fua'<..<lim}" using rdD(5) by auto
  qed
  have rd': "ready ?r out'" "held ?r = m |` {fua'..}"
    using readyI [of ?r out' "m |` {fua'..}"] bm'(2) [unfolded mm] out' rdD dom' av'
    by (simp_all add: n_def window_end_def del: dom_restrict)
  show thesis
  proof (rule that [of "card (dom m \<inter> {..<tail})" bm bm' fua' "d @ run" out'])
    show "getPopCountAndUnsetBatch (window_bitmap r) (first_unassembled r mod buffer_size r)
       (sub64 (add64 tail (buffer_size r)) 1 mod buffer_size r) = Inr (card (dom m \<inter> {..<tail}), bm)"
      using bm(1) by (simp only: fua_def rdD(3))
    show "drain_window (Suc (buffer_size r)) (buffer_size r) (sliding_window r) bm
       (sub64 (pending_count r) (card (dom m \<inter> {..<tail}))) d tail tail =
       Inr (bm', card (dom (held r |` {fua'..})), d @ run, fua')"
      using bm'(1) [unfolded mm] by (simp only: rdD(3) pend m_def [symmetric] n_def [symmetric])
    show "sub64 (first_unassembled r) f \<le> length (d @ run)"
      using new(2) by (simp only: fua_def [symmetric] sf)
    show "writer_push out (drop (sub64 (first_unassembled r) f) (d @ run)) = Inr out'"
      using out'(1) by (simp only: fua_def [symmetric] sf)
    show "fua' = tail + length (run_from (window_end r out - tail) (held r) tail)"
      by (simp only: fua'_def run_def lim_def m_def)
    show "peek out' = peek out @ take (tail - first_unassembled r) (drop (first_unassembled r - f) d)
       @ run_from (window_end r out - tail) (held r) tail"
      using out'(3) by (simp only: fua_def run_def lim_def m_def)
    show "fua' + available_capacity out' = window_end r out" using av' by (simp only: lim_def)
  qed (use out' rd' in \<open>simp_all only: m_def\<close>)
qed


lemma insert_early:
  assumes rd: "ready r out" and branch: "first_unassembled r < f" "f < tail"
    and tail: "tail = min (f + length d) (window_end r out)" and lim: "window_end r out \<le> 2 ^ 63"
  obtains win' bm' where
    "store_early (sub64 tail f) 0 f (buffer_size r) d (sliding_window r) (window_bitmap r) (pending_count r)
       = Inr (win', bm', card (dom (fill (held r) f tail f d)))"
    "ready (r\<lparr>sliding_window := win', window_bitmap := bm', pending_count := card (dom (fill (held r) f tail f d))\<rparr>) out"
    "held (r\<lparr>sliding_window := win', window_bitmap := bm', pending_count := card (dom (fill (held r) f tail f d))\<rparr>)
       = fill (held r) f tail f d"
proof -
  define n where "n = stream_capacity out"
  note rdD = readyD [OF rd, folded n_def]
  have ar: "first_unassembled r \<le> f + 0" "f + 0 + (tail - f) \<le> first_unassembled r + n"
    "0 + (tail - f) \<le> length d" "0 < n" "first_unassembled r + n < 2 ^ 64"
    using assms rdD(2,7) lim by (simp_all add: window_end_def)
  obtain win' bm' where st: "store_early (tail - f) 0 f n d (sliding_window r) (window_bitmap r)
      (card (dom (held r))) = Inr (win', bm', card (dom (fill (held r) (f + 0) (f + 0 + (tail - f)) f d)))"
    "holds (first_unassembled r) n bm' win' (fill (held r) (f + 0) (f + 0 + (tail - f)) f d)"
    by (rule store_early_spec [OF rdD(4) ar])
  have eq: "f + 0 + (tail - f) = tail" using branch by simp
  have sub: "sub64 tail f = tail - f" using branch lim tail by (simp add: wrap_simps)
  let ?r = "r\<lparr>sliding_window := win', window_bitmap := bm', pending_count := card (dom (fill (held r) f tail f d))\<rparr>"
  have "dom (fill (held r) f tail f d) \<subseteq> {first_unassembled r<..<window_end r out}"
    using rdD(5) branch tail by (auto simp: dom_fill)
  then have "ready ?r out" "held ?r = fill (held r) f tail f d"
    using readyI [of ?r out "fill (held r) f tail f d"] st(2) rdD eq
    by (simp_all add: n_def window_end_def)
  with st(1) show thesis using that sub eq rdD(3,6) by simp
qed

lemma close_if_done_simps [simp]:
  "fst (close_if_done (r, out)) = r"
  "snd (close_if_done (r, out)) = (if reach_end r \<and> pending_count r = 0 then writer_close out else out)"
  by (simp_all add: close_if_done_def)

lemma ready_close [simp]: "ready r (writer_close out) = ready r out"
  by (simp add: ready_def window_end_def)

lemma ready_none_pending: "ready r out \<Longrightarrow> pending_count r = 0 \<longleftrightarrow> held r = Map.empty"
  using holds_finite [of _ _ _ _ "held r"] by (auto simp: ready_def)

definition insert_meets_spec ::
  "reassembler \<Rightarrow> byte_stream \<Rightarrow> nat \<Rightarrow> byte list \<Rightarrow> bool \<Rightarrow> reassembler \<Rightarrow> byte_stream \<Rightarrow> bool" where
  "insert_meets_spec r out f d fin r' out' \<longleftrightarrow> ready r' out'
     \<and> (\<exists>new. spec_insert (first_unassembled r) (held r) (window_end r out) f d = (first_unassembled r', held r', new)
          \<and> peek out' = peek out @ new)
     \<and> window_end r' out' = window_end r out
     \<and> stream_capacity out' = stream_capacity out \<and> total_popped out' = total_popped out
     \<and> has_error out' = has_error out
     \<and> reach_end r' = (reach_end r \<or> fin)
     \<and> is_closed out' = (is_closed out \<or> (reach_end r' \<and> held r' = Map.empty))"

lemma insert_meets_specI:
  assumes "ready r' out1"
    and "spec_insert (first_unassembled r) (held r) (window_end r out) f d = (first_unassembled r', held r', new)"
    and "peek out1 = peek out @ new" "window_end r' out1 = window_end r out"
    and "stream_capacity out1 = stream_capacity out" "total_popped out1 = total_popped out"
    and "flags out1 = flags out" "reach_end r' = (reach_end r \<or> fin)"
  shows "insert_meets_spec r out f d fin (fst (close_if_done (r', out1))) (snd (close_if_done (r', out1)))"
proof -
  have "pending_count r' = 0 \<longleftrightarrow> held r' = Map.empty" by (rule ready_none_pending [OF assms(1)])
  moreover have "is_closed out1 = is_closed out" "has_error out1 = has_error out"
    using assms(7) by (simp_all add: is_closed_def has_error_def)
  moreover have "total_popped (writer_close out1) = total_popped out1" by (simp add: writer_close_def)
  ultimately show ?thesis using assms by (auto simp: insert_meets_spec_def window_end_def)
qed


lemma insert_refines:
  assumes inv: "reassembler_inv r out" and f: "f < 2 ^ 64" "length d < 2 ^ 62"
    and lim: "window_end r out \<le> 2 ^ 63" and ok: "batch_safe r out f d"
  obtains r' out' where "reassembler_insert r f d fin out = Inr (r', out')"
    "insert_meets_spec r out f d fin r' out'"
proof -
  define p where "p = prepare r fin out"
  have p: "ready p out" "held p = held r" "first_unassembled p = first_unassembled r"
    "reach_end p = (reach_end r \<or> fin)" "window_end p out = window_end r out"
    using prepare_ready [OF inv] by (simp_all add: p_def window_end_def)
  define fua lim' tail tl where "fua = first_unassembled r" and "lim' = window_end r out"
    and "tail = min (add64 f (length d)) (add64 fua (available_capacity out))"
    and "tl = min (f + length d) lim'"
  note rdD = readyD [OF p(1)]
  have add: "add64 fua (available_capacity out) = lim'"
    using lim by (simp add: fua_def lim'_def window_end_def wrap_simps)
  have cases: "tail = tl \<or> (tail \<le> f \<and> tl \<le> f)"
  proof (cases "f + length d < 2 ^ 64")
    case True
    then show ?thesis by (simp add: tail_def tl_def add wrap_simps)
  next
    case False
    then have "add64 f (length d) = f + length d - 2 ^ 64"
      using f unfolding wadd_def by (intro mod_once) simp_all
    then have "tail \<le> f" using f by (simp add: tail_def)
    moreover have "tl \<le> f" using False f lim by (simp add: tl_def lim'_def)
    ultimately show ?thesis by simp
  qed
  have code: "reassembler_insert r f d fin out =
    (if f \<ge> tail \<or> fua \<ge> tail then Inr (close_if_done (p, out))
     else if f \<le> fua then
       andthen (check (buffer_size p \<noteq> 0) Undefined) (\<lambda>_.
       andthen (getPopCountAndUnsetBatch (window_bitmap p) (fua mod buffer_size p)
                  (sub64 (add64 tail (buffer_size p)) 1 mod buffer_size p)) (\<lambda>(popped, bm).
       andthen (drain_window (Suc (buffer_size p)) (buffer_size p) (sliding_window p) bm
                  (sub64 (pending_count p) popped) d tail tail) (\<lambda>(bm', pending, data', fua').
       andthen (check (sub64 fua f \<le> length data') (Runtime_Error ''out_of_range'')) (\<lambda>_.
       andthen (writer_push out (drop (sub64 fua f) data')) (\<lambda>output'.
       Inr (close_if_done
         (p\<lparr>first_unassembled := fua', pending_count := pending, window_bitmap := bm'\<rparr>, output')))))))
     else
       andthen (check (buffer_size p \<noteq> 0) Undefined) (\<lambda>_.
       andthen (store_early (sub64 tail f) 0 f (buffer_size p) d (sliding_window p)
                  (window_bitmap p) (pending_count p)) (\<lambda>(win, bm, pending).
       Inr (close_if_done
         (p\<lparr>sliding_window := win, window_bitmap := bm, pending_count := pending\<rparr>, out)))))"
    by (simp only: reassembler_insert_exits p_def [symmetric] Let_def p(3) fua_def [symmetric] tail_def [symmetric])
  have spec: "spec_insert (first_unassembled r) (held r) (window_end r out) f d =
    (if tl \<le> f \<or> tl \<le> fua then (fua, held r, [])
     else if f \<le> fua then
       (tl + length (run_from (lim' - tl) (held r) tl),
        held r |` {tl + length (run_from (lim' - tl) (held r) tl)..},
        take (tl - fua) (drop (fua - f) d) @ run_from (lim' - tl) (held r) tl)
     else (fua, fill (held r) f tl f d, []))"
    by (simp only: spec_insert_def Let_def tl_def fua_def lim'_def fill_def conj_assoc)
  show thesis
  proof (cases "tail \<le> f \<or> tail \<le> fua")
    case True
    then have "tl \<le> f \<or> tl \<le> fua" using cases by auto
    then have m: "insert_meets_spec r out f d fin (fst (close_if_done (p, out))) (snd (close_if_done (p, out)))"
      by (intro insert_meets_specI [OF p(1), where new = "[]"]) (simp_all add: spec p fua_def)
    have res: "reassembler_insert r f d fin out = Inr (close_if_done (p, out))" using code True by simp
    show thesis by (rule that [OF _ m]) (simp only: res prod.collapse)
  next
    case False
    then have tl: "tail = tl" using cases by simp
    have lt: "fua < tl" "f < tl" using False tl by simp_all
    have "0 < buffer_size p"
      using False rdD(3,7) p(5,3) tl by (simp add: tl_def fua_def lim'_def) linarith
    then have bs: "check (buffer_size p \<noteq> 0) Undefined = Inr ()" by simp
    show thesis
    proof (cases "f \<le> fua")
      case True
      have safe: "\<not> wraps_in_block (fua mod stream_capacity out) ((tl - 1) mod stream_capacity out)"
      proof -
        have "f \<le> fua \<and> fua < tl" using True False tl by simp
        with ok show ?thesis
          by (simp only: batch_safe_def Let_def fua_def tl_def lim'_def simp_thms)
      qed
      have br: "tl = min (f + length d) (window_end p out)" "f \<le> first_unassembled p"
        "first_unassembled p < tl" "window_end p out \<le> 2 ^ 63"
        "\<not> wraps_in_block (first_unassembled p mod stream_capacity out) ((tl - 1) mod stream_capacity out)"
        using True lt lim safe by (simp_all add: p fua_def tl_def lim'_def)
      show thesis
      proof (rule insert_in_order [OF p(1) br])
        fix bm bm' k d' fua' out1
        let ?k = "card (dom (held p |` {fua'..}))"
        let ?r = "p\<lparr>first_unassembled := fua', pending_count := ?k, window_bitmap := bm'\<rparr>"
        assume c: "getPopCountAndUnsetBatch (window_bitmap p) (first_unassembled p mod buffer_size p)
             (sub64 (add64 tl (buffer_size p)) 1 mod buffer_size p) = Inr (k, bm)"
          "drain_window (Suc (buffer_size p)) (buffer_size p) (sliding_window p) bm
             (sub64 (pending_count p) k) d tl tl = Inr (bm', ?k, d', fua')"
          "sub64 (first_unassembled p) f \<le> length d'"
          "writer_push out (drop (sub64 (first_unassembled p) f) d') = Inr out1"
          and fua': "fua' = tl + length (run_from (window_end p out - tl) (held p) tl)"
          and rd': "ready ?r out1" "held ?r = held p |` {fua'..}"
          and pk: "peek out1 = peek out @ take (tl - first_unassembled p) (drop (first_unassembled p - f) d)
             @ run_from (window_end p out - tl) (held p) tl"
          and rest: "fua' + available_capacity out1 = window_end p out" "flags out1 = flags out"
            "stream_capacity out1 = stream_capacity out" "total_popped out1 = total_popped out"
        have res: "reassembler_insert r f d fin out = Inr (close_if_done (?r, out1))"
          unfolding code using True False bs c
          by (simp add: tl fua_def [symmetric] p(3) del: dom_restrict drain_window.simps)
        have m: "insert_meets_spec r out f d fin (fst (close_if_done (?r, out1))) (snd (close_if_done (?r, out1)))"
        proof (rule insert_meets_specI [OF rd'(1)])
          show "spec_insert (first_unassembled r) (held r) (window_end r out) f d =
            (first_unassembled ?r, held ?r, take (tl - fua) (drop (fua - f) d) @
               run_from (lim' - tl) (held r) tl)"
            unfolding spec rd'(2) using True lt by (simp add: fua' p lim'_def)
          show "window_end ?r out1 = window_end r out"
            using rest(1) by (simp add: window_end_def p)
          show "peek out1 = peek out @ take (tl - fua) (drop (fua - f) d) @ run_from (lim' - tl) (held r) tl"
            using pk by (simp add: fua_def lim'_def p)
        qed (use rest p(4) in simp_all)
        show thesis by (rule that [OF _ m]) (simp only: res prod.collapse)
      qed
    next
      case early: False
      have br: "first_unassembled p < f" "f < tl" "tl = min (f + length d) (window_end p out)"
        "window_end p out \<le> 2 ^ 63"
        using early lt lim by (simp_all add: p fua_def tl_def lim'_def)
      show thesis
      proof (rule insert_early [OF p(1) br])
        fix win' bm'
        let ?k = "card (dom (fill (held p) f tl f d))"
        let ?r = "p\<lparr>sliding_window := win', window_bitmap := bm', pending_count := ?k\<rparr>"
        assume c: "store_early (sub64 tl f) 0 f (buffer_size p) d (sliding_window p) (window_bitmap p) (pending_count p)
            = Inr (win', bm', ?k)"
          and rd': "ready ?r out" "held ?r = fill (held p) f tl f d"
        have res: "reassembler_insert r f d fin out = Inr (close_if_done (?r, out))"
          unfolding code using early False bs c by (simp add: tl)
        have m: "insert_meets_spec r out f d fin (fst (close_if_done (?r, out))) (snd (close_if_done (?r, out)))"
        proof (rule insert_meets_specI [OF rd'(1)])
          show "spec_insert (first_unassembled r) (held r) (window_end r out) f d =
            (first_unassembled ?r, held ?r, [])"
            unfolding spec rd'(2) using early lt by (simp add: p fua_def [symmetric])
        qed (simp_all add: p window_end_def)
        show thesis by (rule that [OF _ m]) (simp only: res prod.collapse)
      qed
    qed
  qed
qed

section \<open>Evaluating concrete runs\<close>

lemma drain_window_numeral [run_simps]:
  "drain_window (numeral k) bs win bm pending data i fua =
     andthen (bitmap_get bm (i mod bs)) (\<lambda>present.
     if \<not> present then Inr (bm, pending, data, fua)
     else
       andthen (bitmap_unset bm (i mod bs)) (\<lambda>bm'.
       andthen (vec_at win (i mod bs)) (\<lambda>c.
       drain_window (pred_numeral k) bs win bm' (sub64 pending 1) (data @ [c]) (add64 i 1) (add64 fua 1))))"
  by (simp add: numeral_eq_Suc)

lemma store_early_numeral [run_simps]:
  "store_early (numeral k) i first_index bs data win bm pending =
     (let w = add64 i first_index mod bs
      in andthen (bitmap_get bm w) (\<lambda>present.
         if present then store_early (pred_numeral k) (Suc i) first_index bs data win bm pending
         else
           andthen (bitmap_set bm w) (\<lambda>bm'.
           andthen (vec_at data i) (\<lambda>c.
           andthen (vec_put win w c) (\<lambda>win'.
           store_early (pred_numeral k) (Suc i) first_index bs data win' bm' (add64 pending 1))))))"
  by (simp add: numeral_eq_Suc)

lemmas [run_simps] = reassembler_insert_exits prepare_def close_if_done_def Reassembler_def bytes_pending_def

end
