(* ===== verification/Reassembly.thy ===== *)
theory Reassembly
  imports Reassembler
begin

text \<open>
  What the refinement of \<open>Reassembler::insert\<close> gives for whole runs: a reassembler fed with
  arbitrary pieces of one stream, in any order and with repetitions, while a reader takes
  bytes from the output.
\<close>

section \<open>One abstract insertion of a piece of a stream\<close>

definition agrees :: "(nat \<rightharpoonup> byte) \<Rightarrow> byte list \<Rightarrow> bool" where
  "agrees m S \<longleftrightarrow> (\<forall>j b. m j = Some b \<longrightarrow> j < length S \<and> b = S ! j)"

definition piece_of :: "byte list \<Rightarrow> nat \<Rightarrow> byte list \<Rightarrow> bool" where
  "piece_of S f d \<longleftrightarrow> f + length d \<le> length S \<and> d = take (length d) (drop f S)"

definition known :: "nat \<Rightarrow> (nat \<rightharpoonup> byte) \<Rightarrow> nat set" where
  "known nxt m = {..<nxt} \<union> dom m"

lemma agrees_empty [simp]: "agrees Map.empty S"
  by (simp add: agrees_def)

lemma agrees_restrict: "agrees m S \<Longrightarrow> agrees (m |` A) S"
  by (auto simp: agrees_def restrict_map_def split: if_splits)

lemma piece_nth: "piece_of S f d \<Longrightarrow> i < length d \<Longrightarrow> d ! i = S ! (f + i)"
  unfolding piece_of_def by (metis le_add1 le_trans nth_drop nth_take)

lemma run_from_agrees:
  assumes "agrees m S" "i \<le> length S"
  shows "i + length (run_from k m i) \<le> length S"
    and "take i S @ run_from k m i = take (i + length (run_from k m i)) S"
    and "{i..<i + length (run_from k m i)} \<subseteq> dom m"
proof -
  have "i + length (run_from k m i) \<le> length S
      \<and> take i S @ run_from k m i = take (i + length (run_from k m i)) S
      \<and> {i..<i + length (run_from k m i)} \<subseteq> dom m" using assms
  proof (induction k arbitrary: i)
    case 0
    then show ?case by simp
  next
    case (Suc k)
    show ?case
    proof (cases "m i")
      case None
      then show ?thesis using Suc.prems by simp
    next
      case (Some b)
      then have b: "i < length S" "b = S ! i" using Suc.prems by (auto simp: agrees_def)
      let ?n = "length (run_from k m (Suc i))"
      have ih: "Suc i + ?n \<le> length S" "take (Suc i) S @ run_from k m (Suc i) = take (Suc i + ?n) S"
        "{Suc i..<Suc i + ?n} \<subseteq> dom m" using Suc.IH [of "Suc i"] Suc.prems b by auto
      have "take i S @ b # run_from k m (Suc i) = take (Suc i) S @ run_from k m (Suc i)"
        using b by (simp add: take_Suc_conv_app_nth)
      moreover have "{i..<i + Suc ?n} = insert i {Suc i..<Suc i + ?n}" by auto
      ultimately show ?thesis using ih Some by (simp add: domI)
    qed
  qed
  then show "i + length (run_from k m i) \<le> length S"
    "take i S @ run_from k m i = take (i + length (run_from k m i)) S"
    "{i..<i + length (run_from k m i)} \<subseteq> dom m" by simp_all
qed

lemma agrees_fill:
  assumes "agrees m S" "piece_of S f d" "f \<le> a" "z \<le> f + length d"
  shows "agrees (fill m a z f d) S"
  unfolding agrees_def
proof (intro allI impI)
  fix j b assume b: "fill m a z f d j = Some b"
  show "j < length S \<and> b = S ! j"
  proof (cases "m j")
    case None
    then have j: "a \<le> j" "j < z" "b = d ! (j - f)"
      using b by (auto simp: fill_def split: if_splits)
    then show ?thesis
      using piece_nth [OF assms(2), of "j - f"] assms by (simp add: piece_of_def)
  next
    case (Some c)
    then have "b = c" using b by (auto simp: fill_def split: if_splits)
    with Some show ?thesis using assms(1) by (simp add: agrees_def)
  qed
qed

lemma piece_middle:
  assumes "piece_of S f d" "f \<le> a" "a \<le> z" "z \<le> f + length d"
  shows "take a S @ take (z - a) (drop (a - f) d) = take z S" "length (take (z - a) (drop (a - f) d)) = z - a"
proof -
  have "drop (a - f) d = drop (a - f) (take (length d) (drop f S))"
    using assms(1) by (simp add: piece_of_def)
  also have "\<dots> = take (length d - (a - f)) (drop a S)" using assms(2) by (simp add: drop_take)
  finally have "take (z - a) (drop (a - f) d) = take (z - a) (drop a S)" using assms by simp
  moreover have "take a S @ take (z - a) (drop a S) = take z S"
    using take_add [of a "z - a" S] assms(3) by simp
  ultimately show "take a S @ take (z - a) (drop (a - f) d) = take z S" by simp
  show "length (take (z - a) (drop (a - f) d)) = z - a" using assms by simp
qed

lemma spec_insert_piece:
  assumes ag: "agrees m S" and p: "piece_of S f d" and nxt: "nxt \<le> length S"
    and dom: "dom m \<subseteq> {nxt<..<lim}"
    and res: "spec_insert nxt m lim f d = (nxt', m', new)"
  shows "nxt \<le> nxt'" "nxt' \<le> length S" "take nxt S @ new = take nxt' S" "agrees m' S"
    "known nxt' m' = known nxt m \<union> {f..<min (f + length d) lim}"
proof -
  define tail where "tail = min (f + length d) lim"
  have len: "f + length d \<le> length S" using p by (simp add: piece_of_def)
  then have tl: "tail \<le> f + length d" "tail \<le> length S" by (simp_all add: tail_def)
  have "nxt \<le> nxt' \<and> nxt' \<le> length S \<and> take nxt S @ new = take nxt' S \<and> agrees m' S
      \<and> known nxt' m' = known nxt m \<union> {f..<tail}"
  proof (cases "tail \<le> f \<or> tail \<le> nxt")
    case True
    then have "nxt' = nxt" "m' = m" "new = []"
      using res by (simp_all add: spec_insert_def tail_def Let_def)
    then show ?thesis using True ag nxt by (auto simp: known_def)
  next
    case False
    show ?thesis
    proof (cases "f \<le> nxt")
      case True
      define run where "run = run_from (lim - tail) m tail"
      note run = run_from_agrees [OF ag tl(2), of "lim - tail", folded run_def]
      have r: "nxt' = tail + length run" "m' = m |` {nxt'..}"
        "new = take (tail - nxt) (drop (nxt - f) d) @ run"
        using res False True by (auto simp: spec_insert_def tail_def run_def Let_def)
      have "take nxt S @ new = take nxt' S"
        unfolding r(3) append_assoc [symmetric]
        using piece_middle(1) [OF p True _ tl(1)] False run(2) r(1) by simp
      moreover have "known nxt' m' = known nxt m \<union> {f..<tail}"
      proof -
        have "\<exists>b. m j = Some b" if "tail \<le> j" "j < tail + length run" for j
          using run(3) that by (auto simp: subset_iff)
        then show ?thesis using r(1,2) False True by (auto simp: known_def)
      qed
      ultimately show ?thesis
        using r run(1) agrees_restrict [OF ag] False by simp
    next
      case early: False
      have r: "nxt' = nxt" "m' = fill m f tail f d" "new = []"
        using res False early by (auto simp: spec_insert_def tail_def fill_def Let_def)
      then show ?thesis
        using agrees_fill [OF ag p order_refl tl(1)] nxt by (auto simp: known_def dom_fill)
    qed
  qed
  then show "nxt \<le> nxt'" "nxt' \<le> length S" "take nxt S @ new = take nxt' S" "agrees m' S"
    "known nxt' m' = known nxt m \<union> {f..<min (f + length d) lim}" by (simp_all add: tail_def)
qed

section \<open>Runs of the reassembler\<close>

lemma small_insert_safe:
  assumes "length d + 31 \<le> stream_capacity out"
  shows "batch_safe r out f d"
proof -
  define fua n tail where "fua = first_unassembled r" and "n = stream_capacity out"
    and "tail = min (f + length d) (window_end r out)"
  have "\<not> wraps_in_block (fua mod n) ((tail - 1) mod n)" if "f \<le> fua" "fua < tail"
  proof -
    define k where "k = tail - 1 - fua"
    have k: "k < length d" "tail - 1 = fua + k" using that by (auto simp: k_def tail_def)
    define s where "s = fua mod n"
    have n: "k + 31 < n" using k assms by (simp add: n_def)
    have "s < n" using n by (simp add: s_def)
    have e: "(tail - 1) mod n = (s + k) mod n" unfolding k(2) s_def by (simp add: mod_simps)
    show ?thesis
    proof (cases "s + k < n")
      case True
      then show ?thesis using e by (simp add: wraps_in_block_def s_def)
    next
      case False
      then have e': "(tail - 1) mod n = s + k - n" using e mod_once [of n "s + k"] \<open>s < n\<close> n by simp
      have "s + k - n + 31 < s" using False n \<open>s < n\<close> by simp
      then have "(s + k - n) div 32 < s div 32"
        using div_le_mono [of "s + k - n + 32" s 32] by simp
      then show ?thesis using e' by (simp add: wraps_in_block_def s_def)
    qed
  qed
  then show ?thesis by (simp add: batch_safe_def Let_def fua_def n_def tail_def)
qed

text \<open>
  A configuration is what the reader has taken, the reassembler and its output. \<open>assembling
  S c strict x\<close>: \<open>x\<close> is reached from a new reassembler and an empty stream of capacity
  \<open>c\<close> by inserting pieces of \<open>S\<close> (at most \<open>c - 31\<close> bytes each, the last-substring flag
  only on pieces that end \<open>S\<close>) and by reading. With \<open>strict\<close>, a piece flagged as the last
  one is not empty and ends inside the window when it is inserted.
\<close>

type_synonym assembly = "byte list \<times> reassembler \<times> byte_stream"

inductive assembling :: "byte list \<Rightarrow> nat \<Rightarrow> bool \<Rightarrow> assembly \<Rightarrow> bool" for S c strict where
  start: "assembling S c strict ([], Reassembler, ByteStream c)"
| insert: "\<lbrakk>assembling S c strict (got, r, out); piece_of S f d; length d + 31 \<le> c;
     fin \<Longrightarrow> f + length d = length S;
     fin \<and> strict \<Longrightarrow> d \<noteq> [] \<and> f + length d \<le> window_end r out;
     reassembler_insert r f d fin out = Inr (r', out')\<rbrakk>
     \<Longrightarrow> assembling S c strict (got, r', out')"
| read: "assembling S c strict (got, r, out)
     \<Longrightarrow> assembling S c strict (got @ take n (peek out), r, reader_pop out n)"

inductive_simps assembling_simps: "assembling S c strict (got, r, out)"

definition assembly_inv :: "byte list \<Rightarrow> nat \<Rightarrow> assembly \<Rightarrow> bool" where
  "assembly_inv S c x = (case x of (got, r, out) \<Rightarrow>
     reassembler_inv r out \<and> stream_capacity out = c \<and> first_unassembled r \<le> length S
     \<and> got @ peek out = take (first_unassembled r) S \<and> agrees (held r) S
     \<and> total_popped out = length got
     \<and> (is_closed out \<longrightarrow> reach_end r)
     \<and> (reach_end r \<and> first_unassembled r = length S \<longrightarrow> is_closed out))"

definition end_known :: "byte list \<Rightarrow> assembly \<Rightarrow> bool" where
  "end_known S x = (case x of (got, r, out) \<Rightarrow>
     (reach_end r \<longrightarrow> S \<noteq> [] \<and> length S - 1 \<in> known (first_unassembled r) (held r))
     \<and> (is_closed out \<longrightarrow> first_unassembled r = length S))"

lemma inv_held_dom: "reassembler_inv r out \<Longrightarrow> dom (held r) \<subseteq> {first_unassembled r<..<window_end r out}"
  by (auto simp: reassembler_inv_def unused_def held_def readyD(5) dest!: readyD(5))

lemma inv_reader_pop:
  assumes "reassembler_inv r out"
  shows "reassembler_inv r (reader_pop out n)" "window_end r out \<le> window_end r (reader_pop out n)"
proof -
  note s = inv_stream(1) [OF assms]
  note pop = reader_pop_spec [OF s, of n]
  show w: "window_end r out \<le> window_end r (reader_pop out n)"
    using available_capacity_peek(1) [OF s] available_capacity_peek(1) [OF pop(1)] pop(2,3)
    by (simp add: window_end_def)
  show "reassembler_inv r (reader_pop out n)"
  proof (cases "unused r out")
    case True
    then show ?thesis using pop by (simp add: reassembler_inv_def unused_def)
  next
    case False
    with assms have rd: "ready r out" by (simp add: reassembler_inv_def)
    have "dom (held r) \<subseteq> {first_unassembled r<..<window_end r (reader_pop out n)}"
      using readyD(5) [OF rd] w by fastforce
    then have "ready r (reader_pop out n)"
      using readyD [OF rd] pop by (simp add: ready_def)
    then show ?thesis by (simp add: reassembler_inv_def)
  qed
qed


lemma assembly_start:
  assumes "c < 2 ^ 62"
  shows "assembly_inv S c ([], Reassembler, ByteStream c)"
    and "end_known S ([], Reassembler, ByteStream c)"
  using assms unused_new [of c]
  by (simp_all add: assembly_inv_def end_known_def reassembler_inv_def Reassembler_def held_def
      agrees_def)

lemma insert_runs:
  assumes inv: "assembly_inv S c (got, r, out)" and p: "piece_of S f d" "length d + 31 \<le> c"
    and small: "length S < 2 ^ 62" "c < 2 ^ 62"
  obtains r' out' where "reassembler_insert r f d fin out = Inr (r', out')"
    "insert_meets_spec r out f d fin r' out'"
proof -
  have ri: "reassembler_inv r out" and cap: "stream_capacity out = c" "first_unassembled r \<le> length S"
    using inv by (simp_all add: assembly_inv_def)
  have len: "f < 2 ^ 64" "length d < 2 ^ 62" using p small by (simp_all add: piece_of_def)
  have "window_end r out \<le> 2 ^ 63"
    using inv_stream(3) [OF ri] cap small by (simp add: window_end_def)
  moreover have "batch_safe r out f d" using p(2) cap by (intro small_insert_safe) simp
  ultimately show thesis using insert_refines [OF ri len] that by metis
qed

lemma assembly_insert:
  assumes inv: "assembly_inv S c (got, r, out)" and p: "piece_of S f d"
    and m: "insert_meets_spec r out f d fin r' out'"
  shows "assembly_inv S c (got, r', out')"
    and "first_unassembled r \<le> first_unassembled r'"
    and "known (first_unassembled r') (held r') =
       known (first_unassembled r) (held r) \<union> {f..<min (f + length d) (window_end r out)}"
proof -
  have ri: "reassembler_inv r out" and i: "stream_capacity out = c" "first_unassembled r \<le> length S"
    "got @ peek out = take (first_unassembled r) S" "agrees (held r) S" "total_popped out = length got"
    "is_closed out \<longrightarrow> reach_end r" "reach_end r \<and> first_unassembled r = length S \<longrightarrow> is_closed out"
    using inv by (simp_all add: assembly_inv_def)
  obtain new where new: "spec_insert (first_unassembled r) (held r) (window_end r out) f d
      = (first_unassembled r', held r', new)" "peek out' = peek out @ new"
    using m by (auto simp: insert_meets_spec_def)
  note sp = spec_insert_piece [OF i(4) p i(2) inv_held_dom [OF ri] new(1)]
  have rd: "ready r' out'" using m by (simp add: insert_meets_spec_def)
  have none: "held r' = Map.empty" if "first_unassembled r' = length S"
  proof -
    have "dom (held r') = {}" using readyD(5) [OF rd] sp(4) that by (fastforce simp: agrees_def)
    then show ?thesis by simp
  qed
  have pk: "got @ peek out' = take (first_unassembled r') S"
    unfolding new(2) append_assoc [symmetric] i(3) using sp(3) .
  show "assembly_inv S c (got, r', out')"
    using m rd i sp(2,4) pk none
    by (auto simp: assembly_inv_def reassembler_inv_def insert_meets_spec_def)
  show "first_unassembled r \<le> first_unassembled r'" by (rule sp(1))
  show "known (first_unassembled r') (held r') =
       known (first_unassembled r) (held r) \<union> {f..<min (f + length d) (window_end r out)}"
    by (rule sp(5))
qed

lemma end_known_insert:
  assumes inv: "assembly_inv S c (got, r, out)" and p: "piece_of S f d"
    and m: "insert_meets_spec r out f d fin r' out'" and e: "end_known S (got, r, out)"
    and fin: "fin \<Longrightarrow> f + length d = length S" "fin \<Longrightarrow> d \<noteq> [] \<and> f + length d \<le> window_end r out"
  shows "end_known S (got, r', out')"
proof -
  note a = assembly_insert [OF inv p m]
  have i': "first_unassembled r' \<le> length S" "agrees (held r') S"
    using a(1) by (simp_all add: assembly_inv_def)
  have reach: "reach_end r' = (reach_end r \<or> fin)"
    and closed: "is_closed out' = (is_closed out \<or> (reach_end r' \<and> held r' = Map.empty))"
    using m by (simp_all add: insert_meets_spec_def)
  have k: "S \<noteq> [] \<and> length S - 1 \<in> known (first_unassembled r') (held r')" if "reach_end r'"
  proof (cases "reach_end r")
    case True
    then show ?thesis using e a(3) by (auto simp: end_known_def)
  next
    case False
    then have fin': "fin" using that reach by simp
    then have "length S - 1 \<in> {f..<min (f + length d) (window_end r out)}" "S \<noteq> []"
      using fin by (cases d; force)+
    then show ?thesis using a(3) by simp
  qed
  moreover have "first_unassembled r' = length S" if "is_closed out'"
  proof (cases "is_closed out")
    case True
    then have "first_unassembled r = length S" using e by (simp add: end_known_def)
    then show ?thesis using a(2) i' by simp
  next
    case False
    then have h: "reach_end r'" "held r' = Map.empty" using that closed by auto
    then have "length S - 1 < first_unassembled r'" "S \<noteq> []" using k by (auto simp: known_def)
    then show ?thesis using i' by (cases S) auto
  qed
  ultimately show ?thesis by (simp add: end_known_def)
qed

lemma assembly_read:
  assumes inv: "assembly_inv S c (got, r, out)" and small: "length S < 2 ^ 62"
  shows "assembly_inv S c (got @ take n (peek out), r, reader_pop out n)"
proof -
  have ri: "reassembler_inv r out" using inv by (simp add: assembly_inv_def)
  note pop = reader_pop_spec [OF inv_stream(1) [OF ri], of n]
  have all: "got @ peek out = take (first_unassembled r) S" using inv by (simp add: assembly_inv_def)
  then have "length got + length (peek out) \<le> length S"
    by (metis length_append length_take min.cobounded1)
  then have "total_popped (reader_pop out n) = length (got @ take n (peek out))"
    using inv small pop(6) by (simp add: assembly_inv_def wrap_simps min.commute)
  moreover have "(got @ take n (peek out)) @ peek (reader_pop out n) = take (first_unassembled r) S"
    using pop(2) all by simp
  ultimately show ?thesis
    using inv pop inv_reader_pop(1) [OF ri] by (simp add: assembly_inv_def is_closed_def)
qed

lemma assembling_inv:
  assumes "assembling S c strict x" and small: "length S < 2 ^ 62" "c < 2 ^ 62"
  shows "assembly_inv S c x \<and> (strict \<longrightarrow> end_known S x)"
  using assms(1)
proof induction
  case start
  then show ?case using assembly_start [OF small(2), of S] by simp
next
  case (insert got r out f d fin r' out')
  then have inv: "assembly_inv S c (got, r, out)" by simp
  obtain r1 out1 where 1: "reassembler_insert r f d fin out = Inr (r1, out1)"
    "insert_meets_spec r out f d fin r1 out1"
    using insert_runs [OF inv insert.hyps(2,3) small] .
  then have m: "insert_meets_spec r out f d fin r' out'" using insert.hyps(6) by simp
  show ?case
    using assembly_insert(1) [OF inv insert.hyps(2) m] end_known_insert [OF inv insert.hyps(2) m]
      insert.IH insert.hyps(4,5) by blast
next
  case (read got r out n)
  then have inv: "assembly_inv S c (got, r, out)" by simp
  have "is_closed (reader_pop out n) = is_closed out"
    using reader_pop_spec(4) [OF inv_stream(1), of r out n] inv by (simp add: is_closed_def assembly_inv_def)
  then show ?case using assembly_read [OF inv small(1)] read.IH by (simp add: end_known_def)
qed

section \<open>Properties of the reassembler\<close>

lemma run_from_none: "m i = None \<Longrightarrow> run_from k m i = []"
  by (cases k) simp_all

text \<open>A small run for the witnesses: two of three bytes inserted and read.\<close>

lemma assembling_example:
  obtains r out where "assembling [5, 6, 7] 34 strict ([5, 6], r, out)" "first_unassembled r = 2"
proof -
  have inv: "assembly_inv [5, 6, 7] 34 ([], Reassembler, ByteStream 34)" by (rule assembly_start) simp
  have p: "piece_of [5, 6, 7] 0 [5, 6]" by (simp add: piece_of_def)
  obtain r out where 1: "reassembler_insert Reassembler 0 [5, 6] False (ByteStream 34) = Inr (r, out)"
    "insert_meets_spec Reassembler (ByteStream 34) 0 [5, 6] False r out"
    by (rule insert_runs [OF inv p]) simp_all
  have "available_capacity (ByteStream 34) = 34" "first_unassembled Reassembler = 0" "held Reassembler = Map.empty"
    using available_capacity_peek(1) [of "ByteStream 34"] by (simp_all add: Reassembler_def held_def)
  then have r: "first_unassembled r = 2" "peek out = [5, 6]"
    using 1(2) by (auto simp: insert_meets_spec_def spec_insert_def window_end_def Let_def run_from_none)
  have "assembling [5, 6, 7] 34 strict ([], r, out)"
    by (rule assembling.insert [OF assembling.start p _ _ _ 1(1)]) simp_all
  from assembling.read [OF this, of 2] show thesis using that r by simp
qed

text \<open>
  \<open>C1\<close>: \<open>Reassembler::insert\<close> implements the abstract reassembler. On a reassembler in its
  invariant, unless the batch operation of the bitmap is called on a range that wraps inside
  one block, \<open>insert\<close> never fails, assembles exactly the bytes the abstract insertion
  assembles, keeps exactly the early bytes that one keeps, appends the assembled bytes to
  the output, counts the pending bytes, and closes the output exactly when the last
  substring has been seen and nothing is pending.
\<close>

theorem insert_implements_spec:
  assumes "reassembler_inv r out" and "f < 2 ^ 64" and "length d < 2 ^ 62"
    and "window_end r out \<le> 2 ^ 63" and "batch_safe r out f d"
  shows "\<exists>r' out' new. reassembler_insert r f d fin out = Inr (r', out')
    \<and> reassembler_inv r' out'
    \<and> spec_insert (first_unassembled r) (held r) (window_end r out) f d = (first_unassembled r', held r', new)
    \<and> peek out' = peek out @ new
    \<and> bytes_pending r' = card (dom (held r'))
    \<and> is_closed out' = (is_closed out \<or> ((reach_end r \<or> fin) \<and> held r' = Map.empty))"
proof -
  obtain r' out' where "reassembler_insert r f d fin out = Inr (r', out')"
    "insert_meets_spec r out f d fin r' out'" by (rule insert_refines [OF assms])
  moreover from this have "bytes_pending r' = card (dom (held r'))"
    by (auto simp: insert_meets_spec_def bytes_pending_def dest: readyD(6))
  ultimately show ?thesis by (auto simp: insert_meets_spec_def reassembler_inv_def)
qed

theorem insert_implements_spec_witness:
  "\<exists>r' out' new. reassembler_insert Reassembler 2 [7, 8] True (ByteStream 64) = Inr (r', out')
    \<and> reassembler_inv r' out'
    \<and> spec_insert (first_unassembled Reassembler) (held Reassembler) (window_end Reassembler (ByteStream 64)) 2 [7, 8]
        = (first_unassembled r', held r', new)
    \<and> peek out' = peek (ByteStream 64) @ new
    \<and> bytes_pending r' = card (dom (held r'))
    \<and> is_closed out' = (is_closed (ByteStream 64) \<or> ((reach_end Reassembler \<or> True) \<and> held r' = Map.empty))"
proof (rule insert_implements_spec)
  have "unused Reassembler (ByteStream 64)" by (rule unused_new) simp
  then show "reassembler_inv Reassembler (ByteStream 64)" by (simp add: reassembler_inv_def)
  show "batch_safe Reassembler (ByteStream 64) 2 [7, 8]" by (rule small_insert_safe) simp
  show "window_end Reassembler (ByteStream 64) \<le> 2 ^ 63"
    by (simp add: window_end_def run_simps cong: by_value)
qed simp_all

text \<open>
  \<open>C2\<close>: whatever pieces of a stream \<open>S\<close> arrive, each at least 31 bytes shorter than the capacity
  \<open>c\<close> of the output, in whatever order and however often, what the reader has taken followed by
  what the output still holds is exactly the first part of \<open>S\<close>, up to the first unassembled
  index: nothing is lost, duplicated, reordered or made up. The bytes held early are bytes of \<open>S\<close>,
  and the counters are exact. (With longer pieces the batch operation of the bitmap can fail:
  \<open>stale_byte_delivered\<close> below. A TCP segment has at most 1000 bytes, so a capacity of 1031 will do.)
\<close>

theorem assembled_is_prefix:
  assumes "assembling S c strict (got, r, out)" and "length S < 2 ^ 62" and "c < 2 ^ 62"
  shows "got @ peek out = take (first_unassembled r) S \<and> first_unassembled r \<le> length S
    \<and> (\<forall>j b. held r j = Some b \<longrightarrow> first_unassembled r < j \<and> j < length S \<and> b = S ! j)
    \<and> bytes_pending r = card (dom (held r)) \<and> bytes_popped out = length got"
proof -
  have inv: "assembly_inv S c (got, r, out)" using assembling_inv [OF assms] by simp
  then have ri: "reassembler_inv r out" and ag: "agrees (held r) S"
    by (simp_all add: assembly_inv_def)
  have "\<forall>j b. held r j = Some b \<longrightarrow> first_unassembled r < j \<and> j < length S \<and> b = S ! j"
    using inv_held_dom [OF ri] ag by (fastforce simp: agrees_def)
  moreover have "bytes_pending r = card (dom (held r))"
    using ri by (auto simp: reassembler_inv_def bytes_pending_def unused_def held_def dest: readyD(6))
  ultimately show ?thesis using inv by (auto simp: assembly_inv_def bytes_popped_def)
qed

theorem assembled_is_prefix_witness:
  "\<exists>r out. assembling [5, 6, 7] 34 False ([5, 6], r, out)
    \<and> [5, 6] @ peek out = take (first_unassembled r) [5, 6, 7]
    \<and> first_unassembled r \<le> length [5, 6, 7 :: byte]"
proof -
  obtain r out where a: "assembling [5, 6, 7] 34 False ([5, 6], r, out)"
    by (rule assembling_example [of False])
  have "length [5, 6, 7 :: byte] < 2 ^ 62" "(34 :: nat) < 2 ^ 62" by simp_all
  from assembled_is_prefix [OF a this] a show ?thesis by blast
qed

text \<open>
  \<open>C21\<close>: as long as every piece of the stream, the present one included, is at least 31 bytes
  shorter than the capacity of the output, no insertion fails or runs forever, and no byte that
  fits in the window is lost: the bytes known afterwards (assembled or held) are those known
  before and those of the piece that lie before the end of the window.
\<close>

theorem insertion_succeeds:
  assumes "assembling S c strict (got, r, out)" and "length S < 2 ^ 62" and "c < 2 ^ 62"
    and "piece_of S f d" and "length d + 31 \<le> c"
  shows "\<exists>r' out'. reassembler_insert r f d fin out = Inr (r', out')
    \<and> known (first_unassembled r') (held r') =
        known (first_unassembled r) (held r) \<union> {f..<min (f + length d) (window_end r out)}"
proof -
  have inv: "assembly_inv S c (got, r, out)" using assembling_inv [OF assms(1-3)] by simp
  obtain r' out' where "reassembler_insert r f d fin out = Inr (r', out')"
    "insert_meets_spec r out f d fin r' out'" using insert_runs [OF inv assms(4,5,2,3)] .
  then show ?thesis using assembly_insert(3) [OF inv assms(4)] by blast
qed

theorem insertion_succeeds_witness:
  "\<exists>r out r' out'. assembling [5, 6, 7] 34 False ([5, 6], r, out)
    \<and> reassembler_insert r 1 [6, 7] True out = Inr (r', out')
    \<and> known (first_unassembled r') (held r') =
        known (first_unassembled r) (held r) \<union> {1..<min (1 + length [6, 7 :: byte]) (window_end r out)}"
proof -
  obtain r out where a: "assembling [5, 6, 7] 34 False ([5, 6], r, out)"
    by (rule assembling_example [of False])
  have "length [5, 6, 7 :: byte] < 2 ^ 62" "(34 :: nat) < 2 ^ 62" "piece_of [5, 6, 7] 1 [6, 7]"
    "length [6, 7 :: byte] + 31 \<le> 34" by (simp_all add: piece_of_def)
  from insertion_succeeds [OF a this, of True] a show ?thesis by blast
qed

text \<open>
  \<open>C22\<close>: when every piece is at least 31 bytes shorter than the capacity of the output, and every
  piece flagged as the last one is not empty and fits in the window as it arrives, the output is
  closed exactly when the end of the stream has been seen and every byte of it has been assembled.
\<close>

theorem closes_exactly_at_end:
  assumes "assembling S c True (got, r, out)" and "length S < 2 ^ 62" and "c < 2 ^ 62"
  shows "is_closed out = (reach_end r \<and> first_unassembled r = length S)"
proof -
  have "assembly_inv S c (got, r, out)" "end_known S (got, r, out)"
    using assembling_inv [OF assms] by simp_all
  then have "is_closed out \<longrightarrow> reach_end r" "is_closed out \<longrightarrow> first_unassembled r = length S"
    "reach_end r \<and> first_unassembled r = length S \<longrightarrow> is_closed out"
    unfolding assembly_inv_def end_known_def prod.case by blast+
  then show ?thesis by blast
qed

theorem closes_exactly_at_end_witness:
  "\<exists>r out. assembling [5, 6, 7] 34 True ([5, 6], r, out)
    \<and> is_closed out = (reach_end r \<and> first_unassembled r = length [5, 6, 7 :: byte])"
proof -
  obtain r out where a: "assembling [5, 6, 7] 34 True ([5, 6], r, out)"
    by (rule assembling_example [of True])
  have "length [5, 6, 7 :: byte] < 2 ^ 62" "(34 :: nat) < 2 ^ 62" by simp_all
  from closes_exactly_at_end [OF a this] a show ?thesis by blast
qed

text \<open>
  Without that condition the output can be closed early. An empty last substring
  beyond a gap, or one that lies wholly outside the window, closes the output of a new
  reassembler although no byte has been assembled.
\<close>

theorem closes_too_early:
  "andthen (reassembler_insert Reassembler 5 [] True (ByteStream 8)) (\<lambda>(r, out).
     Inr (first_unassembled r, is_closed out)) = Inr (0, True)
   \<and> andthen (reassembler_insert Reassembler 8 [1] True (ByteStream 8)) (\<lambda>(r, out).
     Inr (first_unassembled r, is_closed out)) = Inr (0, True)"
proof -
  let ?r = "\<lparr>first_unassembled = 0, pending_count = 0, reach_end = True, buffer_size = 8,
     sliding_window = replicate 8 0, window_bitmap = Bitmap 8\<rparr>"
  have "reassembler_insert Reassembler 5 [] True (ByteStream 8) = Inr (?r, writer_close (ByteStream 8))"
    "reassembler_insert Reassembler 8 [1] True (ByteStream 8) = Inr (?r, writer_close (ByteStream 8))"
    by (simp_all add: run_simps cong: by_value)
  then show ?thesis by simp
qed

text \<open>
  A run in which the batch operation clears nothing. Four pieces of the stream 97, 98, 99, 100 go
  through a stream of capacity 2; the reader takes 97, 98 and 99, and then finds 100 followed by
  the old 99 in a closed stream, five bytes in all.
\<close>

theorem stale_byte_delivered:
  "andthen (reassembler_insert Reassembler 0 [97] False (ByteStream 2)) (\<lambda>(r1, out1).
   andthen (reassembler_insert r1 2 [99] False (reader_pop out1 1)) (\<lambda>(r2, out2).
   andthen (reassembler_insert r2 1 [98, 99] False out2) (\<lambda>(r3, out3).
   andthen (reassembler_insert r3 3 [100] True (reader_pop out3 2)) (\<lambda>(r4, out4).
   Inr (peek out1, peek out3, peek out4, first_unassembled r4, is_closed out4)))))
   = Inr ([97], [98, 99], [100, 99], 5, True)"
proof -
  let ?b = "\<lambda>w p q. \<lparr>buf_capacity = 2, buf_array = w, write_index = p, read_index = q\<rparr>"
  let ?s = "\<lambda>fl p q b. \<lparr>stream_capacity = 2, flags = fl, total_pushed = p, total_popped = q, buffer = b\<rparr>"
  let ?r = "\<lambda>fua p e win w. \<lparr>first_unassembled = fua, pending_count = p, reach_end = e, buffer_size = 2,
     sliding_window = win, window_bitmap = \<lparr>blocks = [w], element_capacity = 2, array_size = 1\<rparr>\<rparr>"
  have "reassembler_insert Reassembler 0 [97] False (ByteStream 2)
      = Inr (?r 1 0 False [0, 0] 0, ?s 0 1 0 (?b [97, 0] 1 0))"
    by (simp add: run_simps cong: by_value)
  moreover have "reader_pop (?s 0 1 0 (?b [97, 0] 1 0)) 1 = ?s 0 1 1 (?b [97, 0] 1 1)"
    by (simp add: run_simps cong: by_value)
  moreover have "reassembler_insert (?r 1 0 False [0, 0] 0) 2 [99] False (?s 0 1 1 (?b [97, 0] 1 1))
      = Inr (?r 1 1 False [99, 0] 1, ?s 0 1 1 (?b [97, 0] 1 1))"
    by (simp add: run_simps cong: by_value)
  moreover have "reassembler_insert (?r 1 1 False [99, 0] 1) 1 [98, 99] False (?s 0 1 1 (?b [97, 0] 1 1))
      = Inr (?r 3 1 False [99, 0] 1, ?s 0 3 1 (?b [98, 99] 2 0))"
    by (simp add: run_simps cong: by_value)
  moreover have "reader_pop (?s 0 3 1 (?b [98, 99] 2 0)) 2 = ?s 0 3 3 (?b [98, 99] 2 2)"
    by (simp add: run_simps cong: by_value)
  moreover have "reassembler_insert (?r 3 1 False [99, 0] 1) 3 [100] True (?s 0 3 3 (?b [98, 99] 2 2))
      = Inr (?r 5 0 True [99, 0] 0, ?s 1 5 3 (?b [100, 99] 2 0))"
    by (simp add: run_simps cong: by_value)
  ultimately show ?thesis
    by (simp add: peek_def toStringView_def bytesBuffered_def wsub_def is_closed_def EOF_FLAG_def
        cong: by_value)
qed

section \<open>Pieces as long as a small window\<close>








end
