(* ===== verification/TCP_Messages.thy ===== *)
theory TCP_Messages
  imports Wrapping_Integers
begin

text \<open>
  \<open>src/util/tcp_sender_message.hh\<close>, \<open>tcp_receiver_message.hh\<close>, \<open>buffer.hh\<close> and
  \<open>tcp_config.hh\<close>: the segments a TCP sender and a TCP receiver exchange. A \<open>Buffer\<close> is a
  shared immutable string, here the list of its bytes. Absolute sequence numbers are
  64-bit counters; \<open>wrap_abs\<close> and \<open>unwrap_abs\<close> are \<open>Wrap32::wrap\<close> and
  \<open>Wrap32::unwrap\<close> on them.
\<close>

section \<open>Messages\<close>

record tcp_sender_message =
  seqno :: wrap32
  SYN :: bool
  payload :: "byte list"
  FIN :: bool

definition TCPSenderMessage :: tcp_sender_message where
  "TCPSenderMessage = \<lparr>seqno = Wrap32 0, SYN = False, payload = [], FIN = False\<rparr>"

definition sequence_length :: "tcp_sender_message \<Rightarrow> nat" where
  "sequence_length m = add64 (add64 (of_bool (SYN m)) (length (payload m))) (of_bool (FIN m))"

record tcp_sender_message_wrapper =
  msg :: tcp_sender_message
  is_retransmitted :: bool

record tcp_receiver_message =
  ackno :: "wrap32 option"
  window_field :: nat

text \<open>\<open>src/util/tcp_config.hh\<close>.\<close>

definition DEFAULT_CAPACITY :: nat where "DEFAULT_CAPACITY = 64000"

definition MAX_PAYLOAD_SIZE :: nat where
  "MAX_PAYLOAD_SIZE = 1000"

definition TIMEOUT_DFLT :: "16 word" where "TIMEOUT_DFLT = 1000"
definition MAX_RETX_ATTEMPTS :: nat where "MAX_RETX_ATTEMPTS = 8"

record tcp_config =
  rt_timeout :: "16 word"
  recv_capacity :: nat
  send_capacity :: nat
  fixed_isn :: "wrap32 option"

definition TCPConfig :: tcp_config where
  "TCPConfig = \<lparr>rt_timeout = TIMEOUT_DFLT, recv_capacity = DEFAULT_CAPACITY,
     send_capacity = DEFAULT_CAPACITY, fixed_isn = None\<rparr>"

definition wrap_abs :: "nat \<Rightarrow> wrap32 \<Rightarrow> wrap32" where
  "wrap_abs n zp = wrap (word_of_nat n) zp"

definition unwrap_abs :: "wrap32 \<Rightarrow> wrap32 \<Rightarrow> nat \<Rightarrow> nat" where
  "unwrap_abs x zp cp = unat (unwrap x zp (word_of_nat cp))"

section \<open>Absolute sequence numbers\<close>

lemma unwrap_abs_less: "unwrap_abs x zp cp < 2 ^ 64"
  using unsigned_less [of "unwrap x zp (word_of_nat cp)"] by (simp add: unwrap_abs_def)

lemma unwrap_wrap_abs:
  assumes "cp < 2 ^ 63" "m < cp + 2 ^ 31" "cp < m + 2 ^ 31"
  shows "unwrap_abs (wrap_abs m zp) zp cp = m"
proof -
  have m: "m < 2 ^ 64" using assms by simp
  have u: "uint (word_of_nat cp :: 64 word) = int cp" "uint (word_of_nat m :: 64 word) = int m"
    using assms(1) m by (simp_all add: unsigned_of_nat take_bit_nat_eq_self)
  have "unwrap (wrap (word_of_nat m) zp) zp (word_of_nat cp) = word_of_nat m"
    by (rule unwrap_recover) (use assms in \<open>simp_all add: u\<close>)
  then show ?thesis using m by (simp add: unwrap_abs_def wrap_abs_def unsigned_of_nat take_bit_nat_eq_self)
qed

lemma wrap_abs_zero: "wrap_abs 0 zp = zp"
  by (cases zp) (simp add: wrap_abs_def wrap_def wrap32_plus_def Wrap32_def)

lemma wrap_abs_plus: "wrap32_plus (wrap_abs n zp) 1 = wrap_abs (Suc n) zp"
  by (simp add: wrap_abs_def wrap_def wrap32_plus_def Wrap32_def ucast_add_down)

lemmas [run_simps] = sequence_length_def TCPSenderMessage_def

end
