(* ===== verification/TCP_Receiver.thy ===== *)
theory TCP_Receiver
  imports Reassembly TCP_Messages
begin

text \<open>
  \<open>src/src/tcp_receiver.hh\<close> and \<open>.cc\<close>: the TCP receiver, which turns segments into
  insertions into the reassembler and its progress into acknowledgments.
\<close>

section \<open>State and operations\<close>

record tcp_receiver =
  initial_seq_num :: "wrap32 option"
  first_unassembled_index :: nat
  meet_FIN :: bool
  rcv_finished :: bool

definition TCPReceiver :: tcp_receiver where
  "TCPReceiver = \<lparr>initial_seq_num = None, first_unassembled_index = 0, meet_FIN = False,
     rcv_finished = False\<rparr>"

definition tcp_receiver_receive :: "tcp_receiver \<Rightarrow> tcp_sender_message \<Rightarrow> reassembler \<Rightarrow> byte_stream \<Rightarrow>
    (tcp_receiver \<times> reassembler \<times> byte_stream) outcome" where
  "tcp_receiver_receive rcv message reasm inbound =
     (let rcv1 = (if SYN message then rcv\<lparr>initial_seq_num := Some (seqno message)\<rparr> else rcv);
          sq = (if SYN message then wrap32_plus (seqno message) 1 else seqno message)
      in case initial_seq_num rcv1 of
           None \<Rightarrow> Inr (rcv1, reasm, inbound)
         | Some isn \<Rightarrow>
             let rcv2 = rcv1\<lparr>meet_FIN := meet_FIN rcv1 \<or> FIN message\<rparr>
             in andthen (reassembler_insert reasm
                           (sub64 (unwrap_abs sq isn (getFirstUnassembledIndex reasm)) 1)
                           (payload message) (FIN message) inbound) (\<lambda>(reasm', inbound').
                Inr (rcv2\<lparr>rcv_finished := rcv_finished rcv2 \<or> (meet_FIN rcv2 \<and> is_closed inbound'),
                          first_unassembled_index := getFirstUnassembledIndex reasm'\<rparr>,
                     reasm', inbound')))"

definition tcp_receiver_send :: "tcp_receiver \<Rightarrow> byte_stream \<Rightarrow> tcp_receiver_message" where
  "tcp_receiver_send rcv inbound =
     \<lparr>ackno = map_option
        (wrap_abs (add64 (add64 (first_unassembled_index rcv) 1) (of_bool (rcv_finished rcv))))
        (initial_seq_num rcv),
      window_field = min (available_capacity inbound) 65535\<rparr>"

section \<open>Segments of a stream\<close>

text \<open>
  A segment at stream index \<open>f\<close> of \<open>S\<close>: with SYN it carries the first bytes and the zero
  point itself, otherwise its sequence number is that of its first byte, which comes after
  the SYN. FIN marks the end of the stream.
\<close>

definition segment_at :: "byte list \<Rightarrow> wrap32 \<Rightarrow> nat \<Rightarrow> tcp_sender_message \<Rightarrow> bool" where
  "segment_at S isn f m \<longleftrightarrow> piece_of S f (payload m)
     \<and> (if SYN m then f = 0 \<and> seqno m = isn else seqno m = wrap_abs (Suc f) isn)
     \<and> (FIN m \<longrightarrow> f + length (payload m) = length S)"

definition segment_of :: "byte list \<Rightarrow> wrap32 \<Rightarrow> tcp_sender_message \<Rightarrow> bool" where
  "segment_of S isn m \<longleftrightarrow> (\<exists>f. segment_at S isn f m)"

lemma segment_atD:
  assumes "segment_at S isn f m"
  shows "piece_of S f (payload m)" "FIN m \<Longrightarrow> f + length (payload m) = length S"
    "SYN m \<Longrightarrow> seqno m = isn"
    "(if SYN m then wrap32_plus (seqno m) 1 else seqno m) = wrap_abs (Suc f) isn"
  using assms wrap_abs_plus [of 0 isn]
  by (auto simp: segment_at_def wrap_abs_zero)

text \<open>The index the receiver computes is the index of the segment.\<close>

lemma receive_index:
  assumes "f \<le> length S" "fua \<le> length S" "length S < 2 ^ 31 - 1"
  shows "sub64 (unwrap_abs (wrap_abs (Suc f) isn) isn fua) 1 = f"
proof -
  have "unwrap_abs (wrap_abs (Suc f) isn) isn fua = Suc f"
    using assms by (intro unwrap_wrap_abs) simp_all
  moreover have "Suc f < 2 ^ 64" using assms by simp
  ultimately show ?thesis by (simp add: wsub_nowrap)
qed

lemma receive_segment:
  assumes seg: "segment_at S isn f m" and S: "length S < 2 ^ 31 - 1"
    and fua: "first_unassembled r \<le> length S"
    and isn: "SYN m \<or> initial_seq_num rcv = Some isn"
  shows "tcp_receiver_receive rcv m r out =
    andthen (reassembler_insert r f (payload m) (FIN m) out) (\<lambda>(r', out').
    Inr (rcv\<lparr>initial_seq_num := Some isn, meet_FIN := meet_FIN rcv \<or> FIN m,
             rcv_finished := rcv_finished rcv \<or> ((meet_FIN rcv \<or> FIN m) \<and> is_closed out'),
             first_unassembled_index := first_unassembled r'\<rparr>, r', out'))"
proof -
  have "f \<le> length S" using segment_atD(1) [OF seg] by (simp add: piece_of_def)
  then have idx: "sub64 (unwrap_abs (wrap_abs (Suc f) isn) isn (first_unassembled r)) 1 = f"
    using fua S by (rule receive_index)
  show ?thesis
  proof (cases "SYN m")
    case True
    then have "wrap32_plus isn 1 = wrap_abs (Suc f) isn" "seqno m = isn"
      using segment_atD(3,4) [OF seg] by simp_all
    then show ?thesis
      using True idx by (simp add: tcp_receiver_receive_def getFirstUnassembledIndex_def)
  next
    case False
    then have "seqno m = wrap_abs (Suc f) isn" "initial_seq_num rcv = Some isn"
      using segment_atD(4) [OF seg] isn by simp_all
    then show ?thesis
      using False idx by (cases rcv) (simp add: tcp_receiver_receive_def getFirstUnassembledIndex_def)
  qed
qed

lemma receive_unsynchronized:
  "initial_seq_num rcv = None \<Longrightarrow> \<not> SYN m \<Longrightarrow> tcp_receiver_receive rcv m r out = Inr (rcv, r, out)"
  by (simp add: tcp_receiver_receive_def)

section \<open>Runs of the receiver\<close>

text \<open>
  \<open>receiving S isn c x\<close>: \<open>x\<close> is reached from a new receiver with a stream of capacity
  \<open>c\<close> by segments of \<open>S\<close> in any order and with repetitions, and by reading.
\<close>

type_synonym reception = "byte list \<times> tcp_receiver \<times> reassembler \<times> byte_stream"

inductive receiving :: "byte list \<Rightarrow> wrap32 \<Rightarrow> nat \<Rightarrow> reception \<Rightarrow> bool" for S isn c where
  start: "receiving S isn c ([], TCPReceiver, Reassembler, ByteStream c)"
| segment: "\<lbrakk>receiving S isn c (got, rcv, r, out); segment_of S isn m; length (payload m) + 31 \<le> c;
     tcp_receiver_receive rcv m r out = Inr (rcv', r', out')\<rbrakk>
     \<Longrightarrow> receiving S isn c (got, rcv', r', out')"
| read: "receiving S isn c (got, rcv, r, out)
     \<Longrightarrow> receiving S isn c (got @ take n (peek out), rcv, r, reader_pop out n)"

definition synchronized :: "wrap32 \<Rightarrow> reception \<Rightarrow> bool" where
  "synchronized isn x = (case x of (got, rcv, r, out) \<Rightarrow>
     first_unassembled_index rcv = first_unassembled r
     \<and> (initial_seq_num rcv = None \<or> initial_seq_num rcv = Some isn)
     \<and> meet_FIN rcv = reach_end r
     \<and> rcv_finished rcv = (is_closed out \<and> reach_end r))"

lemma assembling_facts:
  assumes "assembling S c strict (got, r, out)" "length S < 2 ^ 62" "c < 2 ^ 62"
  shows "reassembler_inv r out" "first_unassembled r \<le> length S" "stream_inv out" "stream_capacity out = c"
    "got @ peek out = take (first_unassembled r) S" "agrees (held r) S"
proof -
  have inv: "assembly_inv S c (got, r, out)" using assembling_inv [OF assms] by simp
  then show *: "reassembler_inv r out" "first_unassembled r \<le> length S" "stream_capacity out = c"
    "got @ peek out = take (first_unassembled r) S" "agrees (held r) S"
    by (simp_all add: assembly_inv_def)
  show "stream_inv out" by (rule inv_stream(1) [OF *(1)])
qed

lemma receive_segment_runs:
  assumes a: "assembling S c False (got, r, out)" and syn: "synchronized isn (got, rcv, r, out)"
    and seg: "segment_of S isn m" "length (payload m) + 31 \<le> c"
    and small: "length S < 2 ^ 31 - 1" "c < 2 ^ 62"
  obtains rcv' r' out' where "tcp_receiver_receive rcv m r out = Inr (rcv', r', out')"
    "assembling S c False (got, r', out')" "synchronized isn (got, rcv', r', out')"
    "initial_seq_num rcv' = None \<longleftrightarrow> initial_seq_num rcv = None \<and> \<not> SYN m"
    "initial_seq_num rcv' \<noteq> None \<Longrightarrow>
      \<exists>f. segment_at S isn f m \<and> reassembler_insert r f (payload m) (FIN m) out = Inr (r', out')"
proof (cases "initial_seq_num rcv = None \<and> \<not> SYN m")
  case True
  then show thesis
    using a syn by (intro that [of rcv r out]) (simp_all add: receive_unsynchronized)
next
  case False
  have S: "length S < 2 ^ 62" using small by simp
  obtain f where f: "segment_at S isn f m" using seg(1) by (auto simp: segment_of_def)
  have "SYN m \<or> initial_seq_num rcv = Some isn" using False syn by (auto simp: synchronized_def)
  note rc = receive_segment [OF f small(1) assembling_facts(2) [OF a S small(2)] this]
  have inv: "assembly_inv S c (got, r, out)" using assembling_inv [OF a S small(2)] by simp
  obtain r' out' where ins: "reassembler_insert r f (payload m) (FIN m) out = Inr (r', out')"
    "insert_meets_spec r out f (payload m) (FIN m) r' out'"
    using insert_runs [OF inv segment_atD(1) [OF f] seg(2) S small(2)] .
  let ?rcv = "rcv\<lparr>initial_seq_num := Some isn, meet_FIN := meet_FIN rcv \<or> FIN m,
             rcv_finished := rcv_finished rcv \<or> ((meet_FIN rcv \<or> FIN m) \<and> is_closed out'),
             first_unassembled_index := first_unassembled r'\<rparr>"
  have closed: "is_closed out \<Longrightarrow> is_closed out'" "reach_end r' \<longleftrightarrow> reach_end r \<or> FIN m"
    using ins(2) by (simp_all add: insert_meets_spec_def)
  show thesis
  proof (rule that [of ?rcv r' out'])
    show "assembling S c False (got, r', out')"
      by (rule assembling.insert [OF a segment_atD(1) [OF f] seg(2) segment_atD(2) [OF f] _ ins(1)]) simp_all
    show "synchronized isn (got, ?rcv, r', out')"
      using syn closed by (auto simp: synchronized_def)
    show "tcp_receiver_receive rcv m r out = Inr (?rcv, r', out')" unfolding rc ins(1) by simp
    show "\<exists>f. segment_at S isn f m \<and> reassembler_insert r f (payload m) (FIN m) out = Inr (r', out')"
      using f ins(1) by blast
  qed (use False in simp)
qed

lemma receiving_assembling:
  assumes "receiving S isn c x" and small: "length S < 2 ^ 31 - 1" "c < 2 ^ 62"
  shows "case x of (got, rcv, r, out) \<Rightarrow> assembling S c False (got, r, out) \<and> synchronized isn x"
  using assms(1)
proof induction
  case start
  then show ?case
    using small(2) assembling.start [of S c False]
    by (simp add: synchronized_def) (simp add: TCPReceiver_def Reassembler_def)
next
  case (segment got rcv r out m rcv' r' out')
  then have a: "assembling S c False (got, r, out)" "synchronized isn (got, rcv, r, out)" by simp_all
  show ?case
    by (rule receive_segment_runs [OF a segment.hyps(2,3) small]) (use segment.hyps(4) in simp)
next
  case (read got rcv r out n)
  then have a: "assembling S c False (got, r, out)" "synchronized isn (got, rcv, r, out)" by simp_all
  have S: "length S < 2 ^ 62" using small by simp
  have "is_closed (reader_pop out n) = is_closed out"
    using reader_pop_spec(4) [OF assembling_facts(3) [OF a(1) S small(2)]] by (simp add: is_closed_def)
  then show ?case using a assembling.read [OF a(1)] by (simp add: synchronized_def)
qed

lemmas [run_simps] = tcp_receiver_receive_def tcp_receiver_send_def TCPReceiver_def
  getFirstUnassembledIndex_def

end
