(* ===== verification/TCP_Sender.thy ===== *)
theory TCP_Sender
  imports TCP_Receiver
begin

text \<open>
  \<open>src/src/tcp_sender.hh\<close> and \<open>.cc\<close>: the TCP sender with its retransmission timer. The
  operations, then the invariant that relates the sender's queues, counters and flags to
  the stream it sends, and its preservation. The constructor's random initial sequence
  number is an argument.
\<close>

section \<open>Timer\<close>

record timer =
  is_on :: bool
  initial_RTO_ms :: nat
  RTO_ms :: nat
  timeout_ms :: nat

definition Timer :: "nat \<Rightarrow> timer" where
  "Timer rto = \<lparr>is_on = False, initial_RTO_ms = rto, RTO_ms = rto, timeout_ms = rto\<rparr>"

definition timer_tick :: "timer \<Rightarrow> nat \<Rightarrow> timer" where
  "timer_tick t ms = t\<lparr>timeout_ms := (if timeout_ms t \<le> ms then 0 else sub64 (timeout_ms t) ms)\<rparr>"

definition isOn :: "timer \<Rightarrow> bool" where
  "isOn t = is_on t"

definition hasExpired :: "timer \<Rightarrow> bool outcome" where
  "hasExpired t = andthen (check (is_on t) Assertion) (\<lambda>_. Inr (timeout_ms t = 0))"

definition doubleRTO :: "timer \<Rightarrow> timer outcome" where
  "doubleRTO t = andthen (check (is_on t) Assertion) (\<lambda>_. Inr (t\<lparr>RTO_ms := mul64 (RTO_ms t) 2\<rparr>))"

definition resetRTO :: "timer \<Rightarrow> timer outcome" where
  "resetRTO t = andthen (check (is_on t) Assertion) (\<lambda>_. Inr (t\<lparr>RTO_ms := initial_RTO_ms t\<rparr>))"

definition timer_start :: "timer \<Rightarrow> timer" where
  "timer_start t = t\<lparr>is_on := True, timeout_ms := RTO_ms t\<rparr>"

definition timer_stop :: "timer \<Rightarrow> timer" where
  "timer_stop t = t\<lparr>is_on := False\<rparr>"

section \<open>TCPSender\<close>

record tcp_sender =
  isn :: wrap32
  has_not_sent_SYN :: bool
  has_not_sent_FIN :: bool
  stream_is_finished :: bool
  zero_window_flag :: bool
  unsent_msgs :: "tcp_sender_message_wrapper list"
  unacked_msgs :: "tcp_sender_message list"
  unsent_seqnos :: nat
  unacked_seqnos :: nat
  next_seqno :: nat
  window_size :: nat
  retransmission_num :: nat
  sender_timer :: timer

definition TCPSender :: "nat \<Rightarrow> wrap32 \<Rightarrow> tcp_sender" where
  "TCPSender initial_rto zero =
     \<lparr>isn = zero, has_not_sent_SYN = True, has_not_sent_FIN = True, stream_is_finished = False,
      zero_window_flag = False, unsent_msgs = [], unacked_msgs = [], unsent_seqnos = 0,
      unacked_seqnos = 0, next_seqno = 0, window_size = 1, retransmission_num = 0,
      sender_timer = Timer initial_rto\<rparr>"

definition sequence_numbers_in_flight :: "tcp_sender \<Rightarrow> nat" where
  "sequence_numbers_in_flight s = add32 (unsent_seqnos s) (unacked_seqnos s)"

definition consecutive_retransmissions :: "tcp_sender \<Rightarrow> nat" where
  "consecutive_retransmissions s = retransmission_num s"

text \<open>The test both \<open>push\<close> and \<open>maybe_send\<close> make before they use the window.\<close>

definition window_open :: "tcp_sender \<Rightarrow> bool" where
  "window_open s \<longleftrightarrow> (window_size s = 0 \<and> zero_window_flag s)
     \<or> window_size s > add32 (unacked_seqnos s) (unsent_seqnos s)"

definition maybe_send :: "tcp_sender \<Rightarrow> tcp_sender_message option \<times> tcp_sender" where
  "maybe_send s =
     (case unsent_msgs s of
        [] \<Rightarrow>
          let can_send_FIN = has_not_sent_FIN s \<and> stream_is_finished s
          in if (has_not_sent_SYN s \<or> can_send_FIN) \<and> window_open s then
               let m = TCPSenderMessage\<lparr>SYN := has_not_sent_SYN s, FIN := can_send_FIN,
                         seqno := wrap_abs (next_seqno s) (isn s)\<rparr>;
                   n = of_bool (has_not_sent_SYN s) + of_bool can_send_FIN
               in (Some m,
                   s\<lparr>next_seqno := add64 (next_seqno s) n,
                     unacked_seqnos := add32 (unacked_seqnos s) n,
                     unacked_msgs := unacked_msgs s @ [m],
                     has_not_sent_SYN := False,
                     has_not_sent_FIN := \<not> can_send_FIN,
                     zero_window_flag := zero_window_flag s \<and> window_size s \<noteq> 0,
                     sender_timer := (if isOn (sender_timer s) then sender_timer s
                                      else timer_start (sender_timer s))\<rparr>)
             else (None, s)
      | w # rest \<Rightarrow>
          let m = (if has_not_sent_SYN s then (msg w)\<lparr>SYN := True\<rparr> else msg w);
              seq_length = sequence_length m
          in (Some m,
              s\<lparr>has_not_sent_SYN := False,
                unsent_seqnos := sub32 (unsent_seqnos s) seq_length,
                unacked_seqnos := add32 (unacked_seqnos s) seq_length,
                unsent_msgs := rest,
                unacked_msgs := (if is_retransmitted w then m # unacked_msgs s else unacked_msgs s @ [m]),
                sender_timer := (if isOn (sender_timer s) then sender_timer s
                                 else timer_start (sender_timer s))\<rparr>))"

text \<open>
  The segmentation loop of \<open>push\<close>; \<open>data\<close> is what is left of the view of the stream. Every
  round takes at least one byte, so as many rounds as bytes, and the last test, are enough.
\<close>

fun push_loop :: "nat \<Rightarrow> tcp_sender \<Rightarrow> byte_stream \<Rightarrow> byte list \<Rightarrow> (tcp_sender \<times> byte_stream) outcome" where
  "push_loop 0 s outbound data = Inl Diverges"
| "push_loop (Suc fuel) s outbound data =
     (if data = [] then Inr (s, outbound)
      else if window_open s then
        let data_length = min (if window_size s = 0 then 1
              else sub32 (sub32 (window_size s) (unacked_seqnos s)) (unsent_seqnos s)) MAX_PAYLOAD_SIZE;
            m = \<lparr>seqno = wrap_abs (next_seqno s) (isn s), SYN = False,
                 payload = take data_length data, FIN = False\<rparr>;
            seq_length = sequence_length m
        in push_loop fuel
             (s\<lparr>unsent_msgs := unsent_msgs s @ [\<lparr>msg = m, is_retransmitted = False\<rparr>],
                unsent_seqnos := add32 (unsent_seqnos s) seq_length,
                next_seqno := add64 (next_seqno s) seq_length,
                zero_window_flag := zero_window_flag s \<and> window_size s \<noteq> 0\<rparr>)
             (reader_pop outbound data_length) (drop data_length data)
      else Inr (s, outbound))"

definition set_last_FIN :: "tcp_sender_message_wrapper list \<Rightarrow> bool \<Rightarrow> tcp_sender_message_wrapper list" where
  "set_last_FIN ws b = butlast ws @ [(last ws)\<lparr>msg := (msg (last ws))\<lparr>FIN := b\<rparr>\<rparr>]"

definition attach_FIN :: "tcp_sender \<Rightarrow> byte_stream \<Rightarrow> tcp_sender" where
  "attach_FIN s1 outbound =
     (let s = s1\<lparr>stream_is_finished := is_finished outbound\<rparr>;
          fin_flag = has_not_sent_FIN s \<and> stream_is_finished s
            \<and> window_size s \<ge> add32 (add32 (unacked_seqnos s) (unsent_seqnos s)) 1
      in if unsent_msgs s \<noteq> [] then
           s\<lparr>unsent_msgs := set_last_FIN (unsent_msgs s) fin_flag,
             has_not_sent_FIN := has_not_sent_FIN s \<and> \<not> fin_flag,
             unsent_seqnos := add32 (unsent_seqnos s) (of_bool fin_flag),
             next_seqno := add64 (next_seqno s) (of_bool fin_flag)\<rparr>
         else s)"

definition push :: "tcp_sender \<Rightarrow> byte_stream \<Rightarrow> (tcp_sender \<times> byte_stream) outcome" where
  "push s outbound =
     andthen (push_loop (Suc (length (peek outbound))) s outbound (peek outbound)) (\<lambda>(s', outbound').
     Inr (attach_FIN s' outbound', outbound'))"

definition send_empty_message :: "tcp_sender \<Rightarrow> tcp_sender_message" where
  "send_empty_message s = TCPSenderMessage\<lparr>seqno := wrap_abs (next_seqno s) (isn s)\<rparr>"

text \<open>The loop over the acknowledged segments, with the counter and the \<open>receive_ack\<close> flag.\<close>

fun drop_acked :: "wrap32 \<Rightarrow> nat \<Rightarrow> nat \<Rightarrow> timer \<Rightarrow> tcp_sender_message list \<Rightarrow> nat \<Rightarrow> bool \<Rightarrow>
    (tcp_sender_message list \<times> nat \<times> bool) outcome" where
  "drop_acked zero next ack t [] n acked = Inr ([], n, acked)"
| "drop_acked zero next ack t (m # ms) n acked =
     (let seq_length = sequence_length m
      in if add64 (unwrap_abs (seqno m) zero next) seq_length > ack then Inr (m # ms, n, acked)
         else andthen (check (isOn t) Assertion) (\<lambda>_.
              drop_acked zero next ack t ms (sub32 n seq_length) True))"

definition tcp_sender_receive :: "tcp_sender \<Rightarrow> tcp_receiver_message \<Rightarrow> tcp_sender outcome" where
  "tcp_sender_receive s0 rm =
     (let s = s0\<lparr>window_size := window_field rm, zero_window_flag := (window_field rm = 0)\<rparr>
      in case ackno rm of
           None \<Rightarrow> Inr s
         | Some a \<Rightarrow>
             let absolute_ackno = unwrap_abs a (isn s) (next_seqno s)
             in if absolute_ackno > next_seqno s then Inr s
                else
                  andthen (drop_acked (isn s) (next_seqno s) absolute_ackno (sender_timer s)
                             (unacked_msgs s) (unacked_seqnos s) False) (\<lambda>(rest, n, acked).
                  let s1 = s\<lparr>unacked_msgs := rest, unacked_seqnos := n\<rparr>
                  in if acked then
                       andthen (resetRTO (sender_timer s1)) (\<lambda>t.
                       Inr (s1\<lparr>retransmission_num := 0,
                               sender_timer := (if rest = [] then timer_stop t else timer_start t)\<rparr>))
                     else Inr s1))"

definition tick :: "tcp_sender \<Rightarrow> nat \<Rightarrow> tcp_sender outcome" where
  "tick s ms =
     (if isOn (sender_timer s) then
        let t = timer_tick (sender_timer s) ms
        in andthen (hasExpired t) (\<lambda>expired.
           if expired then
             case unacked_msgs s of
               [] \<Rightarrow> Inl Undefined
             | m # rest \<Rightarrow>
                 let seq_length = sequence_length m;
                     s1 = s\<lparr>unacked_seqnos := sub32 (unacked_seqnos s) seq_length,
                            unsent_seqnos := add32 (unsent_seqnos s) seq_length,
                            unacked_msgs := rest,
                            unsent_msgs := \<lparr>msg = m, is_retransmitted = True\<rparr> # unsent_msgs s\<rparr>
                 in if window_size s \<noteq> 0 then
                      andthen (doubleRTO t) (\<lambda>t'.
                      Inr (s1\<lparr>retransmission_num := add32 (retransmission_num s) 1,
                              sender_timer := timer_start t'\<rparr>))
                    else Inr (s1\<lparr>sender_timer := timer_start t\<rparr>)
           else Inr (s\<lparr>sender_timer := t\<rparr>))
      else Inr s)"

section \<open>Evaluating concrete runs\<close>

lemmas sender_defs [run_simps] = Timer_def timer_tick_def isOn_def hasExpired_def doubleRTO_def resetRTO_def
  timer_start_def timer_stop_def TCPSender_def sequence_numbers_in_flight_def window_open_def
  maybe_send_def set_last_FIN_def attach_FIN_def push_def send_empty_message_def
  tcp_sender_receive_def tick_def MAX_PAYLOAD_SIZE_def

end
