(* ===== verification/Sender_Invariant.thy ===== *)
theory Sender_Invariant
  imports TCP_Sender "HOL-Library.Sublist"
begin

text \<open>
  The invariant of the TCP sender over a stream \<open>S\<close>: the segments in its queues are the
  consecutive segments of \<open>S\<close> between the oldest unacknowledged sequence number and the
  next one, its counters are their lengths, its flags say what has been sent, and its timer
  runs exactly when something sent is unacknowledged. Every operation preserves it when the
  sender is used the way the connection code uses it: everything queued is sent before the
  next \<open>push\<close>, \<open>receive\<close> or \<open>tick\<close>, and no data is pushed before the SYN is sent.
\<close>

section \<open>Consecutive segments\<close>

definition seq_len :: "tcp_sender_message \<Rightarrow> nat" where
  "seq_len m = of_bool (SYN m) + length (payload m) + of_bool (FIN m)"

definition seq_lens :: "tcp_sender_message list \<Rightarrow> nat" where
  "seq_lens ms = sum_list (map seq_len ms)"

lemma seq_lens_simps [simp]:
  "seq_lens [] = 0" "seq_lens (m # ms) = seq_len m + seq_lens ms"
  "seq_lens (ms @ ms') = seq_lens ms + seq_lens ms'"
  by (simp_all add: seq_lens_def)

lemma sequence_length_eq: "seq_len m < 2 ^ 64 \<Longrightarrow> sequence_length m = seq_len m"
  by (simp add: sequence_length_def seq_len_def wadd_nowrap)

definition sent_at :: "byte list \<Rightarrow> wrap32 \<Rightarrow> nat \<Rightarrow> tcp_sender_message \<Rightarrow> bool" where
  "sent_at S z a m \<longleftrightarrow> segment_at S z (a - 1) m \<and> SYN m = (a = 0) \<and> (SYN m \<longrightarrow> payload m = [])
     \<and> length (payload m) \<le> MAX_PAYLOAD_SIZE \<and> 0 < seq_len m"

fun chain :: "byte list \<Rightarrow> wrap32 \<Rightarrow> nat \<Rightarrow> tcp_sender_message list \<Rightarrow> nat \<Rightarrow> bool" where
  "chain S z a [] b \<longleftrightarrow> a = b"
| "chain S z a (m # ms) b \<longleftrightarrow> sent_at S z a m \<and> chain S z (a + seq_len m) ms b"

lemma chain_append: "chain S z a (ms @ ms') b \<longleftrightarrow> (\<exists>k. chain S z a ms k \<and> chain S z k ms' b)"
  by (induction ms arbitrary: a) auto

lemma chain_end: "chain S z a ms b \<Longrightarrow> b = a + seq_lens ms"
proof (induction ms arbitrary: a)
  case (Cons m ms)
  then have "chain S z (a + seq_len m) ms b" by simp
  then have "b = (a + seq_len m) + seq_lens ms" by (rule Cons.IH)
  then show ?case by simp
qed simp

lemma seq_len_le: "m \<in> set ms \<Longrightarrow> seq_len m \<le> seq_lens ms"
  by (induction ms) auto

lemma sent_at_seqno: "sent_at S z a m \<Longrightarrow> seqno m = wrap_abs a z"
  by (auto simp: sent_at_def segment_at_def wrap_abs_zero split: if_splits)

lemma sent_at_segment: "sent_at S z a m \<Longrightarrow> segment_of S z m"
  by (auto simp: sent_at_def segment_of_def)

lemma chain_member: "chain S z a ms b \<Longrightarrow> m \<in> set ms \<Longrightarrow> \<exists>k. sent_at S z k m"
  by (induction ms arbitrary: a) auto

section \<open>The invariant\<close>

definition retransmitting :: "tcp_sender \<Rightarrow> tcp_sender_message list" where
  "retransmitting s = map msg (filter is_retransmitted (unsent_msgs s))"

definition fresh :: "tcp_sender \<Rightarrow> tcp_sender_message list" where
  "fresh s = map msg (filter (\<lambda>w. \<not> is_retransmitted w) (unsent_msgs s))"

definition outbound_ok :: "byte list \<Rightarrow> byte_stream \<Rightarrow> bool" where
  "outbound_ok S out \<longleftrightarrow> stream_inv out \<and> piece_of S (total_popped out) (peek out)
     \<and> (is_closed out \<longrightarrow> total_popped out + length (peek out) = length S)"

definition flags_ok :: "byte list \<Rightarrow> tcp_sender \<Rightarrow> byte_stream \<Rightarrow> bool" where
  "flags_ok S s out \<longleftrightarrow>
     next_seqno s = (if has_not_sent_SYN s then 0
                     else Suc (total_popped out) + of_bool (\<not> has_not_sent_FIN s))
     \<and> (has_not_sent_SYN s \<longrightarrow> total_popped out = 0 \<and> has_not_sent_FIN s
          \<and> unsent_msgs s = [] \<and> unacked_msgs s = [])
     \<and> (\<not> has_not_sent_FIN s \<longrightarrow> total_popped out = length S \<and> is_closed out)
     \<and> (stream_is_finished s \<longrightarrow> is_closed out \<and> peek out = [])"

definition queues_ok :: "byte list \<Rightarrow> nat \<Rightarrow> tcp_sender \<Rightarrow> bool" where
  "queues_ok S una s \<longleftrightarrow>
     chain S (isn s) una (retransmitting s @ unacked_msgs s @ fresh s) (next_seqno s)
     \<and> (\<forall>w \<in> set (tl (unsent_msgs s)). \<not> is_retransmitted w)
     \<and> unacked_seqnos s = seq_lens (unacked_msgs s)
     \<and> unsent_seqnos s = seq_lens (map msg (unsent_msgs s))"

definition timer_ok :: "nat \<Rightarrow> tcp_sender \<Rightarrow> bool" where
  "timer_ok rto s \<longleftrightarrow> isOn (sender_timer s) = (retransmitting s @ unacked_msgs s \<noteq> [])
     \<and> initial_RTO_ms (sender_timer s) = rto \<and> rto < 2 ^ 64 \<and> timeout_ms (sender_timer s) < 2 ^ 64
     \<and> (\<exists>k. retransmission_num s = k mod 2 ^ 32 \<and> RTO_ms (sender_timer s) = (rto * 2 ^ k) mod 2 ^ 64)"

definition sender_inv :: "byte list \<Rightarrow> wrap32 \<Rightarrow> nat \<Rightarrow> nat \<Rightarrow> tcp_sender \<times> byte_stream \<Rightarrow> bool" where
  "sender_inv S z rto una x = (case x of (s, out) \<Rightarrow>
     isn s = z \<and> window_size s < 2 ^ 16
     \<and> outbound_ok S out \<and> flags_ok S s out \<and> queues_ok S una s \<and> timer_ok rto s)"

lemma sender_invD:
  assumes "sender_inv S z rto una (s, out)"
  shows "isn s = z" "window_size s < 2 ^ 16" "outbound_ok S out" "flags_ok S s out" "queues_ok S una s"
    "timer_ok rto s"
  using assms by (simp_all add: sender_inv_def)

lemma split_lens:
  "\<forall>w \<in> set (tl ws). \<not> is_retransmitted w \<Longrightarrow>
   seq_lens (map msg ws) = seq_lens (map msg (filter is_retransmitted ws))
     + seq_lens (map msg (filter (\<lambda>w. \<not> is_retransmitted w) ws))"
  by (cases ws) (auto simp: filter_empty_conv)

lemma inv_bounds:
  assumes inv: "sender_inv S z rto una (s, out)" and S: "length S + 2 < 2 ^ 31"
  shows "next_seqno s \<le> length S + 2" "next_seqno s < 2 ^ 31"
    "una + unsent_seqnos s + unacked_seqnos s = next_seqno s"
    "unsent_seqnos s + unacked_seqnos s < 2 ^ 31"
    "m \<in> set (unacked_msgs s) \<or> m \<in> msg ` set (unsent_msgs s) \<Longrightarrow> sequence_length m = seq_len m"
proof -
  note i = sender_invD [OF inv]
  have pop: "total_popped out \<le> length S" using i(3) by (simp add: outbound_ok_def piece_of_def)
  then show n: "next_seqno s \<le> length S + 2" using i(4) by (auto simp: flags_ok_def)
  then show n': "next_seqno s < 2 ^ 31" using S by simp
  have q: "\<forall>w \<in> set (tl (unsent_msgs s)). \<not> is_retransmitted w"
    "unacked_seqnos s = seq_lens (unacked_msgs s)" "unsent_seqnos s = seq_lens (map msg (unsent_msgs s))"
    "next_seqno s = una + seq_lens (retransmitting s @ unacked_msgs s @ fresh s)"
    using i(5) by (auto simp: queues_ok_def dest: chain_end)
  show sum: "una + unsent_seqnos s + unacked_seqnos s = next_seqno s"
    using q split_lens [OF q(1)] by (simp add: retransmitting_def fresh_def)
  then show "unsent_seqnos s + unacked_seqnos s < 2 ^ 31" using n' by simp
  show "sequence_length m = seq_len m"
    if "m \<in> set (unacked_msgs s) \<or> m \<in> msg ` set (unsent_msgs s)" for m
  proof -
    have "seq_len m \<le> seq_lens (unacked_msgs s) + seq_lens (map msg (unsent_msgs s))"
      using that seq_len_le [of m "unacked_msgs s"] seq_len_le [of m "map msg (unsent_msgs s)"] by auto
    then show ?thesis using sum n' q by (intro sequence_length_eq) simp
  qed
qed


section \<open>maybe_send\<close>

lemma fresh_only:
  assumes "\<forall>w \<in> set (tl (w # ws)). \<not> is_retransmitted w"
  shows "filter is_retransmitted ws = []" "filter (\<lambda>w. \<not> is_retransmitted w) ws = ws"
  using assms by (simp_all add: filter_empty_conv filter_id_conv)

lemma maybe_send_queued:
  assumes inv: "sender_inv S z rto una (s, out)" and S: "length S + 2 < 2 ^ 31"
    and w: "unsent_msgs s = w # ws"
  obtains s' where "maybe_send s = (Some (msg w), s')" "sender_inv S z rto una (s', out)"
    "unsent_msgs s' = ws" "next_seqno s' = next_seqno s" "has_not_sent_SYN s' = has_not_sent_SYN s"
    "window_size s' = window_size s"
    "unacked_seqnos s' + unsent_seqnos s' = unacked_seqnos s + unsent_seqnos s"
proof -
  note i = sender_invD [OF inv]
  have syn: "\<not> has_not_sent_SYN s" using i(4) w by (auto simp: flags_ok_def)
  have q: "chain S z una (retransmitting s @ unacked_msgs s @ fresh s) (next_seqno s)"
    "unacked_seqnos s = seq_lens (unacked_msgs s)" "unsent_seqnos s = seq_lens (map msg (w # ws))"
    and t: "\<forall>w \<in> set (tl (w # ws)). \<not> is_retransmitted w"
    using i(1,5) w by (auto simp: queues_ok_def)
  note fo = fresh_only [OF t]
  have tl: "\<forall>w \<in> set (tl ws). \<not> is_retransmitted w" using t by (cases ws) auto
  have len: "sequence_length (msg w) = seq_len (msg w)" using inv_bounds(5) [OF inv S] w by simp
  note b = inv_bounds(4) [OF inv S]
  have sub: "sub32 (unsent_seqnos s) (seq_len (msg w)) = seq_lens (map msg ws)"
    using q(3) b by (simp add: wsub_nowrap)
  have add: "add32 (unacked_seqnos s) (seq_len (msg w)) = seq_lens (unacked_msgs s) + seq_len (msg w)"
    using q b by (simp add: wadd_nowrap)
  define s' where "s' = s\<lparr>has_not_sent_SYN := False,
                unsent_seqnos := seq_lens (map msg ws),
                unacked_seqnos := seq_lens (unacked_msgs s) + seq_len (msg w),
                unsent_msgs := ws,
                unacked_msgs := (if is_retransmitted w then msg w # unacked_msgs s else unacked_msgs s @ [msg w]),
                sender_timer := (if isOn (sender_timer s) then sender_timer s
                                 else timer_start (sender_timer s))\<rparr>"
  have ms: "maybe_send s = (Some (msg w), s')"
    using syn by (simp add: maybe_send_def w Let_def len sub add s'_def)
  have "flags_ok S s' out" using i(4) syn by (simp add: flags_ok_def s'_def)
  moreover have "queues_ok S una s'"
    using q(1) fo i(1) w tl by (cases "is_retransmitted w")
      (auto simp: queues_ok_def s'_def retransmitting_def fresh_def)
  moreover have "timer_ok rto s'"
    using i(6) fo w by (auto simp: timer_ok_def s'_def retransmitting_def timer_start_def isOn_def)
  ultimately have "sender_inv S z rto una (s', out)"
    using i by (simp add: sender_inv_def s'_def)
  with ms show thesis
    by (intro that [of s']) (use syn q w in \<open>simp_all add: s'_def\<close>)
qed

lemma maybe_send_flags:
  assumes inv: "sender_inv S z rto una (s, out)" and S: "length S + 2 < 2 ^ 31"
    and w: "unsent_msgs s = []"
    and opn: "window_open s" "has_not_sent_SYN s \<or> (has_not_sent_FIN s \<and> stream_is_finished s)"
  obtains m s' where "maybe_send s = (Some m, s')" "sender_inv S z rto una (s', out)"
    "unsent_msgs s' = []" "\<not> has_not_sent_SYN s'" "payload m = []"
    "sent_at S z (next_seqno s) m" "window_size s' = window_size s"
    "SYN m = has_not_sent_SYN s" "FIN m = (has_not_sent_FIN s \<and> stream_is_finished s)"
    "unacked_seqnos s' + unsent_seqnos s' = unacked_seqnos s + unsent_seqnos s + seq_len m"
proof -
  note i = sender_invD [OF inv]
  define fin where "fin = (has_not_sent_FIN s \<and> stream_is_finished s)"
  define m where "m = TCPSenderMessage\<lparr>SYN := has_not_sent_SYN s, FIN := fin,
                         seqno := wrap_abs (next_seqno s) (isn s)\<rparr>"
  have m: "SYN m = has_not_sent_SYN s" "FIN m = fin" "payload m = []" "seqno m = wrap_abs (next_seqno s) z"
    by (simp_all add: m_def TCPSenderMessage_def i(1))
  have len: "seq_len m = of_bool (has_not_sent_SYN s) + of_bool fin" by (simp add: seq_len_def m)
  note b = inv_bounds [OF inv S]
  have pop: "total_popped out \<le> length S" using i(3) by (simp add: outbound_ok_def piece_of_def)
  have complete: "fin \<Longrightarrow> total_popped out = length S \<and> is_closed out"
    using i(3,4) by (auto simp: fin_def flags_ok_def outbound_ok_def)
  have nxt: "next_seqno s = (if has_not_sent_SYN s then 0
                     else Suc (total_popped out) + of_bool (\<not> has_not_sent_FIN s))"
    "has_not_sent_SYN s \<Longrightarrow> total_popped out = 0 \<and> has_not_sent_FIN s"
    using i(4) by (simp_all add: flags_ok_def)
  have fin': "fin \<Longrightarrow> has_not_sent_FIN s" by (simp add: fin_def)
  have sent: "sent_at S z (next_seqno s) m"
    unfolding sent_at_def segment_at_def m piece_of_def
    using nxt complete fin' opn(2) pop wrap_abs_zero [of z]
    by (auto simp: fin_def [symmetric] len seq_len_def m)
  have n: "of_bool (has_not_sent_SYN s) + of_bool fin = seq_len m" by (simp add: len)
  have le: "seq_len m \<le> 2" by (simp add: len)
  have add: "add64 (next_seqno s) (seq_len m) = next_seqno s + seq_len m"
    "add32 (unacked_seqnos s) (seq_len m) = unacked_seqnos s + seq_len m"
    using b(2,4) le by (simp_all add: wadd_nowrap)
  define s' where "s' = s\<lparr>next_seqno := next_seqno s + seq_len m,
                     unacked_seqnos := unacked_seqnos s + seq_len m,
                     unacked_msgs := unacked_msgs s @ [m],
                     has_not_sent_SYN := False,
                     has_not_sent_FIN := \<not> fin,
                     zero_window_flag := zero_window_flag s \<and> window_size s \<noteq> 0,
                     sender_timer := (if isOn (sender_timer s) then sender_timer s
                                      else timer_start (sender_timer s))\<rparr>"
  have ms: "maybe_send s = (Some m, s')"
    unfolding maybe_send_def w list.case Let_def fin_def [symmetric] m_def [symmetric] n add s'_def [symmetric]
    using opn by (simp add: fin_def)
  have "flags_ok S s' out"
    using i(4) nxt complete fin' len w opn(2) by (auto simp: flags_ok_def s'_def fin_def [symmetric])
  moreover have "queues_ok S una s'"
    using i(1,5) w sent by (auto simp: queues_ok_def s'_def retransmitting_def fresh_def chain_append)
  moreover have "timer_ok rto s'"
    using i(6) w by (auto simp: timer_ok_def s'_def retransmitting_def timer_start_def isOn_def)
  ultimately have "sender_inv S z rto una (s', out)"
    using i by (simp add: sender_inv_def s'_def)
  with ms sent show thesis
    by (intro that [of m s']) (use m w in \<open>simp_all add: s'_def fin_def\<close>)
qed

lemma maybe_send_nothing:
  "unsent_msgs s = [] \<Longrightarrow> \<not> (window_open s \<and> (has_not_sent_SYN s \<or> (has_not_sent_FIN s \<and> stream_is_finished s)))
   \<Longrightarrow> maybe_send s = (None, s)"
  by (auto simp add: maybe_send_def Let_def)


section \<open>push\<close>

definition data_segments :: "tcp_sender_message list \<Rightarrow> bool" where
  "data_segments ms \<longleftrightarrow> (\<forall>m \<in> set ms. \<not> SYN m \<and> \<not> FIN m \<and> payload m \<noteq> []
     \<and> length (payload m) \<le> MAX_PAYLOAD_SIZE)"

lemma data_segments_simps [simp]:
  "data_segments []"
  "data_segments (m # ms) \<longleftrightarrow> \<not> SYN m \<and> \<not> FIN m \<and> payload m \<noteq> []
     \<and> length (payload m) \<le> MAX_PAYLOAD_SIZE \<and> data_segments ms"
  by (auto simp: data_segments_def)

definition in_flight :: "tcp_sender \<Rightarrow> nat" where
  "in_flight s = unacked_seqnos s + unsent_seqnos s"

text \<open>One round of the loop.\<close>

definition push_round :: "tcp_sender \<Rightarrow> nat \<Rightarrow> tcp_sender_message \<Rightarrow> tcp_sender" where
  "push_round s k m =
     s\<lparr>unsent_msgs := unsent_msgs s @ [\<lparr>msg = m, is_retransmitted = False\<rparr>],
       unsent_seqnos := unsent_seqnos s + k,
       next_seqno := next_seqno s + k,
       zero_window_flag := zero_window_flag s \<and> window_size s \<noteq> 0\<rparr>"

definition room :: "tcp_sender \<Rightarrow> nat" where
  "room s = (if window_size s = 0 then of_bool (zero_window_flag s) else window_size s - in_flight s)"

lemma window_open_room:
  assumes "sender_inv S z rto una (s, out)" "length S + 2 < 2 ^ 31"
  shows "window_open s \<longleftrightarrow> 0 < room s"
    and "window_open s \<Longrightarrow> (if window_size s = 0 then 1
              else sub32 (sub32 (window_size s) (unacked_seqnos s)) (unsent_seqnos s)) = room s"
proof -
  have b: "unsent_seqnos s + unacked_seqnos s < 2 ^ 31" by (rule inv_bounds(4) [OF assms])
  have w: "window_size s < 2 ^ 16" using assms(1) by (simp add: sender_inv_def)
  have add: "add32 (unacked_seqnos s) (unsent_seqnos s) = in_flight s"
    using b by (simp add: wadd_nowrap in_flight_def)
  show "window_open s \<longleftrightarrow> 0 < room s"
    by (auto simp: window_open_def add room_def)
  show "(if window_size s = 0 then 1
              else sub32 (sub32 (window_size s) (unacked_seqnos s)) (unsent_seqnos s)) = room s"
    if o: "window_open s"
  proof (cases "window_size s = 0")
    case True
    then show ?thesis using o by (simp add: window_open_def room_def)
  next
    case False
    then have "in_flight s < window_size s" using o by (simp add: window_open_def add)
    then show ?thesis using False b w by (simp add: wsub_nowrap room_def in_flight_def)
  qed
qed

lemma push_round_inv:
  assumes inv: "sender_inv S z rto una (s, out)" and S: "length S + 2 < 2 ^ 31"
    and syn: "\<not> has_not_sent_SYN s" and k: "0 < k" "k \<le> length (peek out)" "k \<le> MAX_PAYLOAD_SIZE"
    and n: "min n (length (peek out)) = k"
    and m: "m = \<lparr>seqno = wrap_abs (next_seqno s) (isn s), SYN = False, payload = take k (peek out), FIN = False\<rparr>"
  shows "sender_inv S z rto una (push_round s k m, reader_pop out n)"
proof -
  note i = sender_invD [OF inv]
  have o: "stream_inv out" "piece_of S (total_popped out) (peek out)" using i(3) by (simp_all add: outbound_ok_def)
  note pop = reader_pop_spec [OF o(1), of n]
  have len: "total_popped out + length (peek out) \<le> length S" using o(2) by (simp add: piece_of_def)
  have tp: "total_popped (reader_pop out n) = total_popped out + k"
    using pop(6) n len S k by (simp add: wadd_nowrap)
  have dn: "drop n (peek out) = drop k (peek out)"
    using n by (cases "n \<le> length (peek out)") (auto simp: min_def)
  have p: "piece_of S (total_popped out + k) (drop k (peek out))"
    "piece_of S (total_popped out) (take k (peek out))"
  proof -
    define q where "q = drop (total_popped out) S"
    have pk: "peek out = take (length (peek out)) q" using o(2) by (simp add: piece_of_def q_def)
    have "drop k (peek out) = drop k (take (length (peek out)) q)" using pk by simp
    also have "\<dots> = take (length (drop k (peek out))) (drop k q)" by (simp add: drop_take)
    finally show "piece_of S (total_popped out + k) (drop k (peek out))"
      using len k(2) by (simp add: piece_of_def q_def add.commute)
    have "take k (peek out) = take k (take (length (peek out)) q)" using pk by simp
    also have "\<dots> = take (length (take k (peek out))) q" using k(2) by (simp add: min_def)
    finally show "piece_of S (total_popped out) (take k (peek out))"
      using len k(2) by (simp add: piece_of_def q_def)
  qed
  have fin: "has_not_sent_FIN s" using i(4) k len by (auto simp: flags_ok_def)
  have nxt: "next_seqno s = Suc (total_popped out)" using i(4) syn fin by (simp add: flags_ok_def)
  have sl: "seq_len m = k" using k by (simp add: seq_len_def m)
  have sent: "sent_at S z (next_seqno s) m"
    unfolding sent_at_def segment_at_def using p(2) nxt sl k i(1) by (simp add: m)
  have "outbound_ok S (reader_pop out n)"
    using i(3) pop(1,2,4) tp dn p(1) k by (simp add: outbound_ok_def is_closed_def)
  moreover have "flags_ok S (push_round s k m) (reader_pop out n)"
    using i(4) syn fin tp nxt pop(2,4) k by (auto simp: flags_ok_def push_round_def is_closed_def)
  moreover have "queues_ok S una (push_round s k m)"
  proof -
    have "\<forall>w \<in> set (tl (unsent_msgs s @ [\<lparr>msg = m, is_retransmitted = False\<rparr>])). \<not> is_retransmitted w"
      using i(5) by (cases "unsent_msgs s") (auto simp: queues_ok_def)
    then show ?thesis
      using i(1,5) sent sl
      by (auto simp: queues_ok_def push_round_def retransmitting_def fresh_def chain_append)
  qed
  moreover have "timer_ok rto (push_round s k m)"
    using i(6) by (simp add: timer_ok_def push_round_def retransmitting_def)
  ultimately show ?thesis using i by (simp add: sender_inv_def push_round_def)
qed


lemma push_loop_spec:
  assumes inv: "sender_inv S z rto una (s, out)" and S: "length S + 2 < 2 ^ 31"
    and syn: "\<not> has_not_sent_SYN s \<or> peek out = []" and fuel: "length (peek out) < fuel"
  obtains s' out' ms where "push_loop fuel s out (peek out) = Inr (s', out')"
    "sender_inv S z rto una (s', out')"
    "unsent_msgs s' = unsent_msgs s @ map (\<lambda>m. \<lparr>msg = m, is_retransmitted = False\<rparr>) ms"
    "data_segments ms" "concat (map payload ms) @ peek out' = peek out"
    "length (concat (map payload ms)) = min (length (peek out)) (room s)"
    "in_flight s' = in_flight s + length (concat (map payload ms))"
    "unacked_msgs s' = unacked_msgs s" "window_size s' = window_size s"
    "has_not_sent_SYN s' = has_not_sent_SYN s" "has_not_sent_FIN s' = has_not_sent_FIN s"
    "sender_timer s' = sender_timer s"
  using inv syn fuel
proof (induction fuel arbitrary: s out thesis)
  case 0
  then show ?case by simp
next
  case (Suc fuel)
  note inv = Suc.prems(2)
  note i = sender_invD [OF inv]
  note wo = window_open_room [OF inv S]
  show ?case
  proof (cases "peek out = [] \<or> \<not> window_open s")
    case True
    then have "push_loop (Suc fuel) s out (peek out) = Inr (s, out)" by auto
    moreover have "min (length (peek out)) (room s) = 0" using True wo(1) by auto
    ultimately show ?thesis
      using inv by (intro Suc.prems(1) [of s out "[]"]) simp_all
  next
    case False
    define n where "n = min (room s) MAX_PAYLOAD_SIZE"
    define k where "k = min n (length (peek out))"
    define m where "m = \<lparr>seqno = wrap_abs (next_seqno s) (isn s), SYN = False,
      payload = take n (peek out), FIN = False\<rparr>"
    have r: "0 < room s" using False wo(1) by simp
    then have n: "0 < n" "n \<le> MAX_PAYLOAD_SIZE" by (simp_all add: n_def MAX_PAYLOAD_SIZE_def)
    have k: "0 < k" "k \<le> length (peek out)" "k \<le> MAX_PAYLOAD_SIZE" using n False by (auto simp: k_def)
    have tk: "take n (peek out) = take k (peek out)" "drop n (peek out) = drop k (peek out)"
      by (auto simp: k_def min_def)
    have sl: "seq_len m = k" by (simp add: seq_len_def m_def k_def)
    have len: "sequence_length m = k"
      using k(3) by (simp add: sl MAX_PAYLOAD_SIZE_def flip: sl add: sequence_length_eq)
    have syn: "\<not> has_not_sent_SYN s" using Suc.prems(3) False by simp
    have m': "m = \<lparr>seqno = wrap_abs (next_seqno s) (isn s), SYN = False, payload = take k (peek out), FIN = False\<rparr>"
      by (simp add: m_def tk)
    have inv': "sender_inv S z rto una (push_round s k m, reader_pop out n)"
      by (rule push_round_inv [OF inv S syn k _ m']) (simp add: k_def)
    have o: "stream_inv out" using i(3) by (simp add: outbound_ok_def)
    have pk: "peek (reader_pop out n) = drop k (peek out)" using reader_pop_spec(2) [OF o] tk by simp
    note b = inv_bounds [OF inv S]
    have add: "add32 (unsent_seqnos s) k = unsent_seqnos s + k" "add64 (next_seqno s) k = next_seqno s + k"
      using b(2,4) k(3) by (simp_all add: wadd_nowrap MAX_PAYLOAD_SIZE_def)
    have step: "push_loop (Suc fuel) s out (peek out) =
      push_loop fuel (push_round s k m) (reader_pop out n) (peek (reader_pop out n))"
      using False unfolding push_loop.simps Let_def wo(2) [OF conjunct2 [OF False [unfolded de_Morgan_disj not_not]]]
      by (simp add: n_def [symmetric] tk m' [symmetric] len add push_round_def pk)
    have rm: "in_flight (push_round s k m) = in_flight s + k" "window_size (push_round s k m) = window_size s"
      "zero_window_flag (push_round s k m) = (zero_window_flag s \<and> window_size s \<noteq> 0)"
      by (simp_all add: push_round_def in_flight_def)
    have room': "k + min (length (peek out) - k) (room (push_round s k m)) = min (length (peek out)) (room s)"
    proof (cases "window_size s = 0")
      case True
      then have "room s = 1" "room (push_round s k m) = 0" using r rm by (auto simp: room_def split: if_splits)
      moreover from this have "k \<le> 1" by (simp add: k_def n_def)
      moreover from this k(1) have "k = 1" by simp
      ultimately show ?thesis using k by simp
    next
      case no: False
      then have "room (push_round s k m) = room s - k" using rm by (simp add: room_def)
      moreover have "k \<le> room s" by (simp add: k_def n_def)
      ultimately show ?thesis using k by simp
    qed
    have rest: "has_not_sent_SYN (push_round s k m) = has_not_sent_SYN s"
      "has_not_sent_FIN (push_round s k m) = has_not_sent_FIN s"
      "unacked_msgs (push_round s k m) = unacked_msgs s" "sender_timer (push_round s k m) = sender_timer s"
      "unsent_msgs (push_round s k m) = unsent_msgs s @ [\<lparr>msg = m, is_retransmitted = False\<rparr>]"
      by (simp_all add: push_round_def)
    have f: "length (peek (reader_pop out n)) < fuel" using Suc.prems(4) k pk by simp
    have syn': "\<not> has_not_sent_SYN (push_round s k m) \<or> peek (reader_pop out n) = []"
      using syn rest by simp
    show ?thesis
    proof (rule Suc.IH [OF _ inv' syn' f])
      fix s' out' ms
      assume h: "push_loop fuel (push_round s k m) (reader_pop out n) (peek (reader_pop out n)) = Inr (s', out')"
        "sender_inv S z rto una (s', out')"
        "unsent_msgs s' = unsent_msgs (push_round s k m) @ map (\<lambda>m. \<lparr>msg = m, is_retransmitted = False\<rparr>) ms"
        "data_segments ms" "concat (map payload ms) @ peek out' = peek (reader_pop out n)"
        "length (concat (map payload ms)) = min (length (peek (reader_pop out n))) (room (push_round s k m))"
        "in_flight s' = in_flight (push_round s k m) + length (concat (map payload ms))"
        "unacked_msgs s' = unacked_msgs (push_round s k m)" "window_size s' = window_size (push_round s k m)"
        "has_not_sent_SYN s' = has_not_sent_SYN (push_round s k m)"
        "has_not_sent_FIN s' = has_not_sent_FIN (push_round s k m)"
        "sender_timer s' = sender_timer (push_round s k m)"
      have pm: "payload m = take k (peek out)" "\<not> SYN m" "\<not> FIN m" by (simp_all add: m')
      have lens: "length (concat (map payload (m # ms))) = min (length (peek out)) (room s)"
        using h(6) room' k pm pk by simp
      show ?thesis
      proof (rule Suc.prems(1) [of s' out' "m # ms"])
        show "push_loop (Suc fuel) s out (peek out) = Inr (s', out')" using step h(1) by simp
        show "data_segments (m # ms)" using h(4) pm k by auto
        show "concat (map payload (m # ms)) @ peek out' = peek out" using h(5) pm pk by simp
        show "in_flight s' = in_flight s + length (concat (map payload (m # ms)))"
          using h(7) rm pm k by simp
      qed (use h lens rest rm in simp_all)
    qed
  qed
qed


lemma unsent_all_fresh:
  assumes "unsent_msgs s = map (\<lambda>m. \<lparr>msg = m, is_retransmitted = False\<rparr>) ms"
  shows "fresh s = ms" "retransmitting s = []"
proof -
  have "filter is_retransmitted (unsent_msgs s) = []" by (auto simp: assms filter_empty_conv)
  then show "retransmitting s = []" by (simp add: retransmitting_def)
  have "filter (\<lambda>w. \<not> is_retransmitted w) (unsent_msgs s) = unsent_msgs s" by (auto simp: assms filter_id_conv)
  then show "fresh s = ms" by (simp add: fresh_def assms comp_def)
qed

lemma all_fresh_tl: "\<forall>w \<in> set (tl (map (\<lambda>m. \<lparr>msg = m, is_retransmitted = False\<rparr>) ms)). \<not> is_retransmitted w"
  by (cases ms) auto

lemma sent_at_FIN:
  assumes "sent_at S z a m" "\<not> FIN m" "\<not> SYN m" "Suc (length S) = a + seq_len m"
  shows "sent_at S z a (m\<lparr>FIN := True\<rparr>)" "seq_len (m\<lparr>FIN := True\<rparr>) = Suc (seq_len m)"
  using assms by (auto simp: sent_at_def segment_at_def seq_len_def)

lemma attach_FIN_inv:
  assumes inv: "sender_inv S z rto una (s, out)" and S: "length S + 2 < 2 ^ 31"
    and us: "unsent_msgs s = map (\<lambda>m. \<lparr>msg = m, is_retransmitted = False\<rparr>) ms" and ds: "data_segments ms"
  obtains ms' where "sender_inv S z rto una (attach_FIN s out, out)"
    "unsent_msgs (attach_FIN s out) = map (\<lambda>m. \<lparr>msg = m, is_retransmitted = False\<rparr>) ms'"
    "map payload ms' = map payload ms" "\<forall>m \<in> set (butlast ms'). \<not> FIN m" "\<forall>m \<in> set ms'. \<not> SYN m"
    "unacked_msgs (attach_FIN s out) = unacked_msgs s" "window_size (attach_FIN s out) = window_size s"
    "in_flight (attach_FIN s out) = in_flight s
       + of_bool (ms \<noteq> [] \<and> has_not_sent_FIN s \<and> is_finished out \<and> in_flight s < window_size s)"
    "stream_is_finished (attach_FIN s out) = is_finished out"
    "sender_timer (attach_FIN s out) = sender_timer s"
    "has_not_sent_SYN (attach_FIN s out) = has_not_sent_SYN s"
proof -
  note i = sender_invD [OF inv]
  have o: "stream_inv out" "is_closed out \<longrightarrow> total_popped out + length (peek out) = length S"
    using i(3) by (simp_all add: outbound_ok_def)
  have finished: "is_finished out \<longleftrightarrow> is_closed out \<and> peek out = []" by (rule is_finished_peek [OF o(1)])
  define fin where "fin = (has_not_sent_FIN s \<and> is_finished out \<and> in_flight s < window_size s)"
  note b = inv_bounds [OF inv S]
  have add: "add32 (add32 (unacked_seqnos s) (unsent_seqnos s)) 1 = Suc (in_flight s)"
    using b(4) by (simp add: wadd_nowrap in_flight_def)
  show thesis
  proof (cases "ms = []")
    case True
    then have a: "attach_FIN s out = s\<lparr>stream_is_finished := is_finished out\<rparr>"
      by (simp add: attach_FIN_def us)
    have "sender_inv S z rto una (attach_FIN s out, out)"
      using i finished unfolding a
      by (simp add: sender_inv_def flags_ok_def queues_ok_def timer_ok_def retransmitting_def fresh_def)
    then show thesis using us True by (intro that [of "[]"]) (simp_all add: a in_flight_def)
  next
    case False
    then obtain ini l where ms: "ms = ini @ [l]" by (metis rev_exhaust)
    have l: "\<not> SYN l" "\<not> FIN l" "payload l \<noteq> []" using ds by (auto simp: ms data_segments_def)
    define l' where "l' = l\<lparr>FIN := fin\<rparr>"
    define ms' where "ms' = ini @ [l']"
    have sl: "seq_len l' = seq_len l + of_bool fin" using l by (simp add: l'_def seq_len_def)
    have us': "set_last_FIN (unsent_msgs s) fin = map (\<lambda>m. \<lparr>msg = m, is_retransmitted = False\<rparr>) ms'"
      by (simp add: set_last_FIN_def us ms ms'_def l'_def)
    have adds: "add32 (unsent_seqnos s) (of_bool fin) = unsent_seqnos s + of_bool fin"
      "add64 (next_seqno s) (of_bool fin) = next_seqno s + of_bool fin"
      using b(2,4) by (simp_all add: wadd_nowrap)
    define s' where "s' = s\<lparr>stream_is_finished := is_finished out,
       unsent_msgs := map (\<lambda>m. \<lparr>msg = m, is_retransmitted = False\<rparr>) ms',
       has_not_sent_FIN := has_not_sent_FIN s \<and> \<not> fin,
       unsent_seqnos := unsent_seqnos s + of_bool fin, next_seqno := next_seqno s + of_bool fin\<rparr>"
    have fin': "(has_not_sent_FIN s \<and> is_finished out \<and> window_size s \<ge> Suc (in_flight s)) = fin"
      by (auto simp: fin_def)
    have a: "attach_FIN s out = s'"
    proof -
      have "(has_not_sent_FIN s \<and> is_finished out
        \<and> add32 (add32 (unacked_seqnos s) (unsent_seqnos s)) 1 \<le> window_size s) = fin"
        unfolding add fin' ..
      then show ?thesis
        using False us by (simp add: attach_FIN_def Let_def us' [unfolded us] adds s'_def del: One_nat_def)
    qed
    note us1 = unsent_all_fresh [OF us]
    have us2: "fresh s' = ms'" "retransmitting s' = []"
      by (rule unsent_all_fresh; simp add: s'_def)+
    have syn: "\<not> has_not_sent_SYN s" using i(4) us False by (auto simp: flags_ok_def)
    have ch: "chain S z una (unacked_msgs s @ ini @ [l]) (next_seqno s)"
      using i(1,5) us1 by (simp add: queues_ok_def ms)
    then obtain k where k: "chain S z una (unacked_msgs s @ ini) k" "sent_at S z k l" "k + seq_len l = next_seqno s"
      by (auto simp: chain_append)
    have fl: "fin \<Longrightarrow> next_seqno s = Suc (length S) \<and> total_popped out = length S \<and> is_closed out"
      using i(4) syn o(2) finished by (simp add: fin_def flags_ok_def)
    have sent: "sent_at S z k l'"
    proof (cases fin)
      case True
      then show ?thesis using sent_at_FIN(1) [OF k(2) l(2,1)] fl k(3) by (simp add: l'_def)
    next
      case False
      then have "l' = l" using l(2) by (cases l) (simp add: l'_def)
      then show ?thesis using k(2) by simp
    qed
    have "queues_ok S una s'"
    proof -
      have "\<forall>w \<in> set (tl (unsent_msgs s')). \<not> is_retransmitted w"
        by (simp add: s'_def all_fresh_tl)
      moreover have "chain S (isn s') una (retransmitting s' @ unacked_msgs s' @ fresh s') (next_seqno s')"
      proof -
        have f: "isn s' = z" "unacked_msgs s' = unacked_msgs s" "next_seqno s' = k + seq_len l'"
          using i(1) k(3) sl by (simp_all add: s'_def)
        show ?thesis
          unfolding us2 f using k(1) sent by (auto simp: ms'_def chain_append)
      qed
      moreover have "unsent_seqnos s' = seq_lens (map msg (unsent_msgs s'))"
        using i(5) sl us by (simp add: s'_def queues_ok_def ms ms'_def comp_def)
      ultimately show ?thesis using i(5) by (simp add: queues_ok_def s'_def)
    qed
    moreover have "flags_ok S s' out"
      using i(4) syn fl finished by (auto simp: flags_ok_def s'_def)
    moreover have "timer_ok rto s'" using i(6) us1 us2 by (simp add: timer_ok_def s'_def)
    ultimately have "sender_inv S z rto una (attach_FIN s out, out)"
      using i unfolding a by (simp add: sender_inv_def s'_def)
    moreover have "\<forall>m \<in> set ini. \<not> FIN m" "\<forall>m \<in> set ms'. \<not> SYN m"
      using ds by (auto simp: ms ms'_def l'_def data_segments_def)
    ultimately show thesis
      by (intro that [of ms']) (use False in \<open>simp_all add: a s'_def ms'_def l'_def ms in_flight_def fin_def\<close>)
  qed
qed


lemma push_spec:
  assumes inv: "sender_inv S z rto una (s, out)" and S: "length S + 2 < 2 ^ 31"
    and syn: "\<not> has_not_sent_SYN s \<or> peek out = []" and drained: "unsent_msgs s = []"
  obtains s' out' ms where "push s out = Inr (s', out')" "sender_inv S z rto una (s', out')"
    "unsent_msgs s' = map (\<lambda>m. \<lparr>msg = m, is_retransmitted = False\<rparr>) ms"
    "concat (map payload ms) @ peek out' = peek out"
    "length (concat (map payload ms)) = min (length (peek out)) (room s)"
    "\<forall>m \<in> set ms. payload m \<noteq> [] \<and> length (payload m) \<le> MAX_PAYLOAD_SIZE \<and> \<not> SYN m"
    "\<forall>m \<in> set (butlast ms). \<not> FIN m"
    "in_flight s' \<le> max (in_flight s + room s) (window_size s)"
    "in_flight s' \<ge> in_flight s + min (length (peek out)) (room s)"
    "unacked_msgs s' = unacked_msgs s" "window_size s' = window_size s"
    "has_not_sent_SYN s' = has_not_sent_SYN s"
proof -
  obtain s1 out' ms where 1: "push_loop (Suc (length (peek out))) s out (peek out) = Inr (s1, out')"
    "sender_inv S z rto una (s1, out')"
    "unsent_msgs s1 = unsent_msgs s @ map (\<lambda>m. \<lparr>msg = m, is_retransmitted = False\<rparr>) ms"
    "data_segments ms" "concat (map payload ms) @ peek out' = peek out"
    "length (concat (map payload ms)) = min (length (peek out)) (room s)"
    "in_flight s1 = in_flight s + length (concat (map payload ms))"
    "unacked_msgs s1 = unacked_msgs s" "window_size s1 = window_size s"
    "has_not_sent_SYN s1 = has_not_sent_SYN s"
    by (rule push_loop_spec [OF inv S syn, of "Suc (length (peek out))"]) auto
  have us: "unsent_msgs s1 = map (\<lambda>m. \<lparr>msg = m, is_retransmitted = False\<rparr>) ms"
    using 1(3) drained by simp
  obtain ms' where 2: "sender_inv S z rto una (attach_FIN s1 out', out')"
    "unsent_msgs (attach_FIN s1 out') = map (\<lambda>m. \<lparr>msg = m, is_retransmitted = False\<rparr>) ms'"
    "map payload ms' = map payload ms" "\<forall>m \<in> set (butlast ms'). \<not> FIN m" "\<forall>m \<in> set ms'. \<not> SYN m"
    "unacked_msgs (attach_FIN s1 out') = unacked_msgs s1" "window_size (attach_FIN s1 out') = window_size s1"
    "in_flight (attach_FIN s1 out') = in_flight s1
       + of_bool (ms \<noteq> [] \<and> has_not_sent_FIN s1 \<and> is_finished out' \<and> in_flight s1 < window_size s1)"
    "has_not_sent_SYN (attach_FIN s1 out') = has_not_sent_SYN s1"
    using attach_FIN_inv [OF 1(2) S us 1(4)] by metis
  have pay: "payload m \<noteq> [] \<and> length (payload m) \<le> MAX_PAYLOAD_SIZE" if "m \<in> set ms'" for m
  proof -
    have "payload m \<in> set (map payload ms')" using that by auto
    then have "payload m \<in> payload ` set ms" by (simp only: 2(3)) simp
    then show ?thesis using 1(4) by (auto simp: data_segments_def)
  qed
  show thesis
  proof (rule that [of "attach_FIN s1 out'" out' ms'])
    show "push s out = Inr (attach_FIN s1 out', out')" using 1(1) by (simp add: push_def)
    show "in_flight (attach_FIN s1 out') \<le> max (in_flight s + room s) (window_size s)"
      using 2(8) 1(6,7,9) by auto
  qed (use 1 2 pay in auto)
qed

section \<open>receive\<close>

lemma chain_bounds: "chain S z a ms b \<Longrightarrow> a \<le> b"
  using chain_end [of S z a ms b] by simp

lemma drop_acked_spec:
  assumes "chain S z una ms nxt" "nxt < 2 ^ 31" "n = seq_lens ms" "is_on t \<or> ms = []"
  obtains una' rest where
    "drop_acked z nxt ack t ms n b = Inr (rest, seq_lens rest, b \<or> rest \<noteq> ms)"
    "chain S z una' rest nxt" "una \<le> una'" "una' \<le> max una ack" "suffix rest ms"
    "una' = una \<longleftrightarrow> rest = ms"
    "rest = [] \<or> ack < una' + seq_len (hd rest)"
  using assms
proof (induction ms arbitrary: una n b thesis)
  case Nil
  then show ?case by (simp add: isOn_def)
next
  case (Cons m ms)
  have m: "sent_at S z una m" "chain S z (una + seq_len m) ms nxt" using Cons.prems(2) by simp_all
  have le: "una + seq_len m \<le> nxt" by (rule chain_bounds [OF m(2)])
  have pos: "0 < seq_len m" using m(1) by (simp add: sent_at_def)
  have u: "unwrap_abs (seqno m) z nxt = una"
    unfolding sent_at_seqno [OF m(1)] using Cons.prems(3) le by (intro unwrap_wrap_abs) simp_all
  have sl: "sequence_length m = seq_len m" using le Cons.prems(3) by (intro sequence_length_eq) simp
  have add: "add64 una (seq_len m) = una + seq_len m" using le Cons.prems(3) by (simp add: wadd_nowrap)
  show ?case
  proof (cases "una + seq_len m > ack")
    case True
    then have "drop_acked z nxt ack t (m # ms) n b = Inr (m # ms, n, b)"
      by (simp add: Let_def u sl add)
    then show ?thesis
      using Cons.prems True by (intro Cons.prems(1) [of "m # ms" una]) auto
  next
    case False
    have n: "sub32 n (seq_len m) = seq_lens ms"
      using Cons.prems(3,4) chain_end [OF Cons.prems(2)] by (simp add: wsub_nowrap)
    have step: "drop_acked z nxt ack t (m # ms) n b = drop_acked z nxt ack t ms (seq_lens ms) True"
      using False Cons.prems(5) by (simp add: Let_def u sl add n isOn_def)
    have on: "is_on t \<or> ms = []" using Cons.prems(5) by simp
    show ?thesis
    proof (rule Cons.IH [OF _ m(2) Cons.prems(3) refl on])
      fix rest una'
      assume h: "drop_acked z nxt ack t ms (seq_lens ms) True = Inr (rest, seq_lens rest, True \<or> rest \<noteq> ms)"
        "chain S z una' rest nxt" "una + seq_len m \<le> una'" "una' \<le> max (una + seq_len m) ack"
        "suffix rest ms" "una' = una + seq_len m \<longleftrightarrow> rest = ms" "rest = [] \<or> ack < una' + seq_len (hd rest)"
      have "length rest \<le> length ms" using h(5) by (rule suffix_length_le)
      then have "rest \<noteq> m # ms" by auto
      then show ?thesis
        using h step False pos by (intro Cons.prems(1) [of rest una']) (auto intro: suffix_ConsI)
    qed
  qed
qed


lemma drained_queues:
  "unsent_msgs s = [] \<Longrightarrow> retransmitting s = []" "unsent_msgs s = [] \<Longrightarrow> fresh s = []"
  by (simp_all add: retransmitting_def fresh_def)

lemma receive_spec:
  assumes inv: "sender_inv S z rto una (s, out)" and S: "length S + 2 < 2 ^ 31"
    and drained: "unsent_msgs s = []" and w: "window_field rm < 2 ^ 16"
  obtains s' una' where "tcp_sender_receive s rm = Inr s'" "sender_inv S z rto una' (s', out)"
    "unsent_msgs s' = []" "window_size s' = window_field rm" "una \<le> una'"
    "una' = una \<or> (\<exists>a. ackno rm = Some a \<and> una' \<le> unwrap_abs a z (next_seqno s)
        \<and> unwrap_abs a z (next_seqno s) \<le> next_seqno s)"
    "suffix (unacked_msgs s') (unacked_msgs s)" "next_seqno s' = next_seqno s"
    "has_not_sent_SYN s' = has_not_sent_SYN s"
    "\<And>a m ms. ackno rm = Some a \<Longrightarrow> unwrap_abs a z (next_seqno s) \<le> next_seqno s \<Longrightarrow>
       unacked_msgs s = m # ms \<Longrightarrow> una + seq_len m \<le> unwrap_abs a z (next_seqno s) \<Longrightarrow> unacked_msgs s' \<noteq> unacked_msgs s"
proof -
  note i = sender_invD [OF inv]
  note b = inv_bounds [OF inv S]
  define s1 where "s1 = s\<lparr>window_size := window_field rm, zero_window_flag := (window_field rm = 0)\<rparr>"
  have f1: "isn s1 = z" "next_seqno s1 = next_seqno s" "unacked_msgs s1 = unacked_msgs s"
    "unsent_msgs s1 = []" "sender_timer s1 = sender_timer s" "window_size s1 = window_field rm"
    "unacked_seqnos s1 = unacked_seqnos s" "has_not_sent_SYN s1 = has_not_sent_SYN s"
    "retransmission_num s1 = retransmission_num s" "unsent_seqnos s1 = unsent_seqnos s"
    using i(1) drained by (simp_all add: s1_def)
  have inv1: "sender_inv S z rto una (s1, out)"
    using i w by (simp add: sender_inv_def s1_def flags_ok_def queues_ok_def timer_ok_def
        retransmitting_def fresh_def)
  show thesis
  proof (cases "\<exists>a. ackno rm = Some a \<and> unwrap_abs a z (next_seqno s) \<le> next_seqno s")
    case False
    then have "tcp_sender_receive s rm = Inr s1"
      unfolding tcp_sender_receive_def s1_def [symmetric] Let_def f1
      by (auto split: option.splits)
    then show thesis using inv1 f1 False by (intro that [of s1 una]) auto
  next
    case True
    then obtain a where a: "ackno rm = Some a" "unwrap_abs a z (next_seqno s) \<le> next_seqno s" by blast
    define ack where "ack = unwrap_abs a z (next_seqno s)"
    have q: "chain S z una (unacked_msgs s) (next_seqno s)" "unacked_seqnos s = seq_lens (unacked_msgs s)"
      "unsent_seqnos s = 0"
      using i(1,5) drained drained_queues [of s] by (simp_all add: queues_ok_def)
    have on: "is_on (sender_timer s) \<or> unacked_msgs s = []"
      using i(6) drained drained_queues [of s] by (auto simp: timer_ok_def isOn_def)
    obtain una' rest where d: "drop_acked z (next_seqno s) ack (sender_timer s) (unacked_msgs s)
        (unacked_seqnos s) False = Inr (rest, seq_lens rest, False \<or> rest \<noteq> unacked_msgs s)"
      "chain S z una' rest (next_seqno s)" "una \<le> una'" "una' \<le> max una ack" "suffix rest (unacked_msgs s)"
      "una' = una \<longleftrightarrow> rest = unacked_msgs s" "rest = [] \<or> ack < una' + seq_len (hd rest)"
      by (rule drop_acked_spec [OF q(1) b(2) q(2) on])
    define s2 where "s2 = s1\<lparr>unacked_msgs := rest, unacked_seqnos := seq_lens rest\<rparr>"
    have code: "tcp_sender_receive s rm =
      (if rest \<noteq> unacked_msgs s then
         andthen (resetRTO (sender_timer s2)) (\<lambda>t.
         Inr (s2\<lparr>retransmission_num := 0,
                 sender_timer := (if rest = [] then timer_stop t else timer_start t)\<rparr>))
       else Inr s2)"
      unfolding tcp_sender_receive_def s1_def [symmetric] Let_def f1 a(1) option.case ack_def [symmetric]
        d(1) andthen_Inr prod.case s2_def [symmetric]
      using a(2) by (simp add: ack_def)
    have f2: "isn s2 = z" "next_seqno s2 = next_seqno s" "unacked_msgs s2 = rest" "unsent_msgs s2 = []"
      "sender_timer s2 = sender_timer s" "window_size s2 = window_field rm"
      "has_not_sent_SYN s2 = has_not_sent_SYN s"
      using f1 by (simp_all add: s2_def)
    have qs: "queues_ok S una' s2"
      using d(2) q(3) drained_queues [OF f2(4)] f1 by (simp add: queues_ok_def f2) (simp add: s2_def)
    have suf: "unacked_msgs s \<noteq> []" if "rest \<noteq> []" using d(5) that by auto
    have fl: "flags_ok S s2 out"
      using sender_invD(4) [OF inv1] d(5) by (auto simp: flags_ok_def s2_def f1)
    have ack': "una' = una \<or> una' \<le> ack" using d(3,4) by (auto simp: max_def split: if_splits)
    show thesis
    proof (cases "rest = unacked_msgs s")
      case True
      have "timer_ok rto s2"
        using sender_invD(6) [OF inv1] True drained_queues [OF f2(4)] drained_queues [OF f1(4)] f1
        by (simp add: timer_ok_def f2) (simp add: s2_def f1)
      then have "sender_inv S z rto una' (s2, out)"
        using i(3) w qs fl f2 by (simp add: sender_inv_def)
      then show thesis using code True f2 d ack' a
        by (intro that [of s2 una']) (auto simp: ack_def)
    next
      case False
      then have "unacked_msgs s \<noteq> []" using d(5) by auto
      then have ton: "is_on (sender_timer s)" using on by simp
      define t where "t = (if rest = [] then timer_stop ((sender_timer s)\<lparr>RTO_ms := rto\<rparr>)
        else timer_start ((sender_timer s)\<lparr>RTO_ms := rto\<rparr>))"
      define s3 where "s3 = s2\<lparr>retransmission_num := 0, sender_timer := t\<rparr>"
      have rto: "initial_RTO_ms (sender_timer s) = rto" "rto < 2 ^ 64"
        using i(6) by (simp_all add: timer_ok_def)
      have res: "tcp_sender_receive s rm = Inr s3"
        using False ton by (simp add: code resetRTO_def f2 s3_def t_def rto)
      have us3: "unsent_msgs s3 = []" using f2 by (simp add: s3_def)
      have tt: "initial_RTO_ms t = rto" "RTO_ms t = rto" "isOn t = (rest \<noteq> [])" "timeout_ms t < 2 ^ 64"
        using rto i(6) by (simp_all add: t_def timer_stop_def timer_start_def isOn_def timer_ok_def)
      have "timer_ok rto s3"
        unfolding timer_ok_def using rto(2) drained_queues [OF us3] tt f2(3)
        by (simp add: s3_def) (intro exI [of _ 0], simp)
      moreover have "queues_ok S una' s3" "flags_ok S s3 out"
        using qs fl by (simp_all add: queues_ok_def flags_ok_def s3_def retransmitting_def fresh_def)
      ultimately have "sender_inv S z rto una' (s3, out)"
        using i(3) w f2 by (simp add: sender_inv_def s3_def)
      then show thesis using res f2 d ack' a
        by (intro that [of s3 una']) (auto simp: ack_def s3_def)
    qed
  qed
qed

section \<open>tick\<close>

lemma backoff_step:
  assumes "retransmission_num s = k mod 2 ^ 32" "RTO_ms t = (rto * 2 ^ k) mod 2 ^ 64"
  shows "add32 (retransmission_num s) 1 = Suc k mod 2 ^ 32"
    "mul64 (RTO_ms t) 2 = (rto * 2 ^ Suc k) mod 2 ^ 64"
  unfolding assms wadd_def wmul_def by (simp_all add: mod_simps mult_ac)

lemma tick_spec:
  assumes inv: "sender_inv S z rto una (s, out)" and S: "length S + 2 < 2 ^ 31"
    and drained: "unsent_msgs s = []"
  obtains s' where "tick s ms = Inr s'" "sender_inv S z rto una (s', out)"
    "window_size s' = window_size s" "in_flight s' = in_flight s" "next_seqno s' = next_seqno s"
    "(unsent_msgs s' = [] \<and> unacked_msgs s' = unacked_msgs s
        \<and> (isOn (sender_timer s) \<longrightarrow> ms < timeout_ms (sender_timer s)))
     \<or> (\<exists>m. isOn (sender_timer s) \<and> timeout_ms (sender_timer s) \<le> ms
        \<and> unacked_msgs s = m # unacked_msgs s' \<and> unsent_msgs s' = [\<lparr>msg = m, is_retransmitted = True\<rparr>]
        \<and> retransmission_num s' = (if window_size s = 0 then retransmission_num s
                                  else add32 (retransmission_num s) 1)
        \<and> RTO_ms (sender_timer s') = (if window_size s = 0 then RTO_ms (sender_timer s)
                                  else mul64 (RTO_ms (sender_timer s)) 2)
        \<and> timeout_ms (sender_timer s') = RTO_ms (sender_timer s'))"
    "has_not_sent_SYN s' = has_not_sent_SYN s"
proof (cases "isOn (sender_timer s)")
  case False
  then show thesis using that [of s] inv drained by (simp add: tick_def)
next
  case True
  note i = sender_invD [OF inv]
  define t where "t = timer_tick (sender_timer s) ms"
  have t: "is_on t" "RTO_ms t = RTO_ms (sender_timer s)" "initial_RTO_ms t = rto" "rto < 2 ^ 64"
    using True i(6) by (simp_all add: t_def timer_tick_def isOn_def timer_ok_def)
  have ne: "unacked_msgs s \<noteq> []" using True i(6) drained_queues [OF drained] by (simp add: timer_ok_def)
  have lim: "timeout_ms (sender_timer s) < 2 ^ 64" "timeout_ms t < 2 ^ 64"
    using i(6) by (auto simp: timer_ok_def t_def timer_tick_def wrap_simps)
  obtain k where k: "retransmission_num s = k mod 2 ^ 32" "RTO_ms (sender_timer s) = (rto * 2 ^ k) mod 2 ^ 64"
    using i(6) by (auto simp: timer_ok_def)
  have tk: "RTO_ms t = (rto * 2 ^ k) mod 2 ^ 64" using k t by simp
  show thesis
  proof (cases "timeout_ms t = 0")
    case False
    then have lt: "ms < timeout_ms (sender_timer s)" by (simp add: t_def timer_tick_def split: if_splits)
    have res: "tick s ms = Inr (s\<lparr>sender_timer := t\<rparr>)"
      using True False t by (simp add: tick_def t_def [symmetric] hasExpired_def)
    have "sender_inv S z rto una (s\<lparr>sender_timer := t\<rparr>, out)"
      using i t ne k lim by (auto simp: sender_inv_def flags_ok_def queues_ok_def timer_ok_def
          retransmitting_def fresh_def isOn_def)
    then show thesis using res lt drained
      by (intro that [of "s\<lparr>sender_timer := t\<rparr>"]) (simp_all add: in_flight_def)
  next
    case expired: True
    obtain m rest where m: "unacked_msgs s = m # rest" using ne by (cases "unacked_msgs s") auto
    have len: "sequence_length m = seq_len m" using inv_bounds(5) [OF inv S] m by simp
    note b = inv_bounds [OF inv S]
    have q: "chain S z una (m # rest) (next_seqno s)" "unacked_seqnos s = seq_len m + seq_lens rest"
      "unsent_seqnos s = 0"
      using i(1,5) m drained drained_queues [OF drained] by (simp_all add: queues_ok_def)
    have ar: "sub32 (unacked_seqnos s) (seq_len m) = seq_lens rest" "add32 (unsent_seqnos s) (seq_len m) = seq_len m"
      using q b(4) by (simp_all add: wsub_nowrap wadd_nowrap)
    define s1 where "s1 = s\<lparr>unacked_seqnos := seq_lens rest, unsent_seqnos := seq_len m, unacked_msgs := rest,
                            unsent_msgs := [\<lparr>msg = m, is_retransmitted = True\<rparr>]\<rparr>"
    define num rt where "num = (if window_size s = 0 then retransmission_num s else add32 (retransmission_num s) 1)"
      and "rt = (if window_size s = 0 then RTO_ms t else mul64 (RTO_ms t) 2)"
    define s' where "s' = s1\<lparr>retransmission_num := num, sender_timer := timer_start (t\<lparr>RTO_ms := rt\<rparr>)\<rparr>"
    have sim: "t\<lparr>RTO_ms := RTO_ms (sender_timer s)\<rparr> = t" "s1\<lparr>retransmission_num := retransmission_num s\<rparr> = s1"
      unfolding t(2) [symmetric] by (simp_all add: s1_def)
    have res: "tick s ms = Inr s'"
      unfolding tick_def Let_def t_def [symmetric] m list.case len ar drained s1_def [symmetric]
      using True expired t(1) by (simp add: hasExpired_def doubleRTO_def s'_def num_def rt_def s1_def sim t(2))
    have "\<exists>k. num = k mod 2 ^ 32 \<and> rt = (rto * 2 ^ k) mod 2 ^ 64"
    proof (cases "window_size s = 0")
      case True
      then show ?thesis using k tk by (auto simp: num_def rt_def)
    next
      case False
      then show ?thesis using backoff_step [OF k(1) tk] by (intro exI [of _ "Suc k"]) (simp add: num_def rt_def)
    qed
    moreover from this have "rt < 2 ^ 64" by auto
    ultimately have "timer_ok rto s'"
      using t by (simp add: timer_ok_def s'_def timer_start_def isOn_def s1_def retransmitting_def)
    moreover have "flags_ok S s' out" using i(4) drained m by (auto simp: flags_ok_def s'_def s1_def)
    moreover have "queues_ok S una s'"
      using q(1) i(1) by (simp add: queues_ok_def s'_def s1_def retransmitting_def fresh_def)
    ultimately have "sender_inv S z rto una (s', out)" using i by (simp add: sender_inv_def s'_def s1_def)
    moreover have "timeout_ms (sender_timer s) \<le> ms"
    proof (rule ccontr)
      assume n: "\<not> timeout_ms (sender_timer s) \<le> ms"
      then have "sub64 (timeout_ms (sender_timer s)) ms = 0" using expired by (simp add: t_def timer_tick_def)
      then show False using n lim(1) by (simp add: wsub_nowrap)
    qed
    ultimately show thesis
      using res True m q t by (intro that [of s']) (auto simp: s'_def s1_def in_flight_def num_def rt_def timer_start_def)
  qed
qed

section \<open>The operations do not fail\<close>

text \<open>
  Without the assumption that the queue is empty: \<open>push\<close> ends and \<open>receive\<close> meets no failed assertion
  in any state, and \<open>tick\<close> finds a segment at the front of the unacknowledged ones unless a
  retransmission of an earlier tick is still queued.
\<close>

lemma timer_oldest:
  assumes "sender_inv S z rto una (s, out)" and "isOn (sender_timer s)"
    and "\<forall>w \<in> set (unsent_msgs s). \<not> is_retransmitted w"
  obtains m rest where "unacked_msgs s = m # rest"
proof -
  have "retransmitting s = []" using assms(3) by (simp add: retransmitting_def filter_empty_conv)
  then have "unacked_msgs s \<noteq> []" using sender_invD(6) [OF assms(1)] assms(2) by (simp add: timer_ok_def)
  then show thesis using that by (cases "unacked_msgs s") auto
qed

lemma expired_tick:
  assumes "timeout_ms t < 2 ^ 64"
  shows "timeout_ms (timer_tick t ms) = 0 \<longleftrightarrow> timeout_ms t \<le> ms"
  using assms by (auto simp: timer_tick_def wsub_nowrap)

lemma window_open_positive:
  assumes "window_open s" "window_size s \<noteq> 0" "window_size s < 2 ^ 32"
  shows "0 < sub32 (sub32 (window_size s) (unacked_seqnos s)) (unsent_seqnos s)"
proof (rule ccontr)
  let ?x = "sub32 (window_size s) (unacked_seqnos s)"
  assume "\<not> 0 < sub32 ?x (unsent_seqnos s)"
  then have "sub32 ?x (unsent_seqnos s) = 0" by simp
  then have "unsent_seqnos s mod 2 ^ 32 = ?x mod 2 ^ 32" using wsub_add_mod [of 32 ?x "unsent_seqnos s"] by simp
  then have "(unsent_seqnos s + unacked_seqnos s) mod 2 ^ 32 = (?x + unacked_seqnos s) mod 2 ^ 32"
    by (rule mod_add_cong) simp
  also have "\<dots> = window_size s" using wsub_add_mod [of 32 "window_size s" "unacked_seqnos s"] assms(3) by simp
  finally show False using assms(1,2) by (simp add: window_open_def wadd_def add.commute)
qed

lemma push_loop_runs:
  "window_size s < 2 ^ 32 \<Longrightarrow> length d < fuel \<Longrightarrow> \<exists>y. push_loop fuel s out d = Inr y"
proof (induction fuel arbitrary: s out d)
  case (Suc fuel)
  show ?case
  proof (cases "d \<noteq> [] \<and> window_open s")
    case True
    define k where "k = min (if window_size s = 0 then 1
              else sub32 (sub32 (window_size s) (unacked_seqnos s)) (unsent_seqnos s)) MAX_PAYLOAD_SIZE"
    have "0 < k" using window_open_positive True Suc.prems(1) by (auto simp: k_def MAX_PAYLOAD_SIZE_def)
    then have "length (drop k d) < fuel" using Suc.prems(2) True by (cases d) auto
    from Suc.IH [OF _ this] show ?thesis using True Suc.prems(1) by (simp add: Let_def k_def [symmetric])
  qed auto
qed simp

lemma push_runs: "window_size s < 2 ^ 32 \<Longrightarrow> \<exists>y. push s out = Inr y"
proof -
  assume "window_size s < 2 ^ 32"
  from push_loop_runs [OF this, of "peek out" "Suc (length (peek out))" out] obtain y where
    "push_loop (Suc (length (peek out))) s out (peek out) = Inr y" by auto
  then show ?thesis unfolding push_def by (cases y) simp
qed

lemma drop_acked_dropWhile:
  "drop_acked z nxt ack t ms n b = Inr (rest, k, c) \<Longrightarrow>
   rest = dropWhile (\<lambda>m. add64 (unwrap_abs (seqno m) z nxt) (sequence_length m) \<le> ack) ms
   \<and> c = (b \<or> rest \<noteq> ms)"
proof (induction ms arbitrary: n b)
  case (Cons m ms)
  show ?case
  proof (cases "add64 (unwrap_abs (seqno m) z nxt) (sequence_length m) > ack")
    case True
    then show ?thesis using Cons.prems by (auto simp add: Let_def)
  next
    case False
    then have "drop_acked z nxt ack t ms (sub32 n (sequence_length m)) True = Inr (rest, k, c)"
      using Cons.prems by (simp add: Let_def andthen_eq_Inr_iff)
    from Cons.IH [OF this] have r: "rest = dropWhile (\<lambda>m. add64 (unwrap_abs (seqno m) z nxt) (sequence_length m) \<le> ack) ms"
      "c" by simp_all
    have "length rest \<le> length ms" unfolding r(1) by (rule length_dropWhile_le)
    then have "rest \<noteq> m # ms" by auto
    then show ?thesis using r False by simp
  qed
qed simp

lemma ends_exactly:
  assumes inv: "sender_inv S z rto una (s, out)" and S: "length S + 2 < 2 ^ 31" and mem: "m \<in> set (unacked_msgs s)"
  shows "add64 (unwrap_abs (seqno m) z (next_seqno s)) (sequence_length m) =
      unwrap_abs (seqno m) z (next_seqno s) + sequence_length m"
proof -
  note i = sender_invD [OF inv] and b = inv_bounds [OF inv S]
  have ch: "chain S z una (retransmitting s @ unacked_msgs s @ fresh s) (next_seqno s)"
    using i(1,5) by (simp add: queues_ok_def)
  obtain ms1 ms2 where sp: "unacked_msgs s = ms1 @ m # ms2" using split_list [OF mem] by blast
  then obtain k where k: "sent_at S z k m" "chain S z (k + seq_len m) (ms2 @ fresh s) (next_seqno s)"
    using ch by (auto simp: chain_append)
  have le: "k + seq_len m \<le> next_seqno s" by (rule chain_bounds [OF k(2)])
  have "unwrap_abs (seqno m) z (next_seqno s) = k"
    unfolding sent_at_seqno [OF k(1)] using le b(2) by (intro unwrap_wrap_abs) simp_all
  moreover have "sequence_length m = seq_len m" using b(5) mem by blast
  ultimately show ?thesis using le b(2) by (simp add: wadd_nowrap)
qed

lemma drop_acked_runs: "isOn t \<or> ms = [] \<Longrightarrow> \<exists>y. drop_acked z nxt ack t ms n b = Inr y"
  by (induction ms arbitrary: n b) (auto simp: Let_def)

lemma timer_unacked:
  assumes "sender_inv S z rto una (s, out)"
  shows "isOn (sender_timer s) \<or> unacked_msgs s = []"
  using sender_invD(6) [OF assms] by (auto simp: timer_ok_def)

lemma receive_runs:
  assumes "sender_inv S z rto una (s, out)"
  shows "\<exists>s'. tcp_sender_receive s a = Inr s'"
proof -
  have on: "isOn (sender_timer s) \<or> unacked_msgs s = []" by (rule timer_unacked [OF assms])
  show ?thesis
  proof (cases "ackno a")
    case None
    then show ?thesis by (simp add: tcp_sender_receive_def Let_def)
  next
    case (Some b)
    let ?n = "unwrap_abs b (isn s) (next_seqno s)"
    obtain rest k c where d: "drop_acked (isn s) (next_seqno s) ?n (sender_timer s) (unacked_msgs s)
        (unacked_seqnos s) False = Inr (rest, k, c)"
      using drop_acked_runs [OF on] by (metis prod.exhaust)
    have "c \<Longrightarrow> is_on (sender_timer s)"
      using drop_acked_dropWhile [OF d] on by (auto simp: isOn_def)
    then show ?thesis using d by (cases "?n > next_seqno s"; cases c) (simp_all add: tcp_sender_receive_def Some Let_def resetRTO_def)
  qed
qed

lemma tick_runs:
  assumes "sender_inv S z rto una (s, out)" and "\<forall>w \<in> set (unsent_msgs s). \<not> is_retransmitted w"
  shows "\<exists>s'. tick s ms = Inr s'"
proof (cases "isOn (sender_timer s)")
  case True
  obtain m rest where "unacked_msgs s = m # rest" by (rule timer_oldest [OF assms(1) True assms(2)])
  moreover have "is_on (timer_tick (sender_timer s) ms)" using True by (simp add: timer_tick_def isOn_def)
  ultimately show ?thesis using True by (simp add: tick_def Let_def hasExpired_def doubleRTO_def)
qed (simp add: tick_def)

end
