(* ===== verification/TCP_Connection.thy ===== *)
theory TCP_Connection
  imports Sender_Invariant
begin

text \<open>
  The TCP sender in use, and a sender and a receiver joined by a network that loses,
  repeats and reorders segments and acknowledgments.
\<close>

section \<open>Runs of the sender\<close>

text \<open>
  \<open>sending S z rto c x\<close>: the sender and its outbound stream \<open>x\<close> are reached from new ones
  by writing pieces of \<open>S\<close>, closing the stream at its end, and the sender's operations with
  arbitrary acknowledgments, where everything queued is sent before the next \<open>push\<close>,
  \<open>receive\<close> or \<open>tick\<close> and no data is pushed before the SYN is sent.
\<close>

inductive sending :: "byte list \<Rightarrow> wrap32 \<Rightarrow> nat \<Rightarrow> nat \<Rightarrow> tcp_sender \<times> byte_stream \<Rightarrow> bool"
  for S z rto c where
  start: "sending S z rto c (TCPSender rto z, ByteStream c)"
| app_write: "\<lbrakk>sending S z rto c (s, out);
     piece_of S (total_popped out + length (peek out)) (take (available_capacity out) d);
     writer_push out d = Inr out'\<rbrakk> \<Longrightarrow> sending S z rto c (s, out')"
| app_close: "\<lbrakk>sending S z rto c (s, out); total_popped out + length (peek out) = length S\<rbrakk>
     \<Longrightarrow> sending S z rto c (s, writer_close out)"
| push: "\<lbrakk>sending S z rto c (s, out); unsent_msgs s = []; \<not> has_not_sent_SYN s \<or> peek out = [];
     push s out = Inr (s', out')\<rbrakk> \<Longrightarrow> sending S z rto c (s', out')"
| send: "\<lbrakk>sending S z rto c (s, out); maybe_send s = (x, s')\<rbrakk> \<Longrightarrow> sending S z rto c (s', out)"
| receive: "\<lbrakk>sending S z rto c (s, out); unsent_msgs s = []; window_field rm < 2 ^ 16;
     tcp_sender_receive s rm = Inr s'\<rbrakk> \<Longrightarrow> sending S z rto c (s', out)"
| tick: "\<lbrakk>sending S z rto c (s, out); unsent_msgs s = []; tick s ms = Inr s'\<rbrakk>
     \<Longrightarrow> sending S z rto c (s', out)"

lemma sender_start:
  assumes "rto < 2 ^ 64" "c < 2 ^ 64"
  shows "sender_inv S z rto 0 (TCPSender rto z, ByteStream c)"
proof -
  have "outbound_ok S (ByteStream c)" using assms(2) by (simp add: outbound_ok_def piece_of_def)
  moreover have "flags_ok S (TCPSender rto z) (ByteStream c)"
    using assms(2) by (simp add: flags_ok_def TCPSender_def)
  moreover have "timer_ok rto (TCPSender rto z)"
    unfolding timer_ok_def using assms(1)
    by (simp add: TCPSender_def Timer_def isOn_def retransmitting_def) (rule exI [of _ 0], simp)
  ultimately show ?thesis
    by (simp add: sender_inv_def TCPSender_def queues_ok_def retransmitting_def fresh_def)
qed

lemma outbound_write:
  assumes o: "outbound_ok S out" and p: "piece_of S (total_popped out + length (peek out)) (take (available_capacity out) d)"
    and w: "writer_push out d = Inr out'"
  shows "outbound_ok S out'" "total_popped out' = total_popped out" "flags out' = flags out"
    "is_closed out \<Longrightarrow> peek out' = peek out"
proof -
  let ?d = "take (available_capacity out) d"
  have inv: "stream_inv out" and pk: "piece_of S (total_popped out) (peek out)"
    and cl: "is_closed out \<longrightarrow> total_popped out + length (peek out) = length S"
    using o by (simp_all add: outbound_ok_def)
  have w': "stream_inv out'" "peek out' = peek out @ ?d" "total_popped out' = total_popped out" "flags out' = flags out"
    using writer_push_spec [OF inv, of d] w by (metis sum.inject(2))+
  show "total_popped out' = total_popped out" "flags out' = flags out" by (rule w')+
  have le: "total_popped out + length (peek out) + length ?d \<le> length S" using p unfolding piece_of_def by blast
  have eq: "peek out = take (length (peek out)) (drop (total_popped out) S)"
    "?d = take (length ?d) (drop (total_popped out + length (peek out)) S)"
    using p pk by (simp_all only: piece_of_def)
  have "take (length (peek out) + length ?d) (drop (total_popped out) S) =
      take (length (peek out)) (drop (total_popped out) S) @ take (length ?d) (drop (length (peek out)) (drop (total_popped out) S))"
    by (rule take_add)
  also have "drop (length (peek out)) (drop (total_popped out) S) = drop (total_popped out + length (peek out)) S"
    by (simp add: add.commute)
  finally have "take (length (peek out) + length ?d) (drop (total_popped out) S) = peek out @ ?d"
    by (simp only: eq [symmetric])
  then have "piece_of S (total_popped out) (peek out @ ?d)"
    using le unfolding piece_of_def length_append by (simp only: add.assoc)
  moreover show "peek out' = peek out" if "is_closed out"
  proof -
    have "length ?d = 0" using cl le that by linarith
    then have "?d = []" by (simp only: length_0_conv)
    then show ?thesis using w'(2) by (simp only: append_Nil2)
  qed
  moreover have "is_closed out' = is_closed out" using w'(4) by (simp add: is_closed_def)
  ultimately show "outbound_ok S out'" unfolding outbound_ok_def w'(3) using w'(1,2) cl by metis
qed

lemma inv_write:
  assumes inv: "sender_inv S z rto una (s, out)"
    and p: "piece_of S (total_popped out + length (peek out)) (take (available_capacity out) d)"
    and w: "writer_push out d = Inr out'"
  shows "sender_inv S z rto una (s, out')"
proof -
  note i = sender_invD [OF inv]
  note o = outbound_write [OF i(3) p w]
  have "is_closed out' = is_closed out" using o(3) by (simp add: is_closed_def)
  then have "flags_ok S s out'" using i(4) o(2,4) by (auto simp: flags_ok_def)
  then show ?thesis using i o(1) by (simp add: sender_inv_def)
qed

lemma inv_close:
  assumes inv: "sender_inv S z rto una (s, out)" and e: "total_popped out + length (peek out) = length S"
  shows "sender_inv S z rto una (s, writer_close out)"
proof -
  have "total_popped (writer_close out) = total_popped out" by (simp add: writer_close_def)
  then show ?thesis using inv e by (auto simp: sender_inv_def outbound_ok_def flags_ok_def)
qed

lemma maybe_send_spec:
  assumes inv: "sender_inv S z rto una (s, out)" and S: "length S + 2 < 2 ^ 31"
    and m: "maybe_send s = (x, s')"
  shows "sender_inv S z rto una (s', out)" "\<And>m. x = Some m \<Longrightarrow> \<exists>k. sent_at S z k m"
    "unsent_msgs s' = tl (unsent_msgs s)" "window_size s' = window_size s"
    "\<not> has_not_sent_SYN s \<Longrightarrow> \<not> has_not_sent_SYN s'"
proof -
  have "sender_inv S z rto una (s', out) \<and> (\<forall>m. x = Some m \<longrightarrow> (\<exists>k. sent_at S z k m))
      \<and> unsent_msgs s' = tl (unsent_msgs s) \<and> window_size s' = window_size s
      \<and> (\<not> has_not_sent_SYN s \<longrightarrow> \<not> has_not_sent_SYN s')"
  proof (cases "unsent_msgs s")
    case (Cons w ws)
    obtain s1 where 1: "maybe_send s = (Some (msg w), s1)" "sender_inv S z rto una (s1, out)"
      "unsent_msgs s1 = ws" "has_not_sent_SYN s1 = has_not_sent_SYN s" "window_size s1 = window_size s"
      by (rule maybe_send_queued [OF inv S Cons])
    have "msg w \<in> set (retransmitting s @ unacked_msgs s @ fresh s)"
      using Cons by (auto simp: retransmitting_def fresh_def)
    then have "\<exists>k. sent_at S z k (msg w)"
      using chain_member sender_invD(1,5) [OF inv] unfolding queues_ok_def by metis
    then show ?thesis using 1 m Cons by auto
  next
    case Nil
    show ?thesis
    proof (cases "window_open s \<and> (has_not_sent_SYN s \<or> (has_not_sent_FIN s \<and> stream_is_finished s))")
      case True
      then obtain mm s1 where "maybe_send s = (Some mm, s1)" "sender_inv S z rto una (s1, out)"
        "unsent_msgs s1 = []" "\<not> has_not_sent_SYN s1" "sent_at S z (next_seqno s) mm" "window_size s1 = window_size s"
        using maybe_send_flags [OF inv S Nil] by metis
      then show ?thesis using m Nil by auto
    next
      case False
      then show ?thesis using maybe_send_nothing [OF Nil] m inv Nil by auto
    qed
  qed
  then show "sender_inv S z rto una (s', out)" "\<And>m. x = Some m \<Longrightarrow> \<exists>k. sent_at S z k m"
    "unsent_msgs s' = tl (unsent_msgs s)" "window_size s' = window_size s"
    "\<not> has_not_sent_SYN s \<Longrightarrow> \<not> has_not_sent_SYN s'" by simp_all
qed

lemma sending_inv:
  assumes "sending S z rto c x" and S: "length S + 2 < 2 ^ 31" and par: "rto < 2 ^ 64" "c < 2 ^ 64"
  shows "\<exists>una. sender_inv S z rto una x"
  using assms(1)
proof induction
  case start
  then show ?case using sender_start [OF par] by blast
next
  case (app_write s out d out')
  then show ?case using inv_write by blast
next
  case (app_close s out)
  then show ?case using inv_close by blast
next
  case (push s out s' out')
  then obtain una where inv: "sender_inv S z rto una (s, out)" by blast
  obtain s1 out1 ms where "push s out = Inr (s1, out1)" "sender_inv S z rto una (s1, out1)"
    by (rule push_spec [OF inv S push.hyps(3,2)])
  then show ?case using push.hyps(4) by auto
next
  case (send s out x s')
  then show ?case using maybe_send_spec(1) S by blast
next
  case (receive s out rm s')
  then obtain una where inv: "sender_inv S z rto una (s, out)" by blast
  obtain s1 una' where "tcp_sender_receive s rm = Inr s1" "sender_inv S z rto una' (s1, out)"
    by (rule receive_spec [OF inv S receive.hyps(2,3)])
  then show ?case using receive.hyps(4) by auto
next
  case (tick s out ms s')
  then obtain una where inv: "sender_inv S z rto una (s, out)" by blast
  obtain s1 where "tick s ms = Inr s1" "sender_inv S z rto una (s1, out)"
    by (rule tick_spec [OF inv S tick.hyps(2)])
  then show ?case using tick.hyps(3) by auto
qed


section \<open>A sender, a receiver and a network\<close>

text \<open>
  The state of a connection in one direction: the sender and its outbound stream, the
  receiver's side with what its reader has taken, and the segments and acknowledgments
  that have been put on the network. The network may deliver any of them, any number of
  times and in any order; never delivering one is losing it. The payload of a delivered
  segment is a copy of the one sent: a segment crosses the network in serialized form.
\<close>

record connection =
  snd_side :: "tcp_sender \<times> byte_stream"
  rcv_side :: reception
  segments :: "tcp_sender_message set"
  acks :: "tcp_receiver_message set"

definition initial_connection :: "wrap32 \<Rightarrow> nat \<Rightarrow> nat \<Rightarrow> nat \<Rightarrow> connection" where
  "initial_connection z rto c rc =
     \<lparr>snd_side = (TCPSender rto z, ByteStream c),
      rcv_side = ([], TCPReceiver, Reassembler, ByteStream rc), segments = {}, acks = {}\<rparr>"

inductive connected :: "byte list \<Rightarrow> wrap32 \<Rightarrow> nat \<Rightarrow> nat \<Rightarrow> nat \<Rightarrow> connection \<Rightarrow> bool"
  for S z rto c rc where
  start: "connected S z rto c rc (initial_connection z rto c rc)"
| app_write: "\<lbrakk>connected S z rto c rc x; snd_side x = (s, out);
     piece_of S (total_popped out + length (peek out)) (take (available_capacity out) d);
     writer_push out d = Inr out'\<rbrakk> \<Longrightarrow> connected S z rto c rc (x\<lparr>snd_side := (s, out')\<rparr>)"
| app_close: "\<lbrakk>connected S z rto c rc x; snd_side x = (s, out);
     total_popped out + length (peek out) = length S\<rbrakk>
     \<Longrightarrow> connected S z rto c rc (x\<lparr>snd_side := (s, writer_close out)\<rparr>)"
| push: "\<lbrakk>connected S z rto c rc x; snd_side x = (s, out); unsent_msgs s = [];
     \<not> has_not_sent_SYN s \<or> peek out = []; push s out = Inr (s', out')\<rbrakk>
     \<Longrightarrow> connected S z rto c rc (x\<lparr>snd_side := (s', out')\<rparr>)"
| transmit: "\<lbrakk>connected S z rto c rc x; snd_side x = (s, out); maybe_send s = (m, s')\<rbrakk>
     \<Longrightarrow> connected S z rto c rc (x\<lparr>snd_side := (s', out), segments := segments x \<union> set_option m\<rparr>)"
| timeout: "\<lbrakk>connected S z rto c rc x; snd_side x = (s, out); unsent_msgs s = []; tick s ms = Inr s'\<rbrakk>
     \<Longrightarrow> connected S z rto c rc (x\<lparr>snd_side := (s', out)\<rparr>)"
| deliver: "\<lbrakk>connected S z rto c rc x; m \<in> segments x; rcv_side x = (got, rcv, r, inb);
     tcp_receiver_receive rcv m r inb = Inr (rcv', r', inb')\<rbrakk>
     \<Longrightarrow> connected S z rto c rc (x\<lparr>rcv_side := (got, rcv', r', inb')\<rparr>)"
| acknowledge: "\<lbrakk>connected S z rto c rc x; rcv_side x = (got, rcv, r, inb)\<rbrakk>
     \<Longrightarrow> connected S z rto c rc (x\<lparr>acks := insert (tcp_receiver_send rcv inb) (acks x)\<rparr>)"
| deliver_ack: "\<lbrakk>connected S z rto c rc x; a \<in> acks x; snd_side x = (s, out); unsent_msgs s = [];
     tcp_sender_receive s a = Inr s'\<rbrakk> \<Longrightarrow> connected S z rto c rc (x\<lparr>snd_side := (s', out)\<rparr>)"
| app_read: "\<lbrakk>connected S z rto c rc x; rcv_side x = (got, rcv, r, inb)\<rbrakk>
     \<Longrightarrow> connected S z rto c rc (x\<lparr>rcv_side := (got @ take n (peek inb), rcv, r, reader_pop inb n)\<rparr>)"

text \<open>How far the receiver has acknowledged at most.\<close>

definition progress :: "reception \<Rightarrow> nat" where
  "progress y = (case y of (got, rcv, r, inb) \<Rightarrow>
     if initial_seq_num rcv = None then 0 else Suc (first_unassembled r) + of_bool (rcv_finished rcv))"

definition acks_ok :: "wrap32 \<Rightarrow> nat \<Rightarrow> tcp_receiver_message set \<Rightarrow> bool" where
  "acks_ok z n A \<longleftrightarrow> (\<forall>a \<in> A. window_field a < 2 ^ 16
     \<and> (\<forall>w. ackno a = Some w \<longrightarrow> (\<exists>k \<le> n. w = wrap_abs k z)))"

lemma acks_ok_mono: "acks_ok z n A \<Longrightarrow> n \<le> n' \<Longrightarrow> acks_ok z n' A"
  unfolding acks_ok_def by (meson le_trans)

definition connection_inv :: "byte list \<Rightarrow> wrap32 \<Rightarrow> nat \<Rightarrow> nat \<Rightarrow> connection \<Rightarrow> bool" where
  "connection_inv S z rto rc x \<longleftrightarrow>
     (\<exists>una \<le> progress (rcv_side x). sender_inv S z rto una (snd_side x))
     \<and> receiving S z rc (rcv_side x)
     \<and> (\<forall>m \<in> segments x. \<exists>k. sent_at S z k m)
     \<and> acks_ok z (progress (rcv_side x)) (acks x)"

lemma connection_snd_step:
  assumes "connection_inv S z rto rc x"
    and "\<And>una. sender_inv S z rto una (snd_side x) \<Longrightarrow> sender_inv S z rto una y"
  shows "connection_inv S z rto rc (x\<lparr>snd_side := y\<rparr>)"
  using assms unfolding connection_inv_def by (simp add: Bex_def) blast

lemma received_closed:
  assumes "receiving S z rc (got, rcv, r, inb)" "length S + 2 < 2 ^ 31" "rc < 2 ^ 62"
  shows "reassembler_inv r inb" "first_unassembled r \<le> length S" "synchronized z (got, rcv, r, inb)"
    "assembling S rc False (got, r, inb)"
proof -
  have "length S < 2 ^ 31 - 1" "length S < 2 ^ 62" using assms(2) by simp_all
  with receiving_assembling [OF assms(1) this(1) assms(3)]
  show "synchronized z (got, rcv, r, inb)" "assembling S rc False (got, r, inb)"
    "reassembler_inv r inb" "first_unassembled r \<le> length S"
    using assembling_facts(1,2) assms(3) by auto
qed

lemma segment_fits: "sent_at S z k m \<Longrightarrow> 1031 \<le> rc \<Longrightarrow> length (payload m) + 31 \<le> rc"
  by (simp add: sent_at_def MAX_PAYLOAD_SIZE_def)

lemma progress_deliver:
  assumes a: "receiving S z rc (got, rcv, r, inb)" and S: "length S + 2 < 2 ^ 31" "rc < 2 ^ 62"
    and m: "segment_of S z m" "length (payload m) + 31 \<le> rc"
    and d: "tcp_receiver_receive rcv m r inb = Inr (rcv', r', inb')"
  shows "progress (got, rcv, r, inb) \<le> progress (got, rcv', r', inb')"
proof -
  note f = received_closed [OF a S]
  have S': "length S < 2 ^ 31 - 1" "length S < 2 ^ 62" using S by simp_all
  obtain rcv1 r1 inb1 where 1: "tcp_receiver_receive rcv m r inb = Inr (rcv1, r1, inb1)"
    "synchronized z (got, rcv1, r1, inb1)"
    "initial_seq_num rcv1 = None \<longleftrightarrow> initial_seq_num rcv = None \<and> \<not> SYN m"
    "initial_seq_num rcv1 \<noteq> None \<Longrightarrow>
      \<exists>f. segment_at S z f m \<and> reassembler_insert r f (payload m) (FIN m) inb = Inr (r1, inb1)"
    using receive_segment_runs [OF f(4,3) m S'(1) S(2)] by metis
  then have eq: "rcv1 = rcv'" "r1 = r'" "inb1 = inb'" using d by simp_all
  show ?thesis
  proof (cases "initial_seq_num rcv1 = None")
    case True
    then show ?thesis using 1(3) by (simp add: progress_def)
  next
    case False
    then obtain k where k: "segment_at S z k m" "reassembler_insert r k (payload m) (FIN m) inb = Inr (r1, inb1)"
      using 1(4) by blast
    have inv: "assembly_inv S rc (got, r, inb)" using assembling_inv [OF f(4) S'(2) S(2)] by simp
    have p: "piece_of S k (payload m)" using k(1) by (simp add: segment_at_def)
    obtain r2 inb2 where 2: "reassembler_insert r k (payload m) (FIN m) inb = Inr (r2, inb2)"
      "insert_meets_spec r inb k (payload m) (FIN m) r2 inb2"
      using insert_runs [OF inv p m(2) S'(2) S(2)] .
    then have 3: "insert_meets_spec r inb k (payload m) (FIN m) r1 inb1" using k(2) by simp
    have le: "first_unassembled r \<le> first_unassembled r1" by (rule assembly_insert(2) [OF inv p 3])
    have "is_closed inb \<Longrightarrow> is_closed inb1" "reach_end r \<Longrightarrow> reach_end r1"
      using 3 by (auto simp: insert_meets_spec_def)
    then have "rcv_finished rcv \<Longrightarrow> rcv_finished rcv1"
      using f(3) 1(2) by (simp add: synchronized_def)
    then show ?thesis using le False by (auto simp: progress_def eq [symmetric])
  qed
qed


lemma progress_read: "progress (got', rcv, r, inb') = progress (got, rcv, r, inb)"
  by (simp add: progress_def)

lemma progress_le:
  assumes "receiving S z rc y" "length S + 2 < 2 ^ 31" "rc < 2 ^ 62"
  shows "progress y \<le> length S + 2"
proof -
  obtain got rcv r inb where y: "y = (got, rcv, r, inb)" by (cases y) auto
  show ?thesis using received_closed(2) [OF assms(1)[unfolded y] assms(2,3)] by (simp add: y progress_def)
qed

lemma send_ack_ok:
  assumes "receiving S z rc (got, rcv, r, inb)" "length S + 2 < 2 ^ 31" "rc < 2 ^ 62"
  shows "acks_ok z (progress (got, rcv, r, inb)) {tcp_receiver_send rcv inb}"
proof -
  note f = received_closed [OF assms]
  have idx: "first_unassembled_index rcv = first_unassembled r"
    and zp: "initial_seq_num rcv = None \<or> initial_seq_num rcv = Some z"
    using f(3) by (simp_all add: synchronized_def)
  have "add64 (add64 (first_unassembled r) 1) (of_bool (rcv_finished rcv)) =
      Suc (first_unassembled r) + of_bool (rcv_finished rcv)"
    using f(2) assms(2) by (simp add: wadd_nowrap)
  then show ?thesis
    using idx zp by (auto simp: acks_ok_def tcp_receiver_send_def progress_def)
qed

lemma deliver_ack_inv:
  assumes inv: "sender_inv S z rto una (s, out)" "una \<le> n" and S: "length S + 2 < 2 ^ 31"
    and n: "n \<le> length S + 2" and a: "acks_ok z n A" "a \<in> A"
    and d: "unsent_msgs s = []" "tcp_sender_receive s a = Inr s'"
  shows "\<exists>una' \<le> n. sender_inv S z rto una' (s', out)"
proof -
  have w: "window_field a < 2 ^ 16" using a by (simp add: acks_ok_def)
  obtain s1 una' where 1: "tcp_sender_receive s a = Inr s1" "sender_inv S z rto una' (s1, out)"
    "una' = una \<or> (\<exists>b. ackno a = Some b \<and> una' \<le> unwrap_abs b z (next_seqno s)
        \<and> unwrap_abs b z (next_seqno s) \<le> next_seqno s)"
    by (rule receive_spec [OF inv(1) S d(1) w])
  have "una' \<le> n"
  proof (cases "una' = una")
    case True
    then show ?thesis using inv(2) by simp
  next
    case False
    then obtain b where b: "ackno a = Some b" "una' \<le> unwrap_abs b z (next_seqno s)" using 1(3) by blast
    then obtain k where k: "k \<le> n" "b = wrap_abs k z" using a by (auto simp: acks_ok_def)
    have "unwrap_abs b z (next_seqno s) = k"
      unfolding k(2) using k(1) n S inv_bounds(1) [OF inv(1) S] by (intro unwrap_wrap_abs) simp_all
    then show ?thesis using b k by simp
  qed
  then show ?thesis using 1(1,2) d(2) by auto
qed

lemma connected_inv:
  assumes "connected S z rto c rc x" and S: "length S + 2 < 2 ^ 31"
    and par: "rto < 2 ^ 64" "c < 2 ^ 64" "1031 \<le> rc" "rc < 2 ^ 62"
  shows "connection_inv S z rto rc x"
  using assms(1)
proof induction
  case start
  have "receiving S z rc ([], TCPReceiver, Reassembler, ByteStream rc)" by (rule receiving.start)
  then show ?case
    using sender_start [OF par(1,2)] by (auto simp: connection_inv_def initial_connection_def acks_ok_def)
next
  case (app_write x s out d out')
  show ?case
    by (rule connection_snd_step [OF app_write.IH]) (use app_write.hyps inv_write in auto)
next
  case (app_close x s out)
  show ?case
    by (rule connection_snd_step [OF app_close.IH]) (use app_close.hyps inv_close in auto)
next
  case (push x s out s' out')
  show ?case
  proof (rule connection_snd_step [OF push.IH])
    fix una assume "sender_inv S z rto una (snd_side x)"
    then have inv: "sender_inv S z rto una (s, out)" using push.hyps(2) by simp
    show "sender_inv S z rto una (s', out')"
      by (rule push_spec [OF inv S push.hyps(4,3)]) (use push.hyps(5) in simp)
  qed
next
  case (transmit x s out m s')
  have "connection_inv S z rto rc (x\<lparr>snd_side := (s', out)\<rparr>)"
    by (rule connection_snd_step [OF transmit.IH])
      (use transmit.hyps maybe_send_spec(1) [OF _ S transmit.hyps(3)] in auto)
  moreover have "\<forall>k \<in> set_option m. \<exists>j. sent_at S z j k"
  proof -
    obtain una where "sender_inv S z rto una (s, out)"
      using transmit.IH transmit.hyps(2) by (auto simp: connection_inv_def)
    from maybe_send_spec(2) [OF this S transmit.hyps(3)] show ?thesis by auto
  qed
  ultimately show ?case by (auto simp: connection_inv_def)
next
  case (timeout x s out ms s')
  show ?case
  proof (rule connection_snd_step [OF timeout.IH])
    fix una assume "sender_inv S z rto una (snd_side x)"
    then have inv: "sender_inv S z rto una (s, out)" using timeout.hyps(2) by simp
    show "sender_inv S z rto una (s', out)"
      by (rule tick_spec [OF inv S timeout.hyps(3), of ms]) (use timeout.hyps(4) in simp)
  qed
next
  case (deliver x m got rcv r inb rcv' r' inb')
  note i = deliver.IH [unfolded connection_inv_def]
  obtain k where k: "sent_at S z k m" using i deliver.hyps(2) by blast
  have a: "receiving S z rc (got, rcv, r, inb)" using i deliver.hyps(3) by simp
  note seg = sent_at_segment [OF k] segment_fits [OF k par(3)]
  have "receiving S z rc (got, rcv', r', inb')" by (rule receiving.segment [OF a seg deliver.hyps(4)])
  moreover have "progress (rcv_side x) \<le> progress (got, rcv', r', inb')"
    using progress_deliver [OF a S par(4) seg deliver.hyps(4)] deliver.hyps(3) by simp
  ultimately show ?case
    using i acks_ok_mono by (auto simp: connection_inv_def intro: le_trans)
next
  case (acknowledge x got rcv r inb)
  note i = acknowledge.IH [unfolded connection_inv_def]
  have "receiving S z rc (got, rcv, r, inb)" using i acknowledge.hyps(2) by simp
  from send_ack_ok [OF this S par(4)] show ?case
    using i acknowledge.hyps(2) by (auto simp: connection_inv_def acks_ok_def)
next
  case (deliver_ack x a s out s')
  note i = deliver_ack.IH [unfolded connection_inv_def]
  obtain una where una: "una \<le> progress (rcv_side x)" "sender_inv S z rto una (s, out)"
    using i deliver_ack.hyps(3) by auto
  have n: "progress (rcv_side x) \<le> length S + 2" using i progress_le [OF _ S par(4)] by blast
  have "acks_ok z (progress (rcv_side x)) (acks x)" using i by blast
  from deliver_ack_inv [OF una(2,1) S n this deliver_ack.hyps(2,4,5)] show ?case
    using i by (simp add: connection_inv_def)
next
  case (app_read x got rcv r inb n)
  note i = app_read.IH [unfolded connection_inv_def]
  have "receiving S z rc (got, rcv, r, inb)" using i app_read.hyps(2) by simp
  then have "receiving S z rc (got @ take n (peek inb), rcv, r, reader_pop inb n)" by (rule receiving.read)
  then show ?case
    using i app_read.hyps(2) progress_read [of "got @ take n (peek inb)" rcv r "reader_pop inb n" got inb]
    by (simp add: connection_inv_def)
qed


end
