(* ===== verification/TCP_Properties.thy ===== *)
theory TCP_Properties
  imports TCP_Connection
begin

text \<open>
  The properties of the TCP sender (\<open>src/src/tcp_sender.cc\<close>), of the TCP receiver
  (\<open>src/src/tcp_receiver.cc\<close>) and of the two joined by an unreliable network, with concrete
  runs that show their hypotheses can hold, and the uses of the sender that break it.
\<close>

section \<open>A concrete sender for the witnesses\<close>

definition example_syn :: tcp_sender_message where
  "example_syn = \<lparr>seqno = wrap_abs 0 (Wrap32 7), SYN = True, payload = [], FIN = False\<rparr>"

definition example_sender :: "nat \<Rightarrow> tcp_sender_message list \<Rightarrow> nat \<Rightarrow> bool \<Rightarrow> tcp_sender" where
  "example_sender window unacked n on =
     \<lparr>isn = Wrap32 7, has_not_sent_SYN = False, has_not_sent_FIN = True, stream_is_finished = False,
      zero_window_flag = False, unsent_msgs = [], unacked_msgs = unacked, unsent_seqnos = 0,
      unacked_seqnos = n, next_seqno = 1, window_size = window, retransmission_num = 0,
      sender_timer = \<lparr>is_on = on, initial_RTO_ms = 1000, RTO_ms = 1000, timeout_ms = 1000\<rparr>\<rparr>"

definition example_out :: byte_stream where
  "example_out = \<lparr>stream_capacity = 8, flags = 0, total_pushed = 1, total_popped = 0,
     buffer = \<lparr>buf_capacity = 8, buf_array = [65, 0, 0, 0, 0, 0, 0, 0], write_index = 1, read_index = 0\<rparr>\<rparr>"

lemma example_first_send:
  "maybe_send (TCPSender 1000 (Wrap32 7)) = (Some example_syn, example_sender 1 [example_syn] 1 True)"
  by (simp add: run_simps example_syn_def example_sender_def cong: by_value)

lemma sending_syn_sent:
  "sending [65] (Wrap32 7) 1000 8 (example_sender 1 [example_syn] 1 True, ByteStream 8)"
  by (rule sending.send [OF sending.start example_first_send])

lemma unwrap_small: "unwrap_abs (wrap_abs 1 z) z 1 = 1" "unwrap_abs (wrap_abs 2 z) z 1 = 2"
  "unwrap_abs (wrap_abs 0 z) z 1 = 0"
    "unwrap_abs (wrap_abs 2 z) z (Suc 0) = 2" "unwrap_abs (wrap_abs (Suc 0) z) z (Suc 0) = 1"
    "unwrap_abs (wrap_abs 0 z) z (Suc 0) = 0"
  by (simp_all add: unwrap_wrap_abs)

lemma example_ack:
  "tcp_sender_receive (example_sender 1 [example_syn] 1 True) \<lparr>ackno = Some (wrap_abs 1 (Wrap32 7)), window_field = 8\<rparr>
   = Inr (example_sender 8 [] 0 False)"
  by (simp add: tcp_sender_receive_def example_sender_def example_syn_def unwrap_small Let_def isOn_def
      sequence_length_def wadd_def wsub_def resetRTO_def timer_stop_def)

lemma sending_ready: "sending [65] (Wrap32 7) 1000 8 (example_sender 8 [] 0 False, example_out)"
proof -
  have "sending [65] (Wrap32 7) 1000 8 (example_sender 8 [] 0 False, ByteStream 8)"
    by (rule sending.receive [OF sending_syn_sent _ _ example_ack]) (simp_all add: example_sender_def)
  moreover have "writer_push (ByteStream 8) [65] = Inr example_out"
    by (simp add: run_simps example_out_def cong: by_value)
  moreover have "available_capacity (ByteStream 8) = 8" "peek (ByteStream 8) = []" "total_popped (ByteStream 8) = 0"
    using available_capacity_peek(1) [of "ByteStream 8"] by simp_all
  then have "piece_of [65] (total_popped (ByteStream 8) + length (peek (ByteStream 8)))
      (take (available_capacity (ByteStream 8)) [65])" by (simp only: piece_of_def) simp
  ultimately show ?thesis by (metis sending.app_write)
qed

section \<open>Properties of the sender\<close>

text \<open>
  Every segment the sender ever emits is a segment of the stream: it has the
  sequence number of its first byte relative to the initial sequence number, carries exactly
  the bytes of the stream at that position, at most \<open>MAX_PAYLOAD_SIZE\<close> of them, has SYN only
  at the start and FIN only at the end, and occupies at least one sequence number.
\<close>

theorem sender_emits_segments:
  assumes "sending S z rto c (s, out)" and "length S + 2 < 2 ^ 31" and "rto < 2 ^ 64" and "c < 2 ^ 64"
    and "maybe_send s = (Some m, s')"
  shows "segment_of S z m \<and> length (payload m) \<le> MAX_PAYLOAD_SIZE \<and> 0 < sequence_length m"
proof -
  obtain una where "sender_inv S z rto una (s, out)" using sending_inv [OF assms(1-4)] by blast
  from maybe_send_spec(2) [OF this assms(2,5) refl] obtain k where k: "sent_at S z k m" by blast
  then have "0 < seq_len m" "length (payload m) \<le> 1000" by (simp_all add: sent_at_def MAX_PAYLOAD_SIZE_def)
  moreover from this have "seq_len m < 2 ^ 64" by (simp add: seq_len_def)
  ultimately have "0 < sequence_length m" by (simp add: sequence_length_eq)
  then show ?thesis using k sent_at_segment [OF k] by (simp add: sent_at_def)
qed

theorem sender_emits_segments_witness:
  "maybe_send (TCPSender 1000 (Wrap32 7)) = (Some example_syn, example_sender 1 [example_syn] 1 True)
   \<and> segment_of [65] (Wrap32 7) example_syn \<and> length (payload example_syn) \<le> MAX_PAYLOAD_SIZE
   \<and> 0 < sequence_length example_syn"
proof -
  have "length [65 :: byte] + 2 < 2 ^ 31" "(1000 :: nat) < 2 ^ 64" "(8 :: nat) < 2 ^ 64" by simp_all
  from sender_emits_segments [OF sending.start [of "[65]" "Wrap32 7" 1000 8] this example_first_send]
  show ?thesis using example_first_send by simp
qed

text \<open>
  The sender never fails: in every reachable state in which nothing is queued,
  \<open>push\<close> ends, \<open>receive\<close> meets no failed assertion whatever the acknowledgment, and \<open>tick\<close>
  never takes the front of an empty queue.
\<close>

theorem sender_never_fails:
  assumes "sending S z rto c (s, out)" and "length S + 2 < 2 ^ 31" and "rto < 2 ^ 64" and "c < 2 ^ 64"
    and "unsent_msgs s = []" and "window_field rm < 2 ^ 16"
  shows "(\<not> has_not_sent_SYN s \<or> peek out = [] \<longrightarrow> (\<exists>y. push s out = Inr y))
    \<and> (\<exists>s'. tcp_sender_receive s rm = Inr s') \<and> (\<exists>s'. tick s ms = Inr s')"
proof -
  obtain una where inv: "sender_inv S z rto una (s, out)" using sending_inv [OF assms(1-4)] by blast
  have "\<exists>y. push s out = Inr y" if "\<not> has_not_sent_SYN s \<or> peek out = []"
    by (rule push_spec [OF inv assms(2) that assms(5)]) blast
  moreover have "\<exists>s'. tcp_sender_receive s rm = Inr s'"
    by (rule receive_spec [OF inv assms(2,5,6)]) blast
  moreover have "\<exists>s'. tick s ms = Inr s'"
    by (rule tick_spec [OF inv assms(2,5), of ms]) blast
  ultimately show ?thesis by blast
qed

theorem sender_never_fails_witness:
  "(\<exists>y. push (example_sender 8 [] 0 False) example_out = Inr y)
   \<and> (\<exists>s'. tcp_sender_receive (example_sender 8 [] 0 False) \<lparr>ackno = Some (Wrap32 3), window_field = 0\<rparr> = Inr s')
   \<and> (\<exists>s'. tick (example_sender 8 [] 0 False) 5000 = Inr s')"
proof -
  have "length [65 :: byte] + 2 < 2 ^ 31" "(1000 :: nat) < 2 ^ 64" "(8 :: nat) < 2 ^ 64"
    "unsent_msgs (example_sender 8 [] 0 False) = []"
    "window_field \<lparr>ackno = Some (Wrap32 3), window_field = 0\<rparr> < 2 ^ 16" by (simp_all add: example_sender_def)
  from sender_never_fails [OF sending_ready this, of 5000] show ?thesis by (simp add: example_sender_def)
qed

text \<open>
  \<open>C23\<close>: the accounting is exact. The segments queued for retransmission, those sent and
  unacknowledged and those queued for the first time are, in this order, consecutive
  segments of the stream that end at the next sequence number, and the number of sequence
  numbers in flight is their total length.
\<close>

theorem sender_accounts_exactly:
  assumes "sending S z rto c (s, out)" and "length S + 2 < 2 ^ 31" and "rto < 2 ^ 64" and "c < 2 ^ 64"
  shows "\<exists>una. chain S z una (retransmitting s @ unacked_msgs s @ fresh s) (next_seqno s)
    \<and> sequence_numbers_in_flight s = seq_lens (retransmitting s @ unacked_msgs s @ fresh s)
    \<and> una + sequence_numbers_in_flight s = next_seqno s
    \<and> isOn (sender_timer s) = (retransmitting s @ unacked_msgs s \<noteq> [])"
proof -
  obtain una where inv: "sender_inv S z rto una (s, out)" using sending_inv [OF assms] by blast
  note i = sender_invD [OF inv]
  note b = inv_bounds [OF inv assms(2)]
  have ch: "chain S z una (retransmitting s @ unacked_msgs s @ fresh s) (next_seqno s)"
    using i(1,5) by (simp add: queues_ok_def)
  have "sequence_numbers_in_flight s = unsent_seqnos s + unacked_seqnos s"
    using b(4) by (simp add: sequence_numbers_in_flight_def wadd_nowrap)
  moreover have "isOn (sender_timer s) = (retransmitting s @ unacked_msgs s \<noteq> [])"
    using i(6) by (simp add: timer_ok_def)
  ultimately show ?thesis using ch chain_end [OF ch] b(3) by (intro exI [of _ una]) simp
qed

theorem sender_accounts_exactly_witness:
  "\<exists>una. chain [65] (Wrap32 7) una (retransmitting (example_sender 1 [example_syn] 1 True)
       @ unacked_msgs (example_sender 1 [example_syn] 1 True) @ fresh (example_sender 1 [example_syn] 1 True))
       (next_seqno (example_sender 1 [example_syn] 1 True))
    \<and> una + sequence_numbers_in_flight (example_sender 1 [example_syn] 1 True) = 1"
proof -
  have "length [65 :: byte] + 2 < 2 ^ 31" "(1000 :: nat) < 2 ^ 64" "(8 :: nat) < 2 ^ 64" by simp_all
  from sender_accounts_exactly [OF sending_syn_sent this] obtain una where
    "chain [65] (Wrap32 7) una (retransmitting (example_sender 1 [example_syn] 1 True)
       @ unacked_msgs (example_sender 1 [example_syn] 1 True) @ fresh (example_sender 1 [example_syn] 1 True))
       (next_seqno (example_sender 1 [example_syn] 1 True))"
    "una + sequence_numbers_in_flight (example_sender 1 [example_syn] 1 True)
       = next_seqno (example_sender 1 [example_syn] 1 True)" by blast
  moreover have "next_seqno (example_sender 1 [example_syn] 1 True) = 1" by (simp add: example_sender_def)
  ultimately show ?thesis by auto
qed

text \<open>
  \<open>C24\<close>: \<open>push\<close> fills the window and no more. It takes from the stream exactly as many
  bytes as there are and the window has room for (one byte for a window of zero, once),
  cuts them into new segments in order, none empty and none longer than
  \<open>MAX_PAYLOAD_SIZE\<close>, and puts a FIN at most on the last.
\<close>

theorem push_fills_window:
  assumes "sending S z rto c (s, out)" and "length S + 2 < 2 ^ 31" and "rto < 2 ^ 64" and "c < 2 ^ 64"
    and "unsent_msgs s = []" and "\<not> has_not_sent_SYN s"
  shows "\<exists>s' out' ms. push s out = Inr (s', out')
    \<and> unsent_msgs s' = map (\<lambda>m. \<lparr>msg = m, is_retransmitted = False\<rparr>) ms
    \<and> concat (map payload ms) @ peek out' = peek out
    \<and> length (concat (map payload ms)) = min (length (peek out))
        (if window_size s = 0 then of_bool (zero_window_flag s)
         else window_size s - sequence_numbers_in_flight s)
    \<and> (\<forall>m \<in> set ms. payload m \<noteq> [] \<and> length (payload m) \<le> MAX_PAYLOAD_SIZE)
    \<and> (\<forall>m \<in> set (butlast ms). \<not> FIN m)
    \<and> sequence_numbers_in_flight s' \<le> max (sequence_numbers_in_flight s + of_bool (window_size s = 0)) (window_size s)"
proof -
  obtain una where inv: "sender_inv S z rto una (s, out)" using sending_inv [OF assms(1-4)] by blast
  have fl: "sequence_numbers_in_flight t = in_flight t" if "sender_inv S z rto una (t, o1)" for t o1
    using inv_bounds(4) [OF that assms(2)] by (simp add: sequence_numbers_in_flight_def in_flight_def wadd_nowrap)
  have syn: "\<not> has_not_sent_SYN s \<or> peek out = []" using assms(6) by simp
  obtain s' out' ms where 1: "push s out = Inr (s', out')" "sender_inv S z rto una (s', out')"
    "unsent_msgs s' = map (\<lambda>m. \<lparr>msg = m, is_retransmitted = False\<rparr>) ms"
    "concat (map payload ms) @ peek out' = peek out"
    "length (concat (map payload ms)) = min (length (peek out)) (room s)"
    "\<forall>m \<in> set ms. payload m \<noteq> [] \<and> length (payload m) \<le> MAX_PAYLOAD_SIZE \<and> \<not> SYN m"
    "\<forall>m \<in> set (butlast ms). \<not> FIN m"
    "in_flight s' \<le> max (in_flight s + room s) (window_size s)"
    by (rule push_spec [OF inv assms(2) syn assms(5)])
  have "in_flight s + room s \<le> max (in_flight s + of_bool (window_size s = 0)) (window_size s)"
    by (auto simp: room_def)
  then have "in_flight s' \<le> max (in_flight s + of_bool (window_size s = 0)) (window_size s)"
    using 1(8) by (auto simp: max_def split: if_splits)
  then show ?thesis
    using 1(1,3-7) fl [OF inv] fl [OF 1(2)] by (intro exI [of _ s'] exI [of _ out'] exI [of _ ms]) (simp add: room_def)
qed

theorem push_fills_window_witness:
  "\<exists>s' out' ms. push (example_sender 8 [] 0 False) example_out = Inr (s', out')
    \<and> unsent_msgs s' = map (\<lambda>m. \<lparr>msg = m, is_retransmitted = False\<rparr>) ms
    \<and> concat (map payload ms) @ peek out' = [65] \<and> length (concat (map payload ms)) = 1"
proof -
  let ?s = "example_sender 8 [] 0 False"
  have "length [65 :: byte] + 2 < 2 ^ 31" "(1000 :: nat) < 2 ^ 64" "(8 :: nat) < 2 ^ 64"
    "unsent_msgs ?s = []" "\<not> has_not_sent_SYN ?s" by (simp_all add: example_sender_def)
  note p = push_fills_window [OF sending_ready this]
  have pk: "peek example_out = [65]" by (simp add: run_simps example_out_def cong: by_value)
  have eq: "min (length (peek example_out)) (if window_size ?s = 0 then of_bool (zero_window_flag ?s)
      else window_size ?s - sequence_numbers_in_flight ?s) = 1"
    by (simp add: pk) (simp add: example_sender_def sequence_numbers_in_flight_def wadd_def)
  show ?thesis using p [unfolded eq] unfolding pk by blast
qed

text \<open>A byte is queued behind the SYN, which is not acknowledged.\<close>

definition example_queued :: tcp_sender where
  "example_queued = (example_sender 8 [example_syn] 1 True)
     \<lparr>unsent_msgs := [\<lparr>msg = \<lparr>seqno = Wrap32 8, SYN = False, payload = [65], FIN = False\<rparr>, is_retransmitted = False\<rparr>],
      unsent_seqnos := 1, next_seqno := 2\<rparr>"

lemma sending_queued: "\<exists>out. sending [65] (Wrap32 7) 1000 8 (example_queued, out)"
proof -
  let ?s = "example_sender 8 [example_syn] 1 True"
  have "tcp_sender_receive (example_sender 1 [example_syn] 1 True) \<lparr>ackno = None, window_field = 8\<rparr> = Inr ?s"
    by (simp add: tcp_sender_receive_def example_sender_def)
  then have "sending [65] (Wrap32 7) 1000 8 (?s, ByteStream 8)"
    by (rule sending.receive [OF sending_syn_sent, rotated 2]) (simp_all add: example_sender_def)
  moreover have "writer_push (ByteStream 8) [65] = Inr example_out"
    by (simp add: run_simps example_out_def cong: by_value)
  moreover have "available_capacity (ByteStream 8) = 8" "peek (ByteStream 8) = []" "total_popped (ByteStream 8) = 0"
    using available_capacity_peek(1) [of "ByteStream 8"] by simp_all
  then have "piece_of [65] (total_popped (ByteStream 8) + length (peek (ByteStream 8)))
      (take (available_capacity (ByteStream 8)) [65])" by (simp only: piece_of_def) simp
  ultimately have x: "sending [65] (Wrap32 7) 1000 8 (?s, example_out)" by (metis sending.app_write)
  have pk: "peek example_out = [65]" by (simp add: run_simps example_out_def cong: by_value)
  have w: "window_open ?s" by (simp add: window_open_def example_sender_def wadd_def)
  have "is_finished (reader_pop example_out 7) = False" by (simp add: run_simps example_out_def cong: by_value)
  moreover have "wrap 1 (Wrap32 7) = Wrap32 8" by code_simp
  ultimately have "push ?s example_out = Inr (example_queued, reader_pop example_out 7)"
    unfolding push_def pk using w
    by (simp add: Let_def attach_FIN_def set_last_FIN_def example_sender_def example_queued_def wsub_def wadd_def
        sequence_length_def wrap_abs_def MAX_PAYLOAD_SIZE_def)
  then show ?thesis using sending.push [OF x _ _] by (fastforce simp: example_sender_def)
qed

text \<open>
  \<open>C25\<close>: when the timer expires and no retransmission is still queued, the oldest unacknowledged
  segment, and it alone, is queued again, in front of the new segments that may wait there, and is
  what \<open>maybe_send\<close> sends next, after which the queues are what they were; the number of consecutive
  retransmissions goes up and the timeout doubles, at their machine widths, unless the window is
  zero; the timer restarts with the timeout; and what is in flight does not change.
\<close>

theorem tick_retransmits_oldest:
  assumes "sending S z rto c (s, out)" and "length S + 2 < 2 ^ 31" and "rto < 2 ^ 64" and "c < 2 ^ 64"
    and "\<forall>w \<in> set (unsent_msgs s). \<not> is_retransmitted w"
    and "isOn (sender_timer s)" and "timeout_ms (sender_timer s) \<le> ms"
  shows "\<exists>m s' s''. tick s ms = Inr s' \<and> unacked_msgs s = m # unacked_msgs s'
    \<and> unsent_msgs s' = \<lparr>msg = m, is_retransmitted = True\<rparr> # unsent_msgs s
    \<and> maybe_send s' = (Some m, s'') \<and> unacked_msgs s'' = unacked_msgs s \<and> unsent_msgs s'' = unsent_msgs s
    \<and> consecutive_retransmissions s' =
        (if window_size s = 0 then consecutive_retransmissions s else add32 (consecutive_retransmissions s) 1)
    \<and> RTO_ms (sender_timer s') =
        (if window_size s = 0 then RTO_ms (sender_timer s) else mul64 (RTO_ms (sender_timer s)) 2)
    \<and> isOn (sender_timer s') \<and> timeout_ms (sender_timer s') = RTO_ms (sender_timer s')
    \<and> sequence_numbers_in_flight s' = sequence_numbers_in_flight s"
proof -
  obtain una where inv: "sender_inv S z rto una (s, out)" using sending_inv [OF assms(1-4)] by blast
  note i = sender_invD [OF inv] and b = inv_bounds [OF inv assms(2)]
  obtain m rest where m: "unacked_msgs s = m # rest" by (rule timer_oldest [OF inv assms(6,5)])
  have syn: "\<not> has_not_sent_SYN s" using i(4) m by (auto simp: flags_ok_def)
  define t where "t = timer_tick (sender_timer s) ms"
  have "timeout_ms t = 0" using i(6) assms(7) by (simp add: t_def expired_tick timer_ok_def)
  then have e: "hasExpired t = Inr True" "is_on t" "RTO_ms t = RTO_ms (sender_timer s)"
    using assms(6) by (simp_all add: hasExpired_def t_def timer_tick_def isOn_def)
  have len: "sequence_length m = seq_len m" using b(5) m by simp
  have le: "seq_len m \<le> unacked_seqnos s" using i(5) m by (simp add: queues_ok_def)
  define k where "k = seq_len m"
  have fl: "add32 (add32 (unsent_seqnos s) k) (sub32 (unacked_seqnos s) k) = add32 (unsent_seqnos s) (unacked_seqnos s)"
    using le b(4) by (simp add: k_def wadd_nowrap wsub_nowrap)
  define s1 where "s1 = s\<lparr>unacked_seqnos := sub32 (unacked_seqnos s) k, unsent_seqnos := add32 (unsent_seqnos s) k,
      unacked_msgs := rest, unsent_msgs := \<lparr>msg = m, is_retransmitted = True\<rparr> # unsent_msgs s\<rparr>"
  have code: "tick s ms = (if window_size s \<noteq> 0 then andthen (doubleRTO t) (\<lambda>t'.
        Inr (s1\<lparr>retransmission_num := add32 (retransmission_num s) 1, sender_timer := timer_start t'\<rparr>))
      else Inr (s1\<lparr>sender_timer := timer_start t\<rparr>))"
    using assms(6) e(1) by (simp add: tick_def t_def [symmetric] m len Let_def s1_def k_def)
  obtain s' where s': "tick s ms = Inr s'" "unacked_msgs s' = rest" "unsent_msgs s' = unsent_msgs s1"
    "unsent_seqnos s' = unsent_seqnos s1" "unacked_seqnos s' = unacked_seqnos s1" "\<not> has_not_sent_SYN s'"
    "retransmission_num s' = (if window_size s = 0 then retransmission_num s else add32 (retransmission_num s) 1)"
    "RTO_ms (sender_timer s') = (if window_size s = 0 then RTO_ms (sender_timer s) else mul64 (RTO_ms (sender_timer s)) 2)"
    "isOn (sender_timer s')" "timeout_ms (sender_timer s') = RTO_ms (sender_timer s')"
  proof (cases "window_size s = 0")
    case True
    then show thesis using that [of "s1\<lparr>sender_timer := timer_start t\<rparr>"] e(3) syn
      by (simp add: code s1_def timer_start_def isOn_def)
  next
    case False
    then show thesis using that [of "s1\<lparr>retransmission_num := add32 (retransmission_num s) 1,
          sender_timer := timer_start (t\<lparr>RTO_ms := mul64 (RTO_ms t) 2\<rparr>)\<rparr>"] e(2,3) syn
      by (simp add: code s1_def timer_start_def isOn_def doubleRTO_def)
  qed
  then have q: "unsent_msgs s' = \<lparr>msg = m, is_retransmitted = True\<rparr> # unsent_msgs s" by (simp add: s1_def)
  obtain s'' where s'': "maybe_send s' = (Some m, s'')" "unacked_msgs s'' = unacked_msgs s" "unsent_msgs s'' = unsent_msgs s"
    using s'(2,6) q by (simp add: maybe_send_def m Let_def)
  have "sequence_numbers_in_flight s' = sequence_numbers_in_flight s"
    using fl by (simp add: sequence_numbers_in_flight_def s'(4,5) s1_def)
  with s' q s'' m show ?thesis unfolding consecutive_retransmissions_def
    by (intro exI [of _ m] exI [of _ s'] exI [of _ s'']) simp
qed

theorem tick_retransmits_oldest_witness:
  "\<exists>m s' s''. tick example_queued 1000 = Inr s' \<and> unacked_msgs example_queued = m # unacked_msgs s'
    \<and> unsent_msgs s' = \<lparr>msg = m, is_retransmitted = True\<rparr> # unsent_msgs example_queued \<and> unsent_msgs example_queued \<noteq> []
    \<and> maybe_send s' = (Some m, s'') \<and> unsent_msgs s'' = unsent_msgs example_queued \<and> timeout_ms (sender_timer s') = 2000"
proof -
  obtain out where x: "sending [65] (Wrap32 7) 1000 8 (example_queued, out)" using sending_queued by blast
  have h: "length [65 :: byte] + 2 < 2 ^ 31" "(1000 :: nat) < 2 ^ 64" "(8 :: nat) < 2 ^ 64"
    "\<forall>w \<in> set (unsent_msgs example_queued). \<not> is_retransmitted w" "isOn (sender_timer example_queued)"
    "timeout_ms (sender_timer example_queued) \<le> 1000"
    by (simp_all add: example_queued_def example_sender_def isOn_def)
  have "window_size example_queued \<noteq> 0" "mul64 (RTO_ms (sender_timer example_queued)) 2 = 2000"
    "unsent_msgs example_queued \<noteq> []" by (simp_all add: example_queued_def example_sender_def wmul_def)
  with tick_retransmits_oldest [OF x h] show ?thesis unfolding if_False by metis
qed

text \<open>The queued byte is sent, and 300 milliseconds pass.\<close>

definition example_waiting :: tcp_sender where
  "example_waiting = (example_sender 8 [example_syn, \<lparr>seqno = Wrap32 8, SYN = False, payload = [65], FIN = False\<rparr>] 2 True)
     \<lparr>next_seqno := 2, sender_timer := \<lparr>is_on = True, initial_RTO_ms = 1000, RTO_ms = 1000, timeout_ms = 700\<rparr>\<rparr>"

lemma sending_waiting: "\<exists>out. sending [65] (Wrap32 7) 1000 8 (example_waiting, out)"
proof -
  obtain out where x: "sending [65] (Wrap32 7) 1000 8 (example_queued, out)" using sending_queued by blast
  let ?s = "example_waiting\<lparr>sender_timer := \<lparr>is_on = True, initial_RTO_ms = 1000, RTO_ms = 1000, timeout_ms = 1000\<rparr>\<rparr>"
  have "maybe_send example_queued = (Some (msg (hd (unsent_msgs example_queued))), ?s)"
    by (simp add: example_queued_def example_waiting_def example_sender_def maybe_send_def Let_def isOn_def
        sequence_length_def wadd_def wsub_def)
  then have y: "sending [65] (Wrap32 7) 1000 8 (?s, out)" by (rule sending.send [OF x])
  have "tick ?s 300 = Inr example_waiting"
    by (simp add: example_waiting_def example_sender_def tick_def timer_tick_def isOn_def hasExpired_def wsub_def)
  then have "sending [65] (Wrap32 7) 1000 8 (example_waiting, out)"
    by (rule sending.tick [OF y, rotated]) (simp add: example_waiting_def example_sender_def)
  then show ?thesis by blast
qed

text \<open>
  \<open>C26\<close>: an acknowledgment takes effect exactly, whatever is queued. The window is updated; an
  acknowledgment beyond the next sequence number changes nothing else; any other removes from the
  front of the unacknowledged segments those that end at or before it and no others. If it removed
  any, the retransmission count is zero, the timeout is the initial one, and the timer stops when
  nothing is left to acknowledge and restarts with the initial timeout otherwise; if it removed
  none, timer and count stay as they are.
\<close>

theorem receive_drops_acknowledged:
  assumes "sending S z rto c (s, out)" and "length S + 2 < 2 ^ 31" and "rto < 2 ^ 64" and "c < 2 ^ 64"
    and "ackno rm = Some a" and "n = unwrap_abs a z (next_seqno s)"
  shows "\<exists>s'. tcp_sender_receive s rm = Inr s' \<and> window_size s' = window_field rm
    \<and> unsent_msgs s' = unsent_msgs s
    \<and> unacked_msgs s' = (if n > next_seqno s then unacked_msgs s
        else dropWhile (\<lambda>m. unwrap_abs (seqno m) z (next_seqno s) + sequence_length m \<le> n) (unacked_msgs s))
    \<and> (if unacked_msgs s' = unacked_msgs s
       then sender_timer s' = sender_timer s \<and> consecutive_retransmissions s' = consecutive_retransmissions s
       else consecutive_retransmissions s' = 0 \<and> RTO_ms (sender_timer s') = rto
         \<and> isOn (sender_timer s') = (unacked_msgs s' \<noteq> [])
         \<and> (unacked_msgs s' \<noteq> [] \<longrightarrow> timeout_ms (sender_timer s') = rto))"
proof -
  obtain una where inv: "sender_inv S z rto una (s, out)" using sending_inv [OF assms(1-4)] by blast
  note i = sender_invD [OF inv] and b = inv_bounds [OF inv assms(2)]
  let ?p = "\<lambda>m. unwrap_abs (seqno m) z (next_seqno s) + sequence_length m \<le> n"
  define s1 where "s1 = s\<lparr>window_size := window_field rm, zero_window_flag := (window_field rm = 0)\<rparr>"
  show ?thesis
  proof (cases "n > next_seqno s")
    case True
    then have "tcp_sender_receive s rm = Inr s1"
      by (simp add: tcp_sender_receive_def assms(5,6) i(1) Let_def s1_def)
    then show ?thesis using True by (simp add: s1_def consecutive_retransmissions_def)
  next
    case False
    have code: "tcp_sender_receive s rm = andthen (drop_acked z (next_seqno s) n (sender_timer s) (unacked_msgs s)
        (unacked_seqnos s) False) (\<lambda>(rest, k, c).
      if c then andthen (resetRTO (sender_timer s)) (\<lambda>t. Inr (s1\<lparr>unacked_msgs := rest, unacked_seqnos := k,
          retransmission_num := 0, sender_timer := (if rest = [] then timer_stop t else timer_start t)\<rparr>))
      else Inr (s1\<lparr>unacked_msgs := rest, unacked_seqnos := k\<rparr>))"
      using False by (simp add: tcp_sender_receive_def assms(5,6) i(1) Let_def s1_def cong: if_cong)
    obtain rest k c where d: "drop_acked z (next_seqno s) n (sender_timer s) (unacked_msgs s)
        (unacked_seqnos s) False = Inr (rest, k, c)"
      using drop_acked_runs [OF timer_unacked [OF inv]] by (metis prod.exhaust)
    have "dropWhile (\<lambda>m. add64 (unwrap_abs (seqno m) z (next_seqno s)) (sequence_length m) \<le> n) (unacked_msgs s)
        = dropWhile ?p (unacked_msgs s)"
      by (rule dropWhile_cong) (simp_all add: ends_exactly [OF inv assms(2)])
    then have r: "rest = dropWhile ?p (unacked_msgs s)" "c = (rest \<noteq> unacked_msgs s)"
      using drop_acked_dropWhile [OF d] by simp_all
    show ?thesis
    proof (cases "rest = unacked_msgs s")
      case True
      then have "tcp_sender_receive s rm = Inr (s1\<lparr>unacked_msgs := rest, unacked_seqnos := k\<rparr>)"
        using r(2) by (simp add: code d)
      then show ?thesis using False True r(1) by (simp add: s1_def consecutive_retransmissions_def)
    next
      case changed: False
      have "unacked_msgs s \<noteq> []"
      proof
        assume "unacked_msgs s = []"
        then show False using changed r(1) by simp
      qed
      then have on: "is_on (sender_timer s)" using timer_unacked [OF inv] by (simp add: isOn_def)
      have "initial_RTO_ms (sender_timer s) = rto" using i(6) by (simp add: timer_ok_def)
      then have "resetRTO (sender_timer s) = Inr ((sender_timer s)\<lparr>RTO_ms := rto\<rparr>)" using on by (simp add: resetRTO_def)
      then show ?thesis using False changed r
        by (simp add: code d s1_def consecutive_retransmissions_def timer_start_def timer_stop_def isOn_def)
    qed
  qed
qed

theorem receive_drops_acknowledged_witness:
  "\<exists>s'. tcp_sender_receive example_waiting \<lparr>ackno = Some (Wrap32 8), window_field = 5\<rparr> = Inr s'
    \<and> unacked_msgs s' = tl (unacked_msgs example_waiting) \<and> unacked_msgs s' \<noteq> [] \<and> window_size s' = 5
    \<and> timeout_ms (sender_timer example_waiting) = 700 \<and> timeout_ms (sender_timer s') = 1000 \<and> isOn (sender_timer s')"
proof -
  obtain out where x: "sending [65] (Wrap32 7) 1000 8 (example_waiting, out)" using sending_waiting by blast
  let ?m = "\<lparr>seqno = Wrap32 8, SYN = False, payload = [65], FIN = False\<rparr>" and ?a = "\<lparr>ackno = Some (Wrap32 8), window_field = 5\<rparr>"
  have h: "length [65 :: byte] + 2 < 2 ^ 31" "(1000 :: nat) < 2 ^ 64" "(8 :: nat) < 2 ^ 64" by simp_all
  have nx: "next_seqno example_waiting = 2" and un: "unacked_msgs example_waiting = [example_syn, ?m]"
    and t: "timeout_ms (sender_timer example_waiting) = 700"
    by (simp_all add: example_waiting_def example_sender_def)
  have wr: "Wrap32 8 = wrap_abs 1 (Wrap32 7)" by code_simp
  have u: "unwrap_abs (Wrap32 8) (Wrap32 7) 2 = 1" unfolding wr by (rule unwrap_wrap_abs) simp_all
  moreover have "unwrap_abs (seqno example_syn) (Wrap32 7) 2 = 0"
    unfolding example_syn_def tcp_sender_message.simps by (rule unwrap_wrap_abs) simp_all
  moreover have "sequence_length example_syn = 1" "sequence_length ?m = 1"
    by (simp_all add: sequence_length_def example_syn_def wadd_def)
  ultimately have d: "dropWhile (\<lambda>m. unwrap_abs (seqno m) (Wrap32 7) (next_seqno example_waiting) + sequence_length m \<le> 1)
      (unacked_msgs example_waiting) = [?m]" unfolding nx un by simp
  have n: "1 = unwrap_abs (Wrap32 8) (Wrap32 7) (next_seqno example_waiting)" unfolding nx u ..
  have a: "ackno ?a = Some (Wrap32 8)" "window_field ?a = 5" by simp_all
  from receive_drops_acknowledged [OF x h a(1) n] obtain s' where r:
    "tcp_sender_receive example_waiting ?a = Inr s'" "window_size s' = 5"
    "unacked_msgs s' = (if 1 > next_seqno example_waiting then unacked_msgs example_waiting else [?m])"
    "if unacked_msgs s' = unacked_msgs example_waiting
       then sender_timer s' = sender_timer example_waiting \<and> consecutive_retransmissions s' = consecutive_retransmissions example_waiting
       else consecutive_retransmissions s' = 0 \<and> RTO_ms (sender_timer s') = 1000
         \<and> isOn (sender_timer s') = (unacked_msgs s' \<noteq> [])
         \<and> (unacked_msgs s' \<noteq> [] \<longrightarrow> timeout_ms (sender_timer s') = 1000)"
    unfolding d a(2) by blast
  have m: "unacked_msgs s' = [?m]" using r(3) by (simp add: nx)
  have "isOn (sender_timer s')" "timeout_ms (sender_timer s') = 1000" using r(4) by (simp_all add: m un)
  with r(1,2) m t show ?thesis unfolding un by simp
qed

text \<open>
  \<open>C28\<close>: exponential backoff. In every reachable state the retransmission timeout is the
  initial one doubled as often as the number of consecutive retransmissions says, both at
  their machine widths, and the timer never waits longer than 64 bits can say.
\<close>

theorem timeout_backs_off:
  assumes "sending S z rto c (s, out)" and "length S + 2 < 2 ^ 31" and "rto < 2 ^ 64" and "c < 2 ^ 64"
  shows "\<exists>k. consecutive_retransmissions s = k mod 2 ^ 32 \<and> RTO_ms (sender_timer s) = (rto * 2 ^ k) mod 2 ^ 64
    \<and> timeout_ms (sender_timer s) < 2 ^ 64"
proof -
  obtain una where inv: "sender_inv S z rto una (s, out)" using sending_inv [OF assms] by blast
  then show ?thesis
    unfolding consecutive_retransmissions_def using sender_invD(6) [OF inv] by (auto simp: timer_ok_def)
qed

theorem timeout_backs_off_witness:
  "\<exists>k. consecutive_retransmissions (example_sender 1 [example_syn] 1 True) = k mod 2 ^ 32
    \<and> RTO_ms (sender_timer (example_sender 1 [example_syn] 1 True)) = (1000 * 2 ^ k) mod 2 ^ 64
    \<and> timeout_ms (sender_timer (example_sender 1 [example_syn] 1 True)) < 2 ^ 64"
proof -
  have "length [65 :: byte] + 2 < 2 ^ 31" "(1000 :: nat) < 2 ^ 64" "(8 :: nat) < 2 ^ 64" by simp_all
  from timeout_backs_off [OF sending_syn_sent this] show ?thesis .
qed

section \<open>Uses that break the sender\<close>

text \<open>
  Data pushed before the SYN has been sent breaks the sender. The SYN is attached to
  the first data segment when it is sent, but its sequence number is not counted: the
  counter of unsent sequence numbers wraps around below zero, the next sequence number is
  one too small, and the receiver's acknowledgment of the SYN and the byte is discarded as
  impossible, so that the segment is never taken off the queue.
\<close>

theorem data_before_SYN_is_never_acknowledged:
  "\<exists>out1 s1 out2 m s2 s3. writer_push (ByteStream 8) [65] = Inr out1
    \<and> push (TCPSender 1000 z) out1 = Inr (s1, out2) \<and> maybe_send s1 = (Some m, s2)
    \<and> SYN m \<and> payload m = [65] \<and> sequence_length m = 2
    \<and> unsent_msgs s2 = [] \<and> unsent_seqnos s2 = 2 ^ 32 - 1 \<and> next_seqno s2 = 1
    \<and> tcp_sender_receive s2 \<lparr>ackno = Some (wrap_abs 2 z), window_field = 8\<rparr> = Inr s3
    \<and> unacked_msgs s3 = [m]"
proof -
  let ?out = "\<lambda>r. \<lparr>stream_capacity = 8, flags = 0, total_pushed = 1, total_popped = r,
    buffer = \<lparr>buf_capacity = 8, buf_array = [65, 0, 0, 0, 0, 0, 0, 0], write_index = 1, read_index = r\<rparr>\<rparr>"
  let ?m = "\<lambda>b. \<lparr>seqno = wrap_abs 0 z, SYN = b, payload = [65], FIN = False\<rparr>"
  let ?s = "\<lambda>syn unsent unacked n k w b. \<lparr>isn = z, has_not_sent_SYN = syn, has_not_sent_FIN = True,
     stream_is_finished = False, zero_window_flag = False, unsent_msgs = unsent, unacked_msgs = unacked,
     unsent_seqnos = n, unacked_seqnos = k, next_seqno = 1, window_size = w, retransmission_num = 0,
     sender_timer = \<lparr>is_on = b, initial_RTO_ms = 1000, RTO_ms = 1000, timeout_ms = 1000\<rparr>\<rparr>"
  let ?s1 = "?s True [\<lparr>msg = ?m False, is_retransmitted = False\<rparr>] [] 1 0 1 False"
  have "writer_push (ByteStream 8) [65] = Inr (?out 0)"
    by (simp add: run_simps cong: by_value)
  moreover have "push (TCPSender 1000 z) (?out 0) = Inr (?s1, ?out 1)"
    by (simp add: run_simps cong: by_value)
  moreover have "maybe_send ?s1 = (Some (?m True), ?s False [] [?m True] (2 ^ 32 - 1) 2 1 True)"
    by (simp add: run_simps cong: by_value)
  moreover have "tcp_sender_receive (?s False [] [?m True] (2 ^ 32 - 1) 2 1 True)
      \<lparr>ackno = Some (wrap_abs 2 z), window_field = 8\<rparr> = Inr (?s False [] [?m True] (2 ^ 32 - 1) 2 8 True)"
    by (simp add: tcp_sender_receive_def unwrap_small Let_def)
  moreover have "sequence_length (?m True) = 2" by (simp add: run_simps)
  ultimately show ?thesis
    by (intro exI [of _ "?out 0"] exI [of _ ?s1] exI [of _ "?out 1"] exI [of _ "?m True"]
        exI [of _ "?s False [] [?m True] (2 ^ 32 - 1) 2 1 True"]
        exI [of _ "?s False [] [?m True] (2 ^ 32 - 1) 2 8 True"]) simp
qed

text \<open>
  Two expirations of the timer without a \<open>maybe_send\<close> between them take the front of
  the empty queue of unacknowledged segments.
\<close>

theorem tick_twice_is_undefined:
  "andthen (tick (snd (maybe_send (TCPSender 1000 z))) 1000) (\<lambda>s. tick s 2000) = Inl Undefined"
proof -
  let ?m = "\<lparr>seqno = wrap_abs 0 z, SYN = True, payload = [], FIN = False\<rparr>"
  let ?s = "\<lambda>unsent unacked n k c rto. \<lparr>isn = z, has_not_sent_SYN = False, has_not_sent_FIN = True,
     stream_is_finished = False, zero_window_flag = False, unsent_msgs = unsent, unacked_msgs = unacked,
     unsent_seqnos = n, unacked_seqnos = k, next_seqno = 1, window_size = 1, retransmission_num = c,
     sender_timer = \<lparr>is_on = True, initial_RTO_ms = 1000, RTO_ms = rto, timeout_ms = rto\<rparr>\<rparr>"
  have "snd (maybe_send (TCPSender 1000 z)) = ?s [] [?m] 0 1 0 1000"
    by (simp add: run_simps cong: by_value)
  moreover have "tick (?s [] [?m] 0 1 0 1000) 1000 = Inr (?s [\<lparr>msg = ?m, is_retransmitted = True\<rparr>] [] 1 0 1 2000)"
    by (simp add: run_simps cong: by_value)
  moreover have "tick (?s [\<lparr>msg = ?m, is_retransmitted = True\<rparr>] [] 1 0 1 2000) 2000 = Inl Undefined"
    by (simp add: run_simps cong: by_value)
  ultimately show ?thesis by simp
qed

text \<open>
  A second \<open>push\<close> before the queued segments are sent erases the FIN the first one
  attached, and the sender believes it has sent it: the FIN is lost for ever.
\<close>

theorem second_push_erases_FIN:
  "\<exists>s0 out0 s1 out1 s2 out2 m s3.
     s0 = (snd (maybe_send (TCPSender 1000 z)))\<lparr>window_size := 8\<rparr>
     \<and> writer_push (ByteStream 8) [65] = Inr out0
     \<and> push s0 (writer_close out0) = Inr (s1, out1) \<and> map (FIN \<circ> msg) (unsent_msgs s1) = [True]
     \<and> push s1 out1 = Inr (s2, out2) \<and> maybe_send s2 = (Some m, s3) \<and> \<not> FIN m
     \<and> maybe_send s3 = (None, s3) \<and> \<not> has_not_sent_FIN s3"
proof -
  let ?out = "\<lambda>fl r. \<lparr>stream_capacity = 8, flags = fl, total_pushed = 1, total_popped = r,
    buffer = \<lparr>buf_capacity = 8, buf_array = [65, 0, 0, 0, 0, 0, 0, 0], write_index = 1, read_index = r\<rparr>\<rparr>"
  let ?syn = "\<lparr>seqno = wrap_abs 0 z, SYN = True, payload = [], FIN = False\<rparr>"
  let ?m = "\<lambda>b. \<lparr>seqno = wrap_abs 1 z, SYN = False, payload = [65], FIN = b\<rparr>"
  let ?s = "\<lambda>fin ended unsent unacked n k nxt. \<lparr>isn = z, has_not_sent_SYN = False, has_not_sent_FIN = fin,
     stream_is_finished = ended, zero_window_flag = False, unsent_msgs = unsent, unacked_msgs = unacked,
     unsent_seqnos = n, unacked_seqnos = k, next_seqno = nxt, window_size = 8, retransmission_num = 0,
     sender_timer = \<lparr>is_on = True, initial_RTO_ms = 1000, RTO_ms = 1000, timeout_ms = 1000\<rparr>\<rparr>"
  let ?sa = "?s True False [] [?syn] 0 1 1"
  let ?s1 = "\<lambda>b. ?s False True [\<lparr>msg = ?m b, is_retransmitted = False\<rparr>] [?syn] 2 1 3"
  let ?s3 = "?s False True [] [?syn, ?m False] 1 2 3"
  have f1: "writer_push (ByteStream 8) [65] = Inr (?out 0 0)" "writer_close (?out 0 0) = ?out 1 0"
    by (simp_all add: run_simps cong: by_value)
  have f2: "(snd (maybe_send (TCPSender 1000 z)))\<lparr>window_size := 8\<rparr> = ?sa"
    by (simp add: run_simps cong: by_value)
  have f3: "push ?sa (?out 1 0) = Inr (?s1 True, ?out 1 1)"
    by (simp add: run_simps cong: by_value)
  have f4: "push (?s1 True) (?out 1 1) = Inr (?s1 False, ?out 1 1)"
    by (simp add: run_simps cong: by_value)
  have f5: "maybe_send (?s1 False) = (Some (?m False), ?s3)"
    by (simp add: run_simps cong: by_value)
  have f6: "maybe_send ?s3 = (None, ?s3)"
    by (simp add: run_simps cong: by_value)
  have f7: "map (FIN \<circ> msg) (unsent_msgs (?s1 True)) = [True]" "\<not> FIN (?m False)" "\<not> has_not_sent_FIN ?s3"
    by simp_all
  show ?thesis
    by (rule exI [of _ ?sa], rule exI [of _ "?out 0 0"], rule exI [of _ "?s1 True"], rule exI [of _ "?out 1 1"],
        rule exI [of _ "?s1 False"], rule exI [of _ "?out 1 1"], rule exI [of _ "?m False"], rule exI [of _ ?s3],
        unfold f1 f2 f3, intro conjI refl f4 f5 f6 f7)
qed

section \<open>Properties of the receiver\<close>

text \<open>
  A receiver fed with segments of a stream in any order, with repetitions, delivers
  exactly a prefix of the stream, and its acknowledgment and window say exactly how far it
  is: nothing before the SYN, then the sequence number after the SYN and the assembled
  bytes, one more when the output has been closed after a FIN, and the free capacity cut to
  16 bits.
\<close>

theorem receiver_reports_progress:
  assumes "receiving S z c (got, rcv, r, out)" and "length S + 2 < 2 ^ 31" and "c < 2 ^ 62"
  shows "got @ peek out = take (length (got @ peek out)) S
    \<and> ackno (tcp_receiver_send rcv out) = (if initial_seq_num rcv = None then None
        else Some (wrap_abs (Suc (length (got @ peek out)) + of_bool (is_closed out \<and> meet_FIN rcv)) z))
    \<and> window_field (tcp_receiver_send rcv out) = min (c - length (peek out)) 65535"
proof -
  note f = received_closed [OF assms]
  have S: "length S < 2 ^ 62" using assms(2) by simp
  note af = assembling_facts [OF f(4) S assms(3)]
  have len: "length (got @ peek out) = first_unassembled r" using af(2) by (simp only: af(5)) simp
  have sy: "first_unassembled_index rcv = first_unassembled r" "meet_FIN rcv = reach_end r"
    "initial_seq_num rcv = None \<or> initial_seq_num rcv = Some z"
    "rcv_finished rcv = (is_closed out \<and> reach_end r)" using f(3) by (simp_all add: synchronized_def)
  have add: "add64 (add64 (first_unassembled r) 1) (of_bool (rcv_finished rcv)) =
      Suc (first_unassembled r) + of_bool (rcv_finished rcv)"
    using f(2) assms(2) by (simp add: wadd_nowrap)
  note add' = add [unfolded sy(4)]
  have "window_field (tcp_receiver_send rcv out) = min (c - length (peek out)) 65535"
    using available_capacity_peek(1) [OF af(3)] af(4) by (simp add: tcp_receiver_send_def)
  moreover have "ackno (tcp_receiver_send rcv out) = (if initial_seq_num rcv = None then None
        else Some (wrap_abs (Suc (first_unassembled r) + of_bool (is_closed out \<and> meet_FIN rcv)) z))"
    using sy(3) unfolding tcp_receiver_send_def sy(1,2,4) add' by auto
  moreover have "got @ peek out = take (first_unassembled r) S" by (rule af(5))
  ultimately show ?thesis unfolding len by blast
qed

theorem receiver_reports_progress_witness:
  "ackno (tcp_receiver_send TCPReceiver (ByteStream 64)) = (if initial_seq_num TCPReceiver = None then None
      else Some (wrap_abs (Suc (length ([] @ peek (ByteStream 64))) + of_bool (is_closed (ByteStream 64) \<and> meet_FIN TCPReceiver)) (Wrap32 7)))
   \<and> window_field (tcp_receiver_send TCPReceiver (ByteStream 64)) = min (64 - length (peek (ByteStream 64))) 65535"
proof -
  have "length [65 :: byte] + 2 < 2 ^ 31" "(64 :: nat) < 2 ^ 62" by simp_all
  from receiver_reports_progress [OF receiving.start [of "[65]" "Wrap32 7" 64] this] show ?thesis by blast
qed

text \<open>
  Receiving a segment of the stream never fails, whatever has arrived before it, and
  a segment without SYN that arrives before the receiver is synchronized changes nothing.
\<close>

theorem receiver_never_fails:
  assumes "receiving S z c (got, rcv, r, out)" and "length S + 2 < 2 ^ 31" and "c < 2 ^ 62"
    and "segment_of S z m" and "length (payload m) + 31 \<le> c"
  shows "(\<exists>y. tcp_receiver_receive rcv m r out = Inr y)
    \<and> (initial_seq_num rcv = None \<and> \<not> SYN m \<longrightarrow> tcp_receiver_receive rcv m r out = Inr (rcv, r, out))"
proof -
  note f = received_closed [OF assms(1-3)]
  have S: "length S < 2 ^ 31 - 1" using assms(2) by simp
  have "\<exists>y. tcp_receiver_receive rcv m r out = Inr y"
    by (rule receive_segment_runs [OF f(4,3) assms(4,5) S assms(3)]) blast
  then show ?thesis using receive_unsynchronized by blast
qed

lemma example_syn_segment: "segment_of [65] (Wrap32 7) example_syn" "length (payload example_syn) + 31 \<le> 1031"
  by (auto simp: segment_of_def segment_at_def example_syn_def piece_of_def wrap_abs_zero)

theorem receiver_never_fails_witness:
  "\<exists>y. tcp_receiver_receive TCPReceiver example_syn Reassembler (ByteStream 1031) = Inr y"
proof -
  have "length [65 :: byte] + 2 < 2 ^ 31" "(1031 :: nat) < 2 ^ 62" by simp_all
  from receiver_never_fails [OF receiving.start [of "[65]" "Wrap32 7" 1031] this example_syn_segment]
  show ?thesis by blast
qed

text \<open>
  A FIN that arrives before the bytes it follows closes the inbound stream, and the
  receiver acknowledges a sequence number of a byte it has never received: after the SYN and
  the empty FIN segment of a stream of one byte it acknowledges number 2.
\<close>

theorem early_FIN_is_acknowledged:
  "\<exists>rcv1 r1 out1 rcv2 r2 out2.
     tcp_receiver_receive TCPReceiver \<lparr>seqno = wrap_abs 0 z, SYN = True, payload = [], FIN = False\<rparr>
       Reassembler (ByteStream 8) = Inr (rcv1, r1, out1)
     \<and> tcp_receiver_receive rcv1 \<lparr>seqno = wrap_abs 2 z, SYN = False, payload = [], FIN = True\<rparr> r1 out1
       = Inr (rcv2, r2, out2)
     \<and> is_closed out2 \<and> peek out2 = [] \<and> ackno (tcp_receiver_send rcv2 out2) = Some (wrap_abs 2 z)"
proof -
  let ?r = "\<lambda>e. \<lparr>first_unassembled = 0, pending_count = 0, reach_end = e, buffer_size = 8,
     sliding_window = replicate 8 0, window_bitmap = Bitmap 8\<rparr>"
  let ?rcv = "\<lambda>b. \<lparr>initial_seq_num = Some z, first_unassembled_index = 0, meet_FIN = b, rcv_finished = b\<rparr>"
  have u: "unwrap_abs (wrap_abs 1 z) z 0 = 1" "unwrap_abs (wrap_abs 2 z) z 0 = 2" by (simp_all add: unwrap_wrap_abs)
  have i1: "reassembler_insert Reassembler 0 [] False (ByteStream 8) = Inr (?r False, ByteStream 8)"
    by (simp add: run_simps cong: by_value)
  have i2: "reassembler_insert (?r False) 1 [] True (ByteStream 8) = Inr (?r True, writer_close (ByteStream 8))"
    by (simp add: run_simps cong: by_value)
  have n: "\<not> is_closed (ByteStream 8)" by simp
  have "tcp_receiver_receive TCPReceiver \<lparr>seqno = wrap_abs 0 z, SYN = True, payload = [], FIN = False\<rparr>
       Reassembler (ByteStream 8) = Inr (?rcv False, ?r False, ByteStream 8)"
    using u i1 n wrap_abs_plus [of 0 z]
    by (simp add: tcp_receiver_receive_def TCPReceiver_def Reassembler_def getFirstUnassembledIndex_def
        wrap_abs_zero wsub_def)
  moreover have "tcp_receiver_receive (?rcv False) \<lparr>seqno = wrap_abs 2 z, SYN = False, payload = [], FIN = True\<rparr>
       (?r False) (ByteStream 8) = Inr (?rcv True, ?r True, writer_close (ByteStream 8))"
    using u i2 by (simp add: tcp_receiver_receive_def getFirstUnassembledIndex_def wsub_def)
  moreover have "ackno (tcp_receiver_send (?rcv True) (writer_close (ByteStream 8))) = Some (wrap_abs 2 z)"
    by (simp add: tcp_receiver_send_def wadd_nowrap flip: numeral_2_eq_2)
  moreover have "is_closed (writer_close (ByteStream 8))" "peek (writer_close (ByteStream 8)) = []" by simp_all
  ultimately show ?thesis by blast
qed

section \<open>Properties of a connection\<close>

text \<open>A connection whose sender has sent its SYN and whose receiver has reported its window.\<close>

definition example_connection :: connection where
  "example_connection =
     \<lparr>snd_side = (example_sender 1 [example_syn] 1 True, ByteStream 8),
      rcv_side = ([], TCPReceiver, Reassembler, ByteStream 1031), segments = {example_syn},
      acks = {tcp_receiver_send TCPReceiver (ByteStream 1031)}\<rparr>"

lemma connected_example:
  shows "connected [65] (Wrap32 7) 1000 8 1031 example_connection"
    and "rcv_side example_connection = ([], TCPReceiver, Reassembler, ByteStream 1031)"
    and "snd_side example_connection = (example_sender 1 [example_syn] 1 True, ByteStream 8)"
    and "length [65 :: byte] + 2 < 2 ^ 31" "(1000 :: nat) < 2 ^ 64" "(8 :: nat) < 2 ^ 64"
    "(1031 :: nat) \<le> 1031" "(1031 :: nat) < 2 ^ 62"
proof -
  let ?x = "initial_connection (Wrap32 7) 1000 8 1031"
  let ?y = "?x\<lparr>snd_side := (example_sender 1 [example_syn] 1 True, ByteStream 8),
    segments := segments ?x \<union> set_option (Some example_syn)\<rparr>"
  have "connected [65] (Wrap32 7) 1000 8 1031 ?y"
    by (rule connected.transmit [OF connected.start _ example_first_send]) (simp add: initial_connection_def)
  moreover have "rcv_side ?y = ([], TCPReceiver, Reassembler, ByteStream 1031)"
    by (simp add: initial_connection_def)
  ultimately have "connected [65] (Wrap32 7) 1000 8 1031
      (?y\<lparr>acks := insert (tcp_receiver_send TCPReceiver (ByteStream 1031)) (acks ?y)\<rparr>)"
    by (rule connected.acknowledge)
  then show "connected [65] (Wrap32 7) 1000 8 1031 example_connection"
    by (simp add: initial_connection_def example_connection_def)
qed (simp_all add: example_connection_def)

text \<open>
  \<open>C3\<close>: end-to-end safety. Over a network that loses, repeats and reorders segments and
  acknowledgments, what the receiving application has read followed by what it can still
  read is exactly a prefix of what the sending application sends.
\<close>

theorem stream_delivered_in_order:
  assumes "connected S z rto c rc x" and "length S + 2 < 2 ^ 31" and "rto < 2 ^ 64" and "c < 2 ^ 64"
    and "1031 \<le> rc" and "rc < 2 ^ 62" and "rcv_side x = (got, rcv, r, inb)"
  shows "got @ peek inb = take (first_unassembled r) S \<and> first_unassembled r \<le> length S"
proof -
  have "receiving S z rc (got, rcv, r, inb)"
    using connected_inv [OF assms(1-6)] assms(7) by (simp add: connection_inv_def)
  note f = received_closed [OF this assms(2,6)]
  have "length S < 2 ^ 62" using assms(2) by simp
  from assembling_facts(2,5) [OF f(4) this assms(6)] show ?thesis by blast
qed

theorem stream_delivered_in_order_witness:
  "connected [65] (Wrap32 7) 1000 8 1031 example_connection
   \<and> [] @ peek (ByteStream 1031) = take (first_unassembled Reassembler) [65]
   \<and> first_unassembled Reassembler \<le> length [65 :: byte]"
  using stream_delivered_in_order [OF connected_example(1,4-8,2)] connected_example(1) by blast

text \<open>
  In whatever order segments arrive, the oldest sequence number in flight is at most one past the SYN
  and the assembled bytes, or two when the receiver considers the stream finished. (A FIN that
  arrives before its turn makes it do so too early, theory \<open>TCP_Early_FIN\<close>; with every FIN in its
  place the forgotten bytes have been delivered, theory \<open>TCP_Order\<close>.)
\<close>

theorem forgotten_numbers_are_acknowledged:
  assumes "connected S z rto c rc x" and "length S + 2 < 2 ^ 31" and "rto < 2 ^ 64" and "c < 2 ^ 64"
    and "1031 \<le> rc" and "rc < 2 ^ 62" and "rcv_side x = (got, rcv, r, inb)" and "snd_side x = (s, out)"
  shows "next_seqno s - sequence_numbers_in_flight s
    \<le> Suc (length (got @ peek inb)) + of_bool (rcv_finished rcv)"
proof -
  obtain una where una: "una \<le> progress (got, rcv, r, inb)" "sender_inv S z rto una (s, out)"
    and rc: "receiving S z rc (got, rcv, r, inb)"
    using connected_inv [OF assms(1-6)] assms(7,8) by (auto simp: connection_inv_def)
  note f = received_closed [OF rc assms(2,6)]
  have "length S < 2 ^ 62" using assms(2) by simp
  from assembling_facts(2,5) [OF f(4) this assms(6)]
  have "got @ peek inb = take (first_unassembled r) S" "first_unassembled r \<le> length S" by simp_all
  then have "length (got @ peek inb) = first_unassembled r" by (simp only: length_take min_absorb2)
  moreover have "next_seqno s - sequence_numbers_in_flight s = una"
    using inv_bounds(3,4) [OF una(2) assms(2)] by (simp add: sequence_numbers_in_flight_def wadd_nowrap)
  ultimately show ?thesis
    using una(1) by (cases "rcv_finished rcv") (simp_all add: progress_def split: if_splits)
qed

theorem forgotten_numbers_are_acknowledged_witness:
  "next_seqno (example_sender 1 [example_syn] 1 True) - sequence_numbers_in_flight (example_sender 1 [example_syn] 1 True)
    \<le> Suc (length ([] @ peek (ByteStream 1031))) + of_bool (rcv_finished TCPReceiver)"
  by (rule forgotten_numbers_are_acknowledged [OF connected_example(1,4-8,2,3)])

text \<open>
  \<open>C6\<close>: in no state of a connection does a step of either side fail: every segment on the network can
  be received, every acknowledgment too, \<open>push\<close> ends, whatever is queued and whether the SYN has been
  sent or not, the application can write anything to the outbound stream, and \<open>tick\<close> succeeds unless a
  retransmission from an earlier expiration is still queued (where it can take the front of an empty
  queue: \<open>tick_twice_is_undefined\<close>). The other steps, \<open>maybe_send\<close>, the receiver's \<open>send\<close>, the
  reader's \<open>pop\<close> and \<open>close\<close>, have no way to fail in the code.
\<close>

theorem connection_never_fails:
  assumes "connected S z rto c rc x" and "length S + 2 < 2 ^ 31" and "rto < 2 ^ 64" and "c < 2 ^ 64"
    and "1031 \<le> rc" and "rc < 2 ^ 62" and "rcv_side x = (got, rcv, r, inb)" and "snd_side x = (s, out)"
  shows "(\<forall>m \<in> segments x. \<exists>y. tcp_receiver_receive rcv m r inb = Inr y)
    \<and> (\<forall>a \<in> acks x. \<exists>s'. tcp_sender_receive s a = Inr s')
    \<and> (\<exists>y. push s out = Inr y) \<and> (\<forall>d. \<exists>out'. writer_push out d = Inr out')
    \<and> ((\<forall>w \<in> set (unsent_msgs s). \<not> is_retransmitted w) \<longrightarrow> (\<forall>ms. \<exists>s'. tick s ms = Inr s'))"
proof -
  note i = connected_inv [OF assms(1-6), unfolded connection_inv_def]
  obtain una where inv: "sender_inv S z rto una (s, out)" using i assms(8) by auto
  have rc: "receiving S z rc (got, rcv, r, inb)" using i assms(7) by simp
  note f = received_closed [OF rc assms(2,6)]
  have S: "length S < 2 ^ 31 - 1" using assms(2) by simp
  have "\<exists>y. tcp_receiver_receive rcv m r inb = Inr y" if m: "m \<in> segments x" for m
  proof -
    obtain k where k: "sent_at S z k m" using i m by blast
    show ?thesis
      by (rule receive_segment_runs [OF f(4,3) sent_at_segment [OF k] segment_fits [OF k assms(5)] S assms(6)]) blast
  qed
  moreover have "stream_inv out" using sender_invD(3) [OF inv] by (simp add: outbound_ok_def)
  then have "\<exists>out'. writer_push out d = Inr out'" for d by (rule writer_push_spec [of out d]) blast
  moreover have "window_size s < 2 ^ 32" using sender_invD(2) [OF inv] by simp
  then have "\<exists>y. push s out = Inr y" by (rule push_runs)
  moreover have "\<exists>s'. tcp_sender_receive s a = Inr s'" for a by (rule receive_runs [OF inv])
  moreover have "(\<forall>w \<in> set (unsent_msgs s). \<not> is_retransmitted w) \<longrightarrow> (\<forall>ms. \<exists>s'. tick s ms = Inr s')"
    using tick_runs [OF inv] by blast
  ultimately show ?thesis by (intro conjI ballI allI) simp_all
qed

theorem connection_never_fails_witness:
  "(\<exists>y. tcp_receiver_receive TCPReceiver example_syn Reassembler (ByteStream 1031) = Inr y)
   \<and> (\<exists>s'. tcp_sender_receive (example_sender 1 [example_syn] 1 True)
              (tcp_receiver_send TCPReceiver (ByteStream 1031)) = Inr s')
   \<and> (\<exists>y. push (example_sender 1 [example_syn] 1 True) (ByteStream 8) = Inr y)
   \<and> (\<exists>out'. writer_push (ByteStream 8) [65] = Inr out')
   \<and> (\<exists>s'. tick (example_sender 1 [example_syn] 1 True) 1000 = Inr s')"
proof -
  have e: "example_syn \<in> segments example_connection" "tcp_receiver_send TCPReceiver (ByteStream 1031) \<in> acks example_connection"
    "\<forall>w \<in> set (unsent_msgs (example_sender 1 [example_syn] 1 True)). \<not> is_retransmitted w"
    by (simp_all add: example_connection_def example_sender_def)
  show ?thesis using connection_never_fails [OF connected_example(1,4-8,2,3)] e by blast
qed

end
