(* ===== verification/TCP_Bounds.thy ===== *)
theory TCP_Bounds
  imports TCP_Properties
begin

text \<open>
  How much a TCP connection of \<open>src/src/tcp_sender.cc\<close> and \<open>tcp_receiver.cc\<close> can ever hold.
\<close>

lemma ready_memory:
  assumes "ready r out"
  shows "length (peek out) + bytes_pending r \<le> stream_capacity out"
proof -
  note d = readyD [OF assms]
  have "card (dom (held r)) \<le> card {first_unassembled r<..<window_end r out}"
    by (intro card_mono d) simp
  then show ?thesis
    using d(6) available_capacity_peek [OF d(1)] by (simp add: bytes_pending_def window_end_def)
qed

lemma reassembler_memory: "reassembler_inv r out \<Longrightarrow> length (peek out) + bytes_pending r \<le> stream_capacity out"
  by (auto simp: reassembler_inv_def unused_def bytes_pending_def dest: ready_memory)

text \<open>
  \<open>C8\<close>: the bounds of a connection. In every reachable state what the receiving side holds, the
  bytes its reader can take and those that wait for a gap to close, fits in the capacity of its
  stream; no segment on the network carries more than \<open>MAX_PAYLOAD_SIZE\<close> bytes and no window exceeds
  65535; the two counters of the sender, of 32 bits, are the true sums of the sequence numbers of
  the segments in its two queues, the number in flight is their true sum, and the next sequence
  number is at most the length of the stream and its two flags: none of these four has wrapped.
  (The timeout and the count of retransmissions may wrap, theory \<open>TCP_Properties\<close>.)
\<close>

theorem connection_is_bounded:
  assumes "connected S z rto c rc x" and "length S + 2 < 2 ^ 31" and "rto < 2 ^ 64" and "c < 2 ^ 64"
    and "1031 \<le> rc" and "rc < 2 ^ 62" and "rcv_side x = (got, rcv, r, inb)" and "snd_side x = (s, out)"
  shows "length (peek inb) + bytes_pending r \<le> rc
    \<and> (\<forall>m \<in> segments x. length (payload m) \<le> MAX_PAYLOAD_SIZE)
    \<and> (\<forall>a \<in> acks x. window_field a \<le> 65535)
    \<and> unsent_seqnos s = seq_lens (map msg (unsent_msgs s)) \<and> unacked_seqnos s = seq_lens (unacked_msgs s)
    \<and> sequence_numbers_in_flight s = unsent_seqnos s + unacked_seqnos s
    \<and> unsent_seqnos s + unacked_seqnos s \<le> next_seqno s \<and> next_seqno s \<le> length S + 2"
proof -
  note i = connected_inv [OF assms(1-6), unfolded connection_inv_def]
  obtain una where inv: "sender_inv S z rto una (s, out)" using i assms(8) by auto
  note b = inv_bounds [OF inv assms(2)]
  have rc: "receiving S z rc (got, rcv, r, inb)" using i assms(7) by simp
  note f = received_closed [OF rc assms(2,6)]
  have "stream_capacity inb = rc" using assembling_facts(4) [OF f(4) _ assms(6)] assms(2) by simp
  then have "length (peek inb) + bytes_pending r \<le> rc" using reassembler_memory [OF f(1)] by simp
  moreover have "length (payload m) \<le> MAX_PAYLOAD_SIZE" if "m \<in> segments x" for m
    using i that by (auto simp: sent_at_def)
  moreover have "window_field a \<le> 65535" if "a \<in> acks x" for a using i that by (auto simp: acks_ok_def)
  moreover have "sequence_numbers_in_flight s = unsent_seqnos s + unacked_seqnos s"
    using b(4) by (simp add: sequence_numbers_in_flight_def wadd_nowrap)
  moreover have "unsent_seqnos s = seq_lens (map msg (unsent_msgs s))" "unacked_seqnos s = seq_lens (unacked_msgs s)"
    using sender_invD(5) [OF inv] by (simp_all add: queues_ok_def)
  ultimately show ?thesis using b(1,3) by simp
qed

theorem connection_is_bounded_witness:
  "length (peek (ByteStream 1031)) + bytes_pending Reassembler \<le> 1031
   \<and> unacked_seqnos (example_sender 1 [example_syn] 1 True) = seq_lens (unacked_msgs (example_sender 1 [example_syn] 1 True))
   \<and> next_seqno (example_sender 1 [example_syn] 1 True) \<le> length [65 :: byte] + 2"
  using connection_is_bounded [OF connected_example(1,4-8,2,3)] by blast

end
