(* ===== verification/TCP_Recovery.thy ===== *)
theory TCP_Recovery
  imports TCP_Bounds
begin

text \<open>
  A connection of \<open>src/src/tcp_sender.cc\<close> and \<open>tcp_receiver.cc\<close> can always recover: whatever the
  network has done to its segments and acknowledgments so far, the transfer can still complete. The
  only exception is a FIN that the receiver took for the end of the stream too early.
\<close>

section \<open>The steps of a connection\<close>

inductive connection_step :: "byte list \<Rightarrow> connection \<Rightarrow> connection \<Rightarrow> bool" for S where
  app_write: "\<lbrakk>snd_side x = (s, out);
     piece_of S (total_popped out + length (peek out)) (take (available_capacity out) d);
     writer_push out d = Inr out'\<rbrakk> \<Longrightarrow> connection_step S x (x\<lparr>snd_side := (s, out')\<rparr>)"
| app_close: "\<lbrakk>snd_side x = (s, out); total_popped out + length (peek out) = length S\<rbrakk>
     \<Longrightarrow> connection_step S x (x\<lparr>snd_side := (s, writer_close out)\<rparr>)"
| push: "\<lbrakk>snd_side x = (s, out); unsent_msgs s = [];
     \<not> has_not_sent_SYN s \<or> peek out = []; push s out = Inr (s', out')\<rbrakk>
     \<Longrightarrow> connection_step S x (x\<lparr>snd_side := (s', out')\<rparr>)"
| transmit: "\<lbrakk>snd_side x = (s, out); maybe_send s = (m, s')\<rbrakk>
     \<Longrightarrow> connection_step S x (x\<lparr>snd_side := (s', out), segments := segments x \<union> set_option m\<rparr>)"
| timeout: "\<lbrakk>snd_side x = (s, out); unsent_msgs s = []; tick s ms = Inr s'\<rbrakk>
     \<Longrightarrow> connection_step S x (x\<lparr>snd_side := (s', out)\<rparr>)"
| deliver: "\<lbrakk>m \<in> segments x; rcv_side x = (got, rcv, r, inb);
     tcp_receiver_receive rcv m r inb = Inr (rcv', r', inb')\<rbrakk>
     \<Longrightarrow> connection_step S x (x\<lparr>rcv_side := (got, rcv', r', inb')\<rparr>)"
| acknowledge: "rcv_side x = (got, rcv, r, inb)
     \<Longrightarrow> connection_step S x (x\<lparr>acks := insert (tcp_receiver_send rcv inb) (acks x)\<rparr>)"
| deliver_ack: "\<lbrakk>a \<in> acks x; snd_side x = (s, out); unsent_msgs s = []; tcp_sender_receive s a = Inr s'\<rbrakk>
     \<Longrightarrow> connection_step S x (x\<lparr>snd_side := (s', out)\<rparr>)"
| app_read: "rcv_side x = (got, rcv, r, inb)
     \<Longrightarrow> connection_step S x (x\<lparr>rcv_side := (got @ take n (peek inb), rcv, r, reader_pop inb n)\<rparr>)"

abbreviation continues :: "byte list \<Rightarrow> connection \<Rightarrow> connection \<Rightarrow> bool" where
  "continues S \<equiv> (connection_step S)\<^sup>*\<^sup>*"

lemma step_connected:
  assumes "connection_step S x y" and "connected S z rto c rc x"
  shows "connected S z rto c rc y"
  using assms by cases (blast intro: connected.intros)+

lemma continues_connected: "continues S x y \<Longrightarrow> connected S z rto c rc x \<Longrightarrow> connected S z rto c rc y"
  by (induction rule: rtranclp_induct) (auto intro: step_connected)

definition sized :: "byte list \<Rightarrow> nat \<Rightarrow> nat \<Rightarrow> nat \<Rightarrow> bool" where
  "sized S rto c rc \<longleftrightarrow> length S + 2 < 2 ^ 31 \<and> rto < 2 ^ 64 \<and> 0 < c \<and> c < 2 ^ 64 \<and> 1031 \<le> rc \<and> rc < 2 ^ 62"

lemma sizedD:
  assumes "sized S rto c rc"
  shows "length S + 2 < 2 ^ 31" "rto < 2 ^ 64" "0 < c" "c < 2 ^ 64" "1031 \<le> rc" "rc < 2 ^ 62"
    "length S < 2 ^ 31 - 1" "length S < 2 ^ 62"
  using assms by (simp_all add: sized_def)

section \<open>What one segment does to the receiver\<close>

lemma sent_at_end: "sent_at S z k m \<Longrightarrow> k + seq_len m = Suc (k - 1 + length (payload m)) + of_bool (FIN m)"
  by (auto simp: sent_at_def seq_len_def)

lemma deliver_facts:
  assumes z: "sized S rto c rc" and a: "receiving S z rc (got, rcv, r, inb)" and k: "sent_at S z k m"
    and syn: "SYN m \<or> initial_seq_num rcv \<noteq> None"
  obtains rcv' r' inb' where "tcp_receiver_receive rcv m r inb = Inr (rcv', r', inb')"
    "initial_seq_num rcv' = Some z" "rcv_finished rcv' = (rcv_finished rcv \<or> ((meet_FIN rcv \<or> FIN m) \<and> is_closed inb'))"
    "assembly_inv S rc (got, r, inb)" "piece_of S (k - 1) (payload m)" "FIN m \<Longrightarrow> k - 1 + length (payload m) = length S"
    "insert_meets_spec r inb (k - 1) (payload m) (FIN m) r' inb'"
proof -
  note zs = sizedD [OF z]
  note f = received_closed [OF a zs(1,6)]
  have seg: "segment_at S z (k - 1) m" using k by (simp add: sent_at_def)
  have inv: "assembly_inv S rc (got, r, inb)" using assembling_inv [OF f(4) zs(8,6)] by simp
  obtain r' inb' where ins: "reassembler_insert r (k - 1) (payload m) (FIN m) inb = Inr (r', inb')"
    "insert_meets_spec r inb (k - 1) (payload m) (FIN m) r' inb'"
    using insert_runs [OF inv segment_atD(1) [OF seg] segment_fits [OF k zs(5)] zs(8,6)] .
  have "SYN m \<or> initial_seq_num rcv = Some z" using syn f(3) by (auto simp: synchronized_def)
  note rec = receive_segment [OF seg zs(7) f(2) this]
  let ?rcv = "rcv\<lparr>initial_seq_num := Some z, meet_FIN := meet_FIN rcv \<or> FIN m,
      rcv_finished := rcv_finished rcv \<or> ((meet_FIN rcv \<or> FIN m) \<and> is_closed inb'),
      first_unassembled_index := first_unassembled r'\<rparr>"
  show thesis
    by (rule that [of ?rcv r' inb']) (use ins inv segment_atD(1,2) [OF seg] in \<open>simp_all add: rec\<close>)
qed

section \<open>The receiver knows only what has been sent\<close>

definition received_below :: "byte list \<Rightarrow> nat \<Rightarrow> reception \<Rightarrow> bool" where
  "received_below S n y = (case y of (got, rcv, r, inb) \<Rightarrow>
     known (first_unassembled r) (held r) \<subseteq> {..<n - 1} \<and> (reach_end r \<longrightarrow> length S + 2 \<le> n)
     \<and> (initial_seq_num rcv \<noteq> None \<longrightarrow> 1 \<le> n))"

lemma received_below_mono: "received_below S n y \<Longrightarrow> n \<le> n' \<Longrightarrow> received_below S n' y"
  by (cases y) (auto simp: received_below_def)

lemma progress_below:
  assumes z: "sized S rto c rc" and a: "receiving S z rc y" and b: "received_below S n y"
  shows "progress y \<le> n"
proof -
  obtain got rcv r inb where y: "y = (got, rcv, r, inb)" by (cases y)
  note f = received_closed [OF a [unfolded y] sizedD(1,6) [OF z]]
  have "{..<first_unassembled r} \<subseteq> {..<n - 1}" using b by (auto simp: y received_below_def known_def)
  then have "first_unassembled r \<le> n - 1" by (simp only: lessThan_subset_iff)
  moreover have "rcv_finished rcv \<Longrightarrow> reach_end r" using f(3) by (simp add: synchronized_def)
  ultimately show ?thesis using b f(2) by (auto simp: y progress_def received_below_def)
qed

lemma deliver_below:
  assumes z: "sized S rto c rc" and a: "receiving S z rc (got, rcv, r, inb)" and k: "sent_at S z k m" "k + seq_len m \<le> n"
    and b: "received_below S n (got, rcv, r, inb)" and d: "tcp_receiver_receive rcv m r inb = Inr (rcv', r', inb')"
  shows "received_below S n (got, rcv', r', inb')"
proof (cases "SYN m \<or> initial_seq_num rcv \<noteq> None")
  case True
  obtain rcv1 r1 inb1 where 1: "tcp_receiver_receive rcv m r inb = Inr (rcv1, r1, inb1)"
    "assembly_inv S rc (got, r, inb)" "piece_of S (k - 1) (payload m)" "FIN m \<Longrightarrow> k - 1 + length (payload m) = length S"
    "insert_meets_spec r inb (k - 1) (payload m) (FIN m) r1 inb1"
    using deliver_facts [OF z a k(1) True] by metis
  then have eq: "r1 = r'" "inb1 = inb'" using d by simp_all
  note i = 1(5) [unfolded eq]
  have e: "Suc (k - 1 + length (payload m)) + of_bool (FIN m) \<le> n" using sent_at_end [OF k(1)] k(2) by simp
  have "known (first_unassembled r') (held r') \<subseteq> {..<n - 1}"
    unfolding assembly_insert(3) [OF 1(2,3) i] using b e by (auto simp: received_below_def)
  moreover have "reach_end r' = (reach_end r \<or> FIN m)" using i by (simp add: insert_meets_spec_def)
  ultimately show ?thesis using b e 1(4) by (auto simp: received_below_def)
next
  case False
  then show ?thesis using b d by (simp add: receive_unsynchronized)
qed

section \<open>Nothing is acknowledged that has not been sent\<close>

lemma chain_member_bound: "chain S z a ms b \<Longrightarrow> m \<in> set ms \<Longrightarrow> \<exists>k. sent_at S z k m \<and> k + seq_len m \<le> b"
proof (induction ms arbitrary: a)
  case (Cons m' ms)
  show ?case
  proof (cases "m = m'")
    case True
    then show ?thesis using Cons.prems(1) chain_bounds [of S z "a + seq_len m'" ms b] by auto
  next
    case False
    then show ?thesis using Cons.IH [of "a + seq_len m'"] Cons.prems by simp
  qed
qed simp

lemma maybe_send_bound:
  assumes inv: "sender_inv S z rto una (s, out)" and S: "length S + 2 < 2 ^ 31" and m: "maybe_send s = (x, s')"
  shows "next_seqno s \<le> next_seqno s'"
    "\<And>m. x = Some m \<Longrightarrow> \<exists>k. sent_at S z k m \<and> k + seq_len m \<le> next_seqno s'"
proof -
  have "next_seqno s \<le> next_seqno s' \<and> (\<forall>m. x = Some m \<longrightarrow> (\<exists>k. sent_at S z k m \<and> k + seq_len m \<le> next_seqno s'))"
  proof (cases "unsent_msgs s")
    case (Cons w ws)
    obtain s1 where 1: "maybe_send s = (Some (msg w), s1)" "next_seqno s1 = next_seqno s"
      using maybe_send_queued [OF inv S Cons] by metis
    have "msg w \<in> set (retransmitting s @ unacked_msgs s @ fresh s)"
      using Cons by (auto simp: retransmitting_def fresh_def)
    then have "\<exists>k. sent_at S z k (msg w) \<and> k + seq_len (msg w) \<le> next_seqno s"
      using chain_member_bound sender_invD(1,5) [OF inv] unfolding queues_ok_def by metis
    then show ?thesis using 1 m by auto
  next
    case Nil
    show ?thesis
    proof (cases "window_open s \<and> (has_not_sent_SYN s \<or> (has_not_sent_FIN s \<and> stream_is_finished s))")
      case True
      then obtain mm s1 where 1: "maybe_send s = (Some mm, s1)" "sender_inv S z rto una (s1, out)"
        "sent_at S z (next_seqno s) mm"
        "unacked_seqnos s1 + unsent_seqnos s1 = unacked_seqnos s + unsent_seqnos s + seq_len mm"
        using maybe_send_flags [OF inv S Nil] by metis
      then have "next_seqno s1 = next_seqno s + seq_len mm"
        using inv_bounds(3) [OF inv S] inv_bounds(3) [OF 1(2) S] by simp
      then show ?thesis using 1 m by auto
    next
      case False
      then show ?thesis using maybe_send_nothing [OF Nil] m by auto
    qed
  qed
  then show "next_seqno s \<le> next_seqno s'"
    "\<And>m. x = Some m \<Longrightarrow> \<exists>k. sent_at S z k m \<and> k + seq_len m \<le> next_seqno s'" by simp_all
qed

lemma push_loop_capacity: "push_loop n s out d = Inr (s', out') \<Longrightarrow> stream_capacity out' = stream_capacity out"
  by (induction n s out d rule: push_loop.induct) (auto simp: Let_def reader_pop_def split: if_splits)

lemma push_capacity: "push s out = Inr (s', out') \<Longrightarrow> stream_capacity out' = stream_capacity out"
  by (auto simp: push_def andthen_eq_Inr_iff simp del: push_loop.simps dest: push_loop_capacity)

lemma push_bound:
  assumes inv: "sender_inv S z rto una (s, out)" and S: "length S + 2 < 2 ^ 31"
    and p: "\<not> has_not_sent_SYN s \<or> peek out = []" "unsent_msgs s = []" "push s out = Inr (s', out')"
  shows "next_seqno s + min (length (peek out)) (room s) \<le> next_seqno s'"
proof -
  obtain s1 out1 where 1: "push s out = Inr (s1, out1)" "sender_inv S z rto una (s1, out1)"
    "in_flight s1 \<ge> in_flight s + min (length (peek out)) (room s)"
    by (rule push_spec [OF inv S p(1,2)])
  then show ?thesis
    using inv_bounds(3) [OF inv S] inv_bounds(3) [OF 1(2) S] p(3) by (simp add: in_flight_def)
qed

definition sent_bound :: "byte list \<Rightarrow> wrap32 \<Rightarrow> nat \<Rightarrow> connection \<Rightarrow> bool" where
  "sent_bound S z c x \<longleftrightarrow>
     (\<forall>m \<in> segments x. \<exists>k. sent_at S z k m \<and> k + seq_len m \<le> next_seqno (fst (snd_side x)))
     \<and> received_below S (next_seqno (fst (snd_side x))) (rcv_side x) \<and> stream_capacity (snd (snd_side x)) = c"

lemma sent_bound_snd:
  assumes "sent_bound S z c x" and "snd_side x = (s, out)" and "next_seqno s \<le> next_seqno s'"
    and "stream_capacity out' = stream_capacity out"
  shows "sent_bound S z c (x\<lparr>snd_side := (s', out')\<rparr>)"
  using assms received_below_mono unfolding sent_bound_def by simp (meson le_trans)

lemma sent_bound_transmit:
  assumes "sent_bound S z c x" and "sender_inv S z rto una (s, out)" and "length S + 2 < 2 ^ 31"
    and "snd_side x = (s, out)" and "maybe_send s = (m, s')"
  shows "sent_bound S z c (x\<lparr>snd_side := (s', out), segments := segments x \<union> set_option m\<rparr>)"
proof -
  note b = maybe_send_bound [OF assms(2,3,5)]
  show ?thesis using sent_bound_snd [OF assms(1,4) b(1), of out] b(2) by (auto simp: sent_bound_def)
qed

lemma connected_bound:
  assumes "connected S z rto c rc x" and z: "sized S rto c rc"
  shows "sent_bound S z c x"
  using assms(1)
proof induction
  case start
  show ?case
    using sizedD(4) [OF z]
    by (simp add: sent_bound_def initial_connection_def received_below_def known_def)
      (simp add: TCPSender_def TCPReceiver_def Reassembler_def held_def)
next
  case (app_write x s out d out')
  obtain una where inv: "sender_inv S z rto una (s, out)"
    using connected_inv [OF app_write.hyps(1) sizedD(1,2,4-6) [OF z]] app_write.hyps(2) by (auto simp: connection_inv_def)
  have "stream_inv out" using sender_invD(3) [OF inv] by (simp add: outbound_ok_def)
  then have "stream_capacity out' = stream_capacity out"
    using writer_push_spec [of out d] app_write.hyps(4) by (metis sum.inject(2))
  then show ?case using sent_bound_snd [OF app_write.IH app_write.hyps(2)] by simp
next
  case (app_close x s out)
  show ?case by (rule sent_bound_snd [OF app_close.IH app_close.hyps(2)]) (simp_all add: writer_close_def)
next
  case (push x s out s' out')
  obtain una where inv: "sender_inv S z rto una (s, out)"
    using connected_inv [OF push.hyps(1) sizedD(1,2,4-6) [OF z]] push.hyps(2) by (auto simp: connection_inv_def)
  have "next_seqno s \<le> next_seqno s'"
    using push_bound [OF inv sizedD(1) [OF z] push.hyps(4,3,5)] by simp
  then show ?case by (rule sent_bound_snd [OF push.IH push.hyps(2) _ push_capacity [OF push.hyps(5)]])
next
  case (transmit x s out m s')
  obtain una where "sender_inv S z rto una (s, out)"
    using connected_inv [OF transmit.hyps(1) sizedD(1,2,4-6) [OF z]] transmit.hyps(2) by (auto simp: connection_inv_def)
  then show ?case by (rule sent_bound_transmit [OF transmit.IH _ sizedD(1) [OF z] transmit.hyps(2,3)])
next
  case (timeout x s out ms s')
  obtain una where inv: "sender_inv S z rto una (s, out)"
    using connected_inv [OF timeout.hyps(1) sizedD(1,2,4-6) [OF z]] timeout.hyps(2) by (auto simp: connection_inv_def)
  have "next_seqno s' = next_seqno s"
    using tick_spec [OF inv sizedD(1) [OF z] timeout.hyps(3), of ms] timeout.hyps(4) by (metis sum.inject(2))
  then show ?case using sent_bound_snd [OF timeout.IH timeout.hyps(2)] by simp
next
  case (deliver x m got rcv r inb rcv' r' inb')
  have "receiving S z rc (got, rcv, r, inb)"
    using connected_inv [OF deliver.hyps(1) sizedD(1,2,4-6) [OF z]] deliver.hyps(3) by (simp add: connection_inv_def)
  moreover obtain k where "sent_at S z k m" "k + seq_len m \<le> next_seqno (fst (snd_side x))"
    using deliver.IH deliver.hyps(2) by (auto simp: sent_bound_def)
  moreover have "received_below S (next_seqno (fst (snd_side x))) (got, rcv, r, inb)"
    using deliver.IH deliver.hyps(3) by (simp add: sent_bound_def)
  ultimately have "received_below S (next_seqno (fst (snd_side x))) (got, rcv', r', inb')"
    by (rule deliver_below [OF z]) (rule deliver.hyps(4))
  then show ?case using deliver.IH by (simp add: sent_bound_def)
next
  case (acknowledge x got rcv r inb)
  then show ?case by (simp add: sent_bound_def)
next
  case (deliver_ack x a s out s')
  obtain una where inv: "sender_inv S z rto una (s, out)"
    using connected_inv [OF deliver_ack.hyps(1) sizedD(1,2,4-6) [OF z]] deliver_ack.hyps(3) by (auto simp: connection_inv_def)
  have "window_field a < 2 ^ 16"
    using connected_inv [OF deliver_ack.hyps(1) sizedD(1,2,4-6) [OF z]] deliver_ack.hyps(2)
    by (auto simp: connection_inv_def acks_ok_def)
  then have "next_seqno s' = next_seqno s"
    using receive_spec [OF inv sizedD(1) [OF z] deliver_ack.hyps(4)] deliver_ack.hyps(5) by (metis sum.inject(2))
  then show ?case using sent_bound_snd [OF deliver_ack.IH deliver_ack.hyps(3)] by simp
next
  case (app_read x got rcv r inb n)
  then show ?case by (simp add: sent_bound_def received_below_def)
qed

end
