(* ===== verification/TCP_Completion.thy ===== *)
theory TCP_Completion
  imports TCP_Recovery
begin

text \<open>
  The states of a connection of \<open>src/src/tcp_sender.cc\<close> and \<open>tcp_receiver.cc\<close> in which the receiver
  has not closed its stream too early, and what one segment, one acknowledgment and one \<open>push\<close>
  achieve in them.
\<close>

section \<open>What a state is made of\<close>

text \<open>The receiver has not taken a FIN for the end before the end is known.\<close>

definition end_safe :: "byte list \<Rightarrow> reassembler \<Rightarrow> byte_stream \<Rightarrow> bool" where
  "end_safe S r inb \<longleftrightarrow>
     (reach_end r \<longrightarrow> first_unassembled r = length S \<or> S \<noteq> [] \<and> length S - 1 \<in> dom (held r))
     \<and> (is_closed inb \<longrightarrow> first_unassembled r = length S)"

lemma end_safe_insert:
  assumes inv: "assembly_inv S rc (got, r, inb)" and p: "piece_of S f d"
    and m: "insert_meets_spec r inb f d fin r' inb'" and e: "end_safe S r inb"
    and fin: "fin \<Longrightarrow> first_unassembled r' = length S \<or> S \<noteq> [] \<and> length S - 1 \<in> dom (held r')"
  shows "end_safe S r' inb'"
proof -
  note a = assembly_insert [OF inv p m]
  have le: "first_unassembled r \<le> first_unassembled r'" "first_unassembled r' \<le> length S"
    using a(1,2) by (simp_all add: assembly_inv_def)
  have k: "reach_end r' = (reach_end r \<or> fin)" "is_closed inb' = (is_closed inb \<or> (reach_end r' \<and> held r' = Map.empty))"
    using m by (simp_all add: insert_meets_spec_def)
  have "length S - 1 < first_unassembled r' \<or> length S - 1 \<in> dom (held r')" if "length S - 1 \<in> dom (held r)"
    using a(3) that by (auto simp: known_def)
  moreover have "first_unassembled r' = length S" if "S \<noteq> []" "length S - 1 < first_unassembled r'"
    using that le(2) by (cases S) simp_all
  ultimately have "first_unassembled r' = length S \<or> S \<noteq> [] \<and> length S - 1 \<in> dom (held r')" if "reach_end r'"
    using that k(1) fin e le unfolding end_safe_def by (metis le_antisym)
  then show ?thesis using k(2) e le by (auto simp: end_safe_def)
qed

lemma end_safe_read: "end_safe S r (reader_pop inb n) \<longleftrightarrow> end_safe S r inb"
  by (simp add: end_safe_def is_closed_def reader_pop_def Let_def)

lemma connected_parts:
  assumes z: "sized S rto c rc" and x: "connected S z rto c rc x" and "snd_side x = (s, out)"
    and "rcv_side x = (got, rcv, r, inb)"
  obtains una where "sender_inv S z rto una (s, out)" "una \<le> progress (got, rcv, r, inb)"
    "receiving S z rc (got, rcv, r, inb)" "progress (got, rcv, r, inb) \<le> next_seqno s" "stream_capacity out = c"
proof -
  note i = connected_inv [OF x sizedD(1,2,4-6) [OF z], unfolded connection_inv_def]
  then obtain una where "una \<le> progress (got, rcv, r, inb)" "sender_inv S z rto una (s, out)" using assms(3,4) by auto
  moreover have rc: "receiving S z rc (got, rcv, r, inb)" using i assms(4) by simp
  moreover have "received_below S (next_seqno s) (got, rcv, r, inb)" "stream_capacity out = c"
    using connected_bound [OF x z] assms(3,4) by (simp_all add: sent_bound_def)
  ultimately show thesis using that progress_below [OF z rc] by blast
qed

lemma settled_sender:
  assumes "sender_inv S z rto una (s, out)" and "unsent_msgs s = []" and "unacked_msgs s = []"
  shows "una = next_seqno s" "unacked_seqnos s = 0" "unsent_seqnos s = 0"
  using sender_invD(5) [OF assms(1)] drained_queues [OF assms(2)] assms(2,3) by (simp_all add: queues_ok_def)

lemma unacked_head:
  assumes "sender_inv S z rto una (s, out)" and "unsent_msgs s = []" and "unacked_msgs s = m # ms"
  shows "sent_at S z una m"
  using sender_invD(1,5) [OF assms(1)] drained_queues [OF assms(2)] assms(3) by (simp add: queues_ok_def)

text \<open>What has been acknowledged is what has been numbered and is not in flight.\<close>

definition acknowledged :: "tcp_sender \<Rightarrow> nat" where
  "acknowledged s = next_seqno s - sequence_numbers_in_flight s"

lemma acknowledged_inv:
  assumes "sender_inv S z rto una (s, out)" and "length S + 2 < 2 ^ 31"
  shows "acknowledged s = una" "sequence_numbers_in_flight s = in_flight s" "next_seqno s = una + in_flight s"
  using inv_bounds [OF assms]
  by (simp_all add: acknowledged_def sequence_numbers_in_flight_def wadd_nowrap in_flight_def)

section \<open>The segment the receiver waits for\<close>

lemma deliver_head:
  assumes z: "sized S rto c rc" and a: "receiving S z rc (got, rcv, r, inb)" and k: "sent_at S z una m"
    and una: "una \<le> progress (got, rcv, r, inb)" and room: "peek inb = []" and e: "end_safe S r inb"
  obtains rcv' r' inb' where "tcp_receiver_receive rcv m r inb = Inr (rcv', r', inb')" "end_safe S r' inb'"
    "una + seq_len m \<le> progress (got, rcv', r', inb')"
proof -
  note f = received_closed [OF a sizedD(1,6) [OF z]]
  have syn: "SYN m \<or> initial_seq_num rcv \<noteq> None"
    using una k by (auto simp: sent_at_def progress_def)
  obtain rcv' r' inb' where 1: "tcp_receiver_receive rcv m r inb = Inr (rcv', r', inb')"
    "initial_seq_num rcv' = Some z" "rcv_finished rcv' = (rcv_finished rcv \<or> ((meet_FIN rcv \<or> FIN m) \<and> is_closed inb'))"
    "assembly_inv S rc (got, r, inb)" "piece_of S (una - 1) (payload m)" "FIN m \<Longrightarrow> una - 1 + length (payload m) = length S"
    "insert_meets_spec r inb (una - 1) (payload m) (FIN m) r' inb'"
    using deliver_facts [OF z a k syn] by metis
  note as = assembly_insert [OF 1(4,5,7)]
  have inv: "stream_inv inb" "stream_capacity inb = rc"
    using 1(4) inv_stream(1) by (auto simp: assembly_inv_def)
  have "rcv_finished rcv \<Longrightarrow> first_unassembled r = length S"
    using f(3) e by (simp add: synchronized_def end_safe_def)
  moreover have "una - 1 \<le> length S" using 1(5) by (simp add: piece_of_def)
  ultimately have start: "una - 1 \<le> first_unassembled r"
    using una by (cases "rcv_finished rcv") (auto simp: progress_def split: if_splits)
  have "length (payload m) \<le> rc" using segment_fits [OF k sizedD(5) [OF z]] by simp
  then have "una - 1 + length (payload m) \<le> window_end r inb"
    using available_capacity_peek(1) [OF inv(1)] start room inv(2) by (simp add: window_end_def)
  then have "{..<una - 1 + length (payload m)} \<subseteq> known (first_unassembled r') (held r')"
    unfolding as(3) using start by (auto simp: known_def)
  moreover have "first_unassembled r' \<notin> known (first_unassembled r') (held r')"
    using inv_held_dom [of r' inb'] as(1) by (force simp: known_def assembly_inv_def)
  ultimately have reach: "una - 1 + length (payload m) \<le> first_unassembled r'" by (metis lessThan_iff not_less subsetD)
  have le: "first_unassembled r' \<le> length S" using as(1) by (simp add: assembly_inv_def)
  then have fin: "first_unassembled r' = length S" if "FIN m" using 1(6) that reach by simp
  then have safe: "end_safe S r' inb'" by (intro end_safe_insert [OF 1(4,5,7) e]) simp
  have "rcv_finished rcv'" if "FIN m"
    using 1(3,7) as(1) fin that by (auto simp: assembly_inv_def insert_meets_spec_def)
  then have "una + seq_len m \<le> progress (got, rcv', r', inb')"
    using sent_at_end [OF k] reach 1(2) by (cases "FIN m") (auto simp: progress_def)
  then show thesis using that 1(1) safe by blast
qed

section \<open>States from which the transfer can go on\<close>

definition live :: "byte list \<Rightarrow> wrap32 \<Rightarrow> nat \<Rightarrow> nat \<Rightarrow> nat \<Rightarrow> connection \<Rightarrow> bool" where
  "live S z rto c rc x \<longleftrightarrow> connected S z rto c rc x
     \<and> (case rcv_side x of (got, rcv, r, inb) \<Rightarrow> end_safe S r inb)"

lemma liveD:
  assumes "live S z rto c rc x" and "rcv_side x = (got, rcv, r, inb)"
  shows "connected S z rto c rc x" "end_safe S r inb"
  using assms by (simp_all add: live_def)

lemma live_continues:
  assumes "live S z rto c rc x" and "continues S x y" and "rcv_side y = (got, rcv, r, inb)" and "end_safe S r inb"
  shows "live S z rto c rc y"
  using assms continues_connected by (auto simp: live_def)

lemma read_all:
  assumes "rcv_side x = (got, rcv, r, inb)" and "reassembler_inv r inb"
  shows "continues S x (x\<lparr>rcv_side := (got @ peek inb, rcv, r, reader_pop inb (length (peek inb)))\<rparr>)"
    "peek (reader_pop inb (length (peek inb))) = []"
proof -
  show "continues S x (x\<lparr>rcv_side := (got @ peek inb, rcv, r, reader_pop inb (length (peek inb)))\<rparr>)"
    using connection_step.app_read [OF assms(1), of S "length (peek inb)"] by simp
  show "peek (reader_pop inb (length (peek inb))) = []"
    using reader_pop_spec(2) [OF inv_stream(1) [OF assms(2)], of "length (peek inb)"] by simp
qed

lemma sent_ack:
  assumes z: "sized S rto c rc" and a: "receiving S z rc (got, rcv, r, inb)"
  shows "initial_seq_num rcv \<noteq> None \<Longrightarrow>
      ackno (tcp_receiver_send rcv inb) = Some (wrap_abs (progress (got, rcv, r, inb)) z)"
    "peek inb = [] \<Longrightarrow> window_field (tcp_receiver_send rcv inb) = min rc 65535"
proof -
  note zs = sizedD [OF z]
  note f = received_closed [OF a zs(1,6)]
  have inv: "stream_inv inb" "stream_capacity inb = rc"
    using inv_stream(1) [OF f(1)] assembling_facts(4) [OF f(4) zs(8,6)] by simp_all
  have "add64 (add64 (first_unassembled r) 1) (of_bool (rcv_finished rcv)) =
      Suc (first_unassembled r) + of_bool (rcv_finished rcv)"
    using f(2) zs(1) by (simp add: wadd_nowrap)
  then show "initial_seq_num rcv \<noteq> None \<Longrightarrow>
      ackno (tcp_receiver_send rcv inb) = Some (wrap_abs (progress (got, rcv, r, inb)) z)"
    using f(3) by (auto simp: tcp_receiver_send_def progress_def synchronized_def)
  show "peek inb = [] \<Longrightarrow> window_field (tcp_receiver_send rcv inb) = min rc 65535"
    using available_capacity_peek(1) [OF inv(1)] inv(2) by (simp add: tcp_receiver_send_def)
qed

text \<open>The oldest segment is sent again, arrives, and is acknowledged.\<close>

lemma retransmit_head:
  assumes inv: "sender_inv S z rto una (s, out)" and S: "length S + 2 < 2 ^ 31"
    and drained: "unsent_msgs s = []" and m: "unacked_msgs s = m # ms"
  obtains s' s'' where "tick s (timeout_ms (sender_timer s)) = Inr s'" "maybe_send s' = (Some m, s'')" "unsent_msgs s'' = []"
    "unacked_msgs s'' = unacked_msgs s" "next_seqno s'' = next_seqno s" "has_not_sent_SYN s'' = has_not_sent_SYN s"
proof -
  let ?t = "timeout_ms (sender_timer s)"
  have on: "isOn (sender_timer s)" using sender_invD(6) [OF inv] m by (simp add: timer_ok_def)
  obtain s' where s': "tick s ?t = Inr s'" "sender_inv S z rto una (s', out)" "next_seqno s' = next_seqno s"
    "has_not_sent_SYN s' = has_not_sent_SYN s"
    "(unsent_msgs s' = [] \<and> unacked_msgs s' = unacked_msgs s \<and> (isOn (sender_timer s) \<longrightarrow> ?t < timeout_ms (sender_timer s)))
     \<or> (\<exists>m. unacked_msgs s = m # unacked_msgs s' \<and> unsent_msgs s' = [\<lparr>msg = m, is_retransmitted = True\<rparr>])"
    using tick_spec [OF inv S drained, of ?t] by metis
  then have u: "unacked_msgs s = m # unacked_msgs s'" "unsent_msgs s' = [\<lparr>msg = m, is_retransmitted = True\<rparr>]"
    using on m by auto
  have syn: "\<not> has_not_sent_SYN s'" using sender_invD(4) [OF s'(2)] u(2) by (auto simp: flags_ok_def)
  obtain s'' where "maybe_send s' = (Some m, s'')" "unsent_msgs s'' = []" "unacked_msgs s'' = unacked_msgs s"
    "next_seqno s'' = next_seqno s'" "has_not_sent_SYN s'' = has_not_sent_SYN s'"
    using syn u by (simp add: maybe_send_def Let_def)
  then show thesis using that [OF s'(1)] s'(3,4) by simp
qed

text \<open>Everything sent is acknowledged, and the sender may send at least one byte.\<close>

definition settled :: "tcp_sender \<Rightarrow> bool" where
  "settled s \<longleftrightarrow> unsent_msgs s = [] \<and> unacked_msgs s = [] \<and> 0 < window_size s"

section \<open>Sending one more sequence number\<close>

lemma send_flag:
  assumes inv: "sender_inv S z rto una (s, out)" and S: "length S + 2 < 2 ^ 31" and st: "settled s"
    and flag: "has_not_sent_SYN s \<or> (has_not_sent_FIN s \<and> stream_is_finished s)"
  obtains m s' where "maybe_send s = (Some m, s')" "next_seqno s < next_seqno s'"
proof -
  have d: "unsent_msgs s = []" "unacked_msgs s = []" "0 < window_size s" using st by (simp_all add: settled_def)
  note q = settled_sender [OF inv d(1,2)]
  have "window_open s" using d(3) q by (simp add: window_open_def wadd_def)
  then obtain m s' where m: "maybe_send s = (Some m, s')" "sender_inv S z rto una (s', out)"
    "sent_at S z (next_seqno s) m"
    "unacked_seqnos s' + unsent_seqnos s' = unacked_seqnos s + unsent_seqnos s + seq_len m"
    using maybe_send_flags [OF inv S d(1) _ flag] by metis
  have "0 < seq_len m" using m(3) by (simp add: sent_at_def)
  then have "next_seqno s < next_seqno s'" using inv_bounds(3) [OF m(2) S] m(4) q by simp
  then show thesis using that m(1) by blast
qed

lemma push_more:
  assumes inv: "sender_inv S z rto una (s, out)" and S: "length S + 2 < 2 ^ 31" and st: "settled s"
    and syn: "\<not> has_not_sent_SYN s" and data: "peek out \<noteq> []"
  obtains s' out' where "push s out = Inr (s', out')" "next_seqno s < next_seqno s'"
proof -
  have d: "unsent_msgs s = []" "unacked_msgs s = []" "0 < window_size s" using st by (simp_all add: settled_def)
  have syn': "\<not> has_not_sent_SYN s \<or> peek out = []" using syn by simp
  obtain s' out' where p: "push s out = Inr (s', out')" by (rule push_spec [OF inv S syn' d(1)])
  have "0 < room s" using d(3) settled_sender [OF inv d(1,2)] by (simp add: room_def in_flight_def)
  moreover have "0 < length (peek out)" using data by simp
  ultimately have "next_seqno s < next_seqno s'" using push_bound [OF inv S syn' d(1) p] by linarith
  then show thesis using that p by blast
qed

lemma write_rest:
  assumes out: "outbound_ok S out"
  obtains out' where "writer_push out (drop (total_popped out + length (peek out)) S) = Inr out'"
    "piece_of S (total_popped out + length (peek out)) (take (available_capacity out) (drop (total_popped out + length (peek out)) S))"
    "0 < stream_capacity out \<Longrightarrow> total_popped out + length (peek out) < length S \<Longrightarrow> peek out' \<noteq> []"
proof -
  let ?n = "total_popped out + length (peek out)"
  have inv: "stream_inv out" and n: "?n \<le> length S" using out by (simp_all add: outbound_ok_def piece_of_def)
  obtain out' where w: "writer_push out (drop ?n S) = Inr out'" "peek out' = peek out @ take (available_capacity out) (drop ?n S)"
    by (rule writer_push_spec [OF inv, of "drop ?n S"])
  have "piece_of S i (take a (drop i S))" if "i \<le> length S" for a i
    using that by (cases "a \<le> length S - i") (simp_all add: piece_of_def)
  then have "piece_of S ?n (take (available_capacity out) (drop ?n S))" using n by blast
  moreover have "peek out' \<noteq> []" if "0 < stream_capacity out" "?n < length S"
    using that w(2) available_capacity_peek(1) [OF inv] by (cases "peek out") auto
  ultimately show thesis by (rule that [OF w(1)])
qed

lemma finish_stream:
  assumes inv: "sender_inv S z rto una (s, out)" and st: "unsent_msgs s = []" and pk: "peek out = []"
  shows "push s (writer_close out) = Inr (s\<lparr>stream_is_finished := True\<rparr>, writer_close out)"
proof -
  have "stream_inv out" using sender_invD(3) [OF inv] by (simp add: outbound_ok_def)
  then have "is_finished (writer_close out)" using pk by (simp add: is_finished_peek)
  then show ?thesis using st pk by (simp add: push_def attach_FIN_def Let_def)
qed

end
