(* ===== verification/TCP_Rounds.thy ===== *)
theory TCP_Rounds
  imports TCP_Completion
begin

text \<open>
  A connection of \<open>src/src/tcp_sender.cc\<close> and \<open>tcp_receiver.cc\<close> over a network that, for the length
  of a round, loses nothing: every such round acknowledges something new, whatever the network
  did before.
\<close>

section \<open>What happens in a round\<close>

text \<open>\<open>maybe_send\<close> once, and until the queue is empty.\<close>

definition transmit_one :: "connection \<Rightarrow> connection" where
  "transmit_one x =
     (case snd_side x of (s, out) \<Rightarrow> case maybe_send s of (m, s') \<Rightarrow>
        x\<lparr>snd_side := (s', out), segments := segments x \<union> set_option m\<rparr>)"

fun transmit_all :: "nat \<Rightarrow> connection \<Rightarrow> connection" where
  "transmit_all 0 x = x"
| "transmit_all (Suc n) x = transmit_all n (transmit_one x)"

definition flush_queue :: "connection \<Rightarrow> connection" where
  "flush_queue x = transmit_all (length (unsent_msgs (fst (snd_side x)))) x"

definition read_everything :: "connection \<Rightarrow> connection" where
  "read_everything x =
     (case rcv_side x of (got, rcv, r, inb) \<Rightarrow>
        x\<lparr>rcv_side := (got @ peek inb, rcv, r, reader_pop inb (length (peek inb)))\<rparr>)"

text \<open>The reader takes everything, the receiver acknowledges, and the sender gets the acknowledgment.\<close>

definition exchange_ack :: "connection \<Rightarrow> connection outcome" where
  "exchange_ack x0 =
     (let x = read_everything x0 in
      case rcv_side x of (got, rcv, r, inb) \<Rightarrow>
      case snd_side x of (s, out) \<Rightarrow>
        let a = tcp_receiver_send rcv inb
        in andthen (tcp_sender_receive s a) (\<lambda>s'.
           Inr (x\<lparr>acks := insert a (acks x), snd_side := (s', out)\<rparr>)))"

text \<open>The application writes what is left of \<open>S\<close>, as far as it fits, or closes the stream.\<close>

definition offer :: "byte list \<Rightarrow> connection \<Rightarrow> connection outcome" where
  "offer S x =
     (case snd_side x of (s, out) \<Rightarrow>
        let n = total_popped out + length (peek out)
        in if n = length S then Inr (x\<lparr>snd_side := (s, writer_close out)\<rparr>)
           else andthen (writer_push out (drop n S)) (\<lambda>out'. Inr (x\<lparr>snd_side := (s, out')\<rparr>)))"

definition push_all :: "connection \<Rightarrow> connection outcome" where
  "push_all x =
     (case snd_side x of (s, out) \<Rightarrow>
        andthen (push s out) (\<lambda>(s', out').
        Inr (transmit_one (flush_queue (x\<lparr>snd_side := (s', out')\<rparr>)))))"

definition produce :: "byte list \<Rightarrow> connection \<Rightarrow> connection outcome" where
  "produce S x =
     (if has_not_sent_SYN (fst (snd_side x)) then Inr (transmit_one x)
      else andthen (offer S x) push_all)"

text \<open>The timer expires; the oldest segment is sent again and arrives.\<close>

definition deliver_segment :: "tcp_sender_message \<Rightarrow> connection \<Rightarrow> connection outcome" where
  "deliver_segment m x =
     (case rcv_side x of (got, rcv, r, inb) \<Rightarrow>
        andthen (tcp_receiver_receive rcv m r inb) (\<lambda>(rcv', r', inb').
        Inr (x\<lparr>rcv_side := (got, rcv', r', inb')\<rparr>)))"

definition retransmit :: "connection \<Rightarrow> connection outcome" where
  "retransmit x =
     (case snd_side x of (s, out) \<Rightarrow>
        case unacked_msgs s of
          [] \<Rightarrow> Inr x
        | m # _ \<Rightarrow>
            andthen (tick s (timeout_ms (sender_timer s))) (\<lambda>s'.
            deliver_segment m (read_everything (transmit_one (x\<lparr>snd_side := (s', out)\<rparr>)))))"

definition loss_free_round :: "byte list \<Rightarrow> connection \<Rightarrow> connection outcome" where
  "loss_free_round S x0 =
     andthen (exchange_ack (flush_queue x0)) (\<lambda>x.
     andthen (if unacked_msgs (fst (snd_side x)) = [] then produce S x else Inr x) (\<lambda>x.
     andthen (retransmit x) exchange_ack))"

section \<open>The parts of a round\<close>

text \<open>
  \<open>at_rest\<close>: nothing is queued, and \<open>una\<close> is the oldest number in flight.
\<close>

definition at_rest :: "byte list \<Rightarrow> wrap32 \<Rightarrow> nat \<Rightarrow> nat \<Rightarrow> nat \<Rightarrow> nat \<Rightarrow> connection \<Rightarrow> bool" where
  "at_rest S z rto c rc una x \<longleftrightarrow> live S z rto c rc x \<and> sender_inv S z rto una (snd_side x)
     \<and> unsent_msgs (fst (snd_side x)) = []"

lemma at_restD:
  assumes "at_rest S z rto c rc una x" and "snd_side x = (s, out)"
  shows "live S z rto c rc x" "sender_inv S z rto una (s, out)" "unsent_msgs s = []"
  using assms by (simp_all add: at_rest_def)

lemma live_parts:
  assumes z: "sized S rto c rc" and l: "live S z rto c rc x" and "snd_side x = (s, out)" and "rcv_side x = (got, rcv, r, inb)"
  obtains una where "sender_inv S z rto una (s, out)" "una \<le> progress (got, rcv, r, inb)"
    "receiving S z rc (got, rcv, r, inb)" "progress (got, rcv, r, inb) \<le> next_seqno s" "stream_capacity out = c"
    "una = acknowledged s"
proof -
  obtain una where u: "sender_inv S z rto una (s, out)" "una \<le> progress (got, rcv, r, inb)"
    "receiving S z rc (got, rcv, r, inb)" "progress (got, rcv, r, inb) \<le> next_seqno s" "stream_capacity out = c"
    by (rule connected_parts [OF z liveD(1) [OF l assms(4)] assms(3,4)])
  then show thesis using that acknowledged_inv(1) [OF u(1) sizedD(1) [OF z]] by simp
qed

lemma live_sender_step:
  assumes "live S z rto c rc x" and "connection_step S x y" and "rcv_side y = rcv_side x"
  shows "live S z rto c rc y"
  using assms step_connected by (auto simp: live_def)

lemma transmit_one_step: "connection_step S x (transmit_one x)" and transmit_one_rcv: "rcv_side (transmit_one x) = rcv_side x"
proof -
  obtain s out m s' where e: "snd_side x = (s, out)" "maybe_send s = (m, s')" by (metis surj_pair)
  then have eq: "transmit_one x = x\<lparr>snd_side := (s', out), segments := segments x \<union> set_option m\<rparr>"
    by (simp add: transmit_one_def)
  show "connection_step S x (transmit_one x)" unfolding eq by (rule connection_step.transmit [OF e])
  show "rcv_side (transmit_one x) = rcv_side x" by (simp add: eq)
qed

lemma transmit_one_live: "live S z rto c rc x \<Longrightarrow> live S z rto c rc (transmit_one x)"
  using live_sender_step transmit_one_step transmit_one_rcv by blast

lemma transmit_all_spec:
  assumes z: "sized S rto c rc" and "live S z rto c rc x" and "snd_side x = (s, out)" and "n = length (unsent_msgs s)"
    and "sender_inv S z rto una (s, out)"
  shows "\<exists>s'. snd_side (transmit_all n x) = (s', out) \<and> at_rest S z rto c rc una (transmit_all n x)
    \<and> rcv_side (transmit_all n x) = rcv_side x \<and> next_seqno s' = next_seqno s \<and> has_not_sent_SYN s' = has_not_sent_SYN s
    \<and> continues S x (transmit_all n x)"
  using assms(2-)
proof (induction n arbitrary: x s)
  case 0
  then show ?case by (simp add: at_rest_def)
next
  case (Suc n)
  obtain w ws where w: "unsent_msgs s = w # ws" using Suc.prems(3) by (cases "unsent_msgs s") simp_all
  obtain s' where s': "maybe_send s = (Some (msg w), s')" "sender_inv S z rto una (s', out)" "unsent_msgs s' = ws"
    "next_seqno s' = next_seqno s" "has_not_sent_SYN s' = has_not_sent_SYN s"
    by (rule maybe_send_queued [OF Suc.prems(4) sizedD(1) [OF z] w])
  have sd: "snd_side (transmit_one x) = (s', out)" using Suc.prems(2) s'(1) by (simp add: transmit_one_def)
  have "n = length (unsent_msgs s')" using Suc.prems(3) w s'(3) by simp
  from Suc.IH [OF transmit_one_live [OF Suc.prems(1)] sd this s'(2)]
  show ?case
    using s'(4,5) converse_rtranclp_into_rtranclp [of "connection_step S", OF transmit_one_step] by (auto simp: transmit_one_rcv)
qed

lemma flush_queue_spec:
  assumes "sized S rto c rc" and "live S z rto c rc x" and "snd_side x = (s, out)" and "sender_inv S z rto una (s, out)"
  obtains s' where "snd_side (flush_queue x) = (s', out)" "at_rest S z rto c rc una (flush_queue x)"
    "rcv_side (flush_queue x) = rcv_side x" "next_seqno s' = next_seqno s" "has_not_sent_SYN s' = has_not_sent_SYN s"
    "continues S x (flush_queue x)"
  using transmit_all_spec [OF assms(1-3) refl assms(4)] assms(3) by (auto simp: flush_queue_def)

lemma read_everything_spec:
  assumes z: "sized S rto c rc" and l: "live S z rto c rc x" and rd: "rcv_side x = (got, rcv, r, inb)"
  obtains inb' where "rcv_side (read_everything x) = (got @ peek inb, rcv, r, inb')" "peek inb' = []"
    "live S z rto c rc (read_everything x)" "snd_side (read_everything x) = snd_side x"
    "segments (read_everything x) = segments x" "continues S x (read_everything x)"
proof -
  obtain s out where sd: "snd_side x = (s, out)" by (cases "snd_side x")
  have a: "receiving S z rc (got, rcv, r, inb)" by (rule live_parts [OF z l sd rd])
  have e: "read_everything x = x\<lparr>rcv_side := (got @ peek inb, rcv, r, reader_pop inb (length (peek inb)))\<rparr>"
    by (simp add: read_everything_def rd)
  note ra = read_all [OF rd received_closed(1) [OF a sizedD(1,6) [OF z]]]
  have c: "continues S x (read_everything x)" "peek (reader_pop inb (length (peek inb))) = []"
    unfolding e by (rule ra)+
  have rdy: "rcv_side (read_everything x) = (got @ peek inb, rcv, r, reader_pop inb (length (peek inb)))" by (simp add: e)
  have "end_safe S r (reader_pop inb (length (peek inb)))" unfolding end_safe_read by (rule liveD(2) [OF l rd])
  then have "live S z rto c rc (read_everything x)" by (rule live_continues [OF l c(1) rdy])
  then show thesis using that c by (simp add: e)
qed

lemma exchange_ack_spec:
  assumes z: "sized S rto c rc" and x: "at_rest S z rto c rc una x" and sd: "snd_side x = (s, out)"
    and rd: "rcv_side x = (got, rcv, r, inb)"
  obtains y s' una' where "exchange_ack x = Inr y" "continues S x y" "at_rest S z rto c rc una' y" "una \<le> una'"
    "snd_side y = (s', out)" "next_seqno s' = next_seqno s" "has_not_sent_SYN s' = has_not_sent_SYN s"
    "0 < window_size s'" "\<forall>m ms. unacked_msgs s = m # ms \<longrightarrow> una + seq_len m \<le> progress (got, rcv, r, inb) \<longrightarrow> una < una'"
proof -
  note l = at_restD [OF x sd]
  obtain inb' where 1: "rcv_side (read_everything x) = (got @ peek inb, rcv, r, inb')" "peek inb' = []"
    "live S z rto c rc (read_everything x)" "snd_side (read_everything x) = snd_side x" "continues S x (read_everything x)"
    by (rule read_everything_spec [OF z l(1) rd])
  let ?x1 = "read_everything x" and ?a = "tcp_receiver_send rcv inb'" and ?p = "progress (got, rcv, r, inb)"
  have sd1: "snd_side ?x1 = (s, out)" using 1(4) sd by simp
  obtain rec: "receiving S z rc (got @ peek inb, rcv, r, inb')" and p: "progress (got @ peek inb, rcv, r, inb') \<le> next_seqno s"
    by (rule live_parts [OF z 1(3) sd1 1(1)])
  have prog: "progress (got @ peek inb, rcv, r, inb') = ?p" by (simp add: progress_def)
  have w: "window_field ?a = min rc 65535" by (rule sent_ack(2) [OF z rec 1(2)])
  then have w16: "window_field ?a < 2 ^ 16" by simp
  obtain s' una' where s': "tcp_sender_receive s ?a = Inr s'" "sender_inv S z rto una' (s', out)" "unsent_msgs s' = []"
    "window_size s' = window_field ?a" "una \<le> una'"
    "suffix (unacked_msgs s') (unacked_msgs s)" "next_seqno s' = next_seqno s"
    "has_not_sent_SYN s' = has_not_sent_SYN s"
    "\<And>b m ms. ackno ?a = Some b \<Longrightarrow> unwrap_abs b z (next_seqno s) \<le> next_seqno s \<Longrightarrow>
       unacked_msgs s = m # ms \<Longrightarrow> una + seq_len m \<le> unwrap_abs b z (next_seqno s) \<Longrightarrow> unacked_msgs s' \<noteq> unacked_msgs s"
    using receive_spec [OF l(2) sizedD(1) [OF z] l(3) w16] by metis
  let ?x2 = "?x1\<lparr>acks := insert ?a (acks ?x1)\<rparr>" and ?y = "?x1\<lparr>acks := insert ?a (acks ?x1), snd_side := (s', out)\<rparr>"
  have y: "exchange_ack x = Inr ?y" using 1(1) sd1 s'(1) by (simp add: exchange_ack_def Let_def)
  have c2: "connection_step S ?x1 ?x2" by (rule connection_step.acknowledge [OF 1(1)])
  have c3: "connection_step S ?x2 (?x2\<lparr>snd_side := (s', out)\<rparr>)"
    by (rule connection_step.deliver_ack [OF _ _ l(3) s'(1)]) (simp_all add: sd1)
  then have c3': "connection_step S ?x2 ?y" by simp
  have live: "live S z rto c rc ?y"
    by (rule live_sender_step [OF live_sender_step [OF 1(3) c2] c3']) simp_all
  have less: "una < una'" if h: "unacked_msgs s = m # ms" "una + seq_len m \<le> ?p" for m ms
  proof -
    have pos: "0 < seq_len m" using unacked_head [OF l(2,3) h(1)] by (simp add: sent_at_def)
    then have "initial_seq_num rcv \<noteq> None" using h(2) by (auto simp: progress_def split: if_splits)
    then have a: "ackno ?a = Some (wrap_abs ?p z)" using sent_ack(1) [OF z rec] prog by simp
    have u: "unwrap_abs (wrap_abs ?p z) z (next_seqno s) = ?p"
      using p prog inv_bounds(2) [OF l(2) sizedD(1) [OF z]] by (intro unwrap_wrap_abs) simp_all
    have "unacked_msgs s' \<noteq> m # ms" using s'(9) [OF a _ h(1)] p prog h u by simp
    then have "suffix (unacked_msgs s') ms" using s'(6) h(1) by (auto simp: suffix_Cons)
    then obtain qs where "ms = qs @ unacked_msgs s'" by (auto simp: suffix_def)
    then have "seq_lens (unacked_msgs s') < seq_lens (unacked_msgs s)" using h(1) pos by simp
    moreover have "una + seq_lens (unacked_msgs s) = una' + seq_lens (unacked_msgs s')"
      using sender_invD(5) [OF l(2)] sender_invD(5) [OF s'(2)] inv_bounds(3) [OF l(2) sizedD(1) [OF z]]
        inv_bounds(3) [OF s'(2) sizedD(1) [OF z]] l(3) s'(3,7) by (simp add: queues_ok_def)
    ultimately show ?thesis by linarith
  qed
  show thesis
  proof (rule that [OF y _ _ s'(5)])
    show "continues S x ?y" using 1(5) c2 c3' by (meson rtranclp.rtrancl_into_rtrancl)
    show "at_rest S z rto c rc una' ?y" using live s'(2,3) by (simp add: at_rest_def)
    show "0 < window_size s'" using sizedD(5) [OF z] by (simp add: s'(4) w)
  qed (use s'(7,8) less in auto)
qed

lemma transmit_one_spec:
  assumes z: "sized S rto c rc" and x: "at_rest S z rto c rc una x" and sd: "snd_side x = (s, out)"
  obtains s' where "snd_side (transmit_one x) = (s', out)" "at_rest S z rto c rc una (transmit_one x)"
    "next_seqno s \<le> next_seqno s'"
    "settled s \<and> (has_not_sent_SYN s \<or> (has_not_sent_FIN s \<and> stream_is_finished s)) \<longrightarrow> next_seqno s < next_seqno s'"
proof -
  note l = at_restD [OF x sd] and S = sizedD(1) [OF z]
  obtain m s' where m: "maybe_send s = (m, s')" by (cases "maybe_send s")
  have sd': "snd_side (transmit_one x) = (s', out)" using sd m by (simp add: transmit_one_def)
  note sp = maybe_send_spec(1,3) [OF l(2) S m]
  have "at_rest S z rto c rc una (transmit_one x)"
    using transmit_one_live [OF l(1)] sp l(3) sd' by (simp add: at_rest_def)
  moreover have "next_seqno s < next_seqno s'"
    if "settled s" "has_not_sent_SYN s \<or> (has_not_sent_FIN s \<and> stream_is_finished s)"
    using send_flag [OF l(2) S that] m by auto
  ultimately show thesis using that sd' maybe_send_bound(1) [OF l(2) S m] by blast
qed

lemma offer_spec:
  assumes z: "sized S rto c rc" and l: "live S z rto c rc x" and sd: "snd_side x = (s, out)"
    and inv: "sender_inv S z rto una (s, out)"
  obtains out' where "offer S x = Inr (x\<lparr>snd_side := (s, out')\<rparr>)" "connection_step S x (x\<lparr>snd_side := (s, out')\<rparr>)"
    "sender_inv S z rto una (s, out')" "peek out' \<noteq> [] \<or> peek out = [] \<and> total_popped out = length S \<and> out' = writer_close out"
proof (cases "total_popped out + length (peek out) = length S")
  case True
  note st = connection_step.app_close [OF sd True]
  have "offer S x = Inr (x\<lparr>snd_side := (s, writer_close out)\<rparr>)" using True sd by (simp add: offer_def Let_def)
  moreover have "peek (writer_close out) = peek out" by (simp add: peek_def writer_close_def)
  ultimately show thesis using that [OF _ st inv_close [OF inv True]] True by (cases "peek out = []") simp_all
next
  case False
  obtain got rcv r inb where rd: "rcv_side x = (got, rcv, r, inb)" by (cases "rcv_side x")
  have cap: "stream_capacity out = c" by (rule live_parts [OF z l sd rd])
  note o = sender_invD(3) [OF inv]
  obtain out' where w: "writer_push out (drop (total_popped out + length (peek out)) S) = Inr out'"
    "piece_of S (total_popped out + length (peek out)) (take (available_capacity out) (drop (total_popped out + length (peek out)) S))"
    "0 < stream_capacity out \<Longrightarrow> total_popped out + length (peek out) < length S \<Longrightarrow> peek out' \<noteq> []"
    using write_rest [OF o] by metis
  have "total_popped out + length (peek out) < length S" using o False by (simp add: outbound_ok_def piece_of_def)
  then have "peek out' \<noteq> []" using w(3) cap sizedD(3) [OF z] by simp
  moreover have "offer S x = Inr (x\<lparr>snd_side := (s, out')\<rparr>)" using False sd w(1) by (simp add: offer_def Let_def)
  ultimately show thesis using that connection_step.app_write [OF sd w(2,1)] inv_write [OF inv w(2,1)] by blast
qed

lemma push_all_spec:
  assumes z: "sized S rto c rc" and x: "at_rest S z rto c rc una x" and sd: "snd_side x = (s, out)"
    and syn: "\<not> has_not_sent_SYN s"
  obtains y s' out' where "push_all x = Inr y" "continues S x y" "at_rest S z rto c rc una y" "snd_side y = (s', out')" "rcv_side y = rcv_side x"
    "settled s \<and> (peek out \<noteq> [] \<or> (is_finished out \<and> has_not_sent_FIN s)) \<longrightarrow> next_seqno s < next_seqno s'"
proof -
  note l = at_restD [OF x sd] and S = sizedD(1) [OF z]
  have syn': "\<not> has_not_sent_SYN s \<or> peek out = []" using syn by simp
  obtain s1 out1 where p: "push s out = Inr (s1, out1)" "sender_inv S z rto una (s1, out1)" "has_not_sent_SYN s1 = has_not_sent_SYN s"
    by (rule push_spec [OF l(2) S syn' l(3)])
  let ?x1 = "x\<lparr>snd_side := (s1, out1)\<rparr>"
  note c1 = connection_step.push [OF sd l(3) syn' p(1)]
  have l1: "live S z rto c rc ?x1" by (rule live_sender_step [OF l(1) c1]) simp
  obtain s2 where f: "snd_side (flush_queue ?x1) = (s2, out1)" "at_rest S z rto c rc una (flush_queue ?x1)"
    "rcv_side (flush_queue ?x1) = rcv_side ?x1" "next_seqno s2 = next_seqno s1" "continues S ?x1 (flush_queue ?x1)"
    by (rule flush_queue_spec [OF z l1 _ p(2)]) simp
  let ?y = "transmit_one (flush_queue ?x1)"
  obtain s3 where t: "snd_side ?y = (s3, out1)" "at_rest S z rto c rc una ?y" "next_seqno s2 \<le> next_seqno s3"
    "settled s2 \<and> (has_not_sent_SYN s2 \<or> (has_not_sent_FIN s2 \<and> stream_is_finished s2)) \<longrightarrow> next_seqno s2 < next_seqno s3"
    by (rule transmit_one_spec [OF z f(2,1)])
  have y: "push_all x = Inr ?y" using sd p(1) by (simp add: push_all_def)
  have "next_seqno s < next_seqno s3" if st: "settled s" and h: "peek out \<noteq> [] \<or> (is_finished out \<and> has_not_sent_FIN s)"
  proof (cases "peek out = []")
    case False
    then show ?thesis using push_more [OF l(2) S st syn False] p(1) f(4) t(3) by fastforce
  next
    case True
    then have "push s out = Inr (s\<lparr>stream_is_finished := True\<rparr>, out)"
      using h l(3) by (simp add: push_def attach_FIN_def Let_def)
    then have e: "s1 = s\<lparr>stream_is_finished := True\<rparr>" "out1 = out" using p(1) by simp_all
    then have "flush_queue ?x1 = ?x1" using l(3) by (simp add: flush_queue_def)
    then have "s2 = s1" using f(1) by simp
    then show ?thesis using t(4) h st e True by (simp add: settled_def)
  qed
  moreover have "continues S x ?y"
    using converse_rtranclp_into_rtranclp [OF c1 f(5)] transmit_one_step by (rule rtranclp.rtrancl_into_rtrancl)
  ultimately show thesis using that [OF y _ t(2,1)] f(3) by (simp add: transmit_one_rcv)
qed

lemma produce_spec:
  assumes z: "sized S rto c rc" and x: "at_rest S z rto c rc una x" and sd: "snd_side x = (s, out)"
  obtains y s' out' where "produce S x = Inr y" "continues S x y" "at_rest S z rto c rc una y" "snd_side y = (s', out')" "rcv_side y = rcv_side x"
    "settled s \<and> next_seqno s < length S + 2 \<longrightarrow> next_seqno s < next_seqno s'"
proof (cases "has_not_sent_SYN s")
  case True
  obtain s' where "snd_side (transmit_one x) = (s', out)" "at_rest S z rto c rc una (transmit_one x)"
    "settled s \<and> (has_not_sent_SYN s \<or> (has_not_sent_FIN s \<and> stream_is_finished s)) \<longrightarrow> next_seqno s < next_seqno s'"
    by (rule transmit_one_spec [OF z x sd])
  then show thesis
    using that [OF _ r_into_rtranclp [of "connection_step S", OF transmit_one_step]] True sd
    by (simp add: produce_def transmit_one_rcv)
next
  case False
  note l = at_restD [OF x sd]
  obtain out1 where o: "offer S x = Inr (x\<lparr>snd_side := (s, out1)\<rparr>)" "connection_step S x (x\<lparr>snd_side := (s, out1)\<rparr>)"
    "sender_inv S z rto una (s, out1)" "peek out1 \<noteq> [] \<or> peek out = [] \<and> total_popped out = length S \<and> out1 = writer_close out"
    by (rule offer_spec [OF z l(1) sd l(2)])
  let ?x1 = "x\<lparr>snd_side := (s, out1)\<rparr>"
  have x1: "at_rest S z rto c rc una ?x1"
    using live_sender_step [OF l(1) o(2)] o(3) l(3) by (simp add: at_rest_def)
  obtain y s' out' where y: "push_all ?x1 = Inr y" "at_rest S z rto c rc una y" "snd_side y = (s', out')" "rcv_side y = rcv_side ?x1"
    "continues S ?x1 y"
    "settled s \<and> (peek out1 \<noteq> [] \<or> (is_finished out1 \<and> has_not_sent_FIN s)) \<longrightarrow> next_seqno s < next_seqno s'"
    by (rule push_all_spec [OF z x1 _ False]) simp
  have p: "produce S x = Inr y" using False sd o(1) y(1) by (simp add: produce_def)
  have "next_seqno s < next_seqno s'" if "settled s" "next_seqno s < length S + 2"
  proof -
    have "peek out1 \<noteq> [] \<or> (is_finished out1 \<and> has_not_sent_FIN s)"
    proof (cases "peek out1 = []")
      case True
      then have e: "peek out = []" "total_popped out = length S" "out1 = writer_close out" using o(4) by simp_all
      have "stream_inv out" using sender_invD(3) [OF l(2)] by (simp add: outbound_ok_def)
      then have "is_finished out1" using e by (simp add: is_finished_peek)
      moreover have "has_not_sent_FIN s" using sender_invD(4) [OF l(2)] that(2) e(2) False by (auto simp: flags_ok_def)
      ultimately show ?thesis by simp
    qed simp
    then show ?thesis using y(6) that(1) by blast
  qed
  then show thesis using that [OF p converse_rtranclp_into_rtranclp [OF o(2) y(5)] y(2,3)] y(4) by simp
qed

lemma retransmit_spec:
  assumes z: "sized S rto c rc" and x: "at_rest S z rto c rc una x" and sd: "snd_side x = (s, out)"
  obtains y s' got rcv r inb where "retransmit x = Inr y" "continues S x y" "at_rest S z rto c rc una y" "snd_side y = (s', out)"
    "unacked_msgs s' = unacked_msgs s" "next_seqno s' = next_seqno s" "rcv_side y = (got, rcv, r, inb)"
    "\<forall>m ms. unacked_msgs s = m # ms \<longrightarrow> una + seq_len m \<le> progress (got, rcv, r, inb)"
proof (cases "unacked_msgs s")
  case Nil
  obtain got rcv r inb where "rcv_side x = (got, rcv, r, inb)" by (cases "rcv_side x")
  then show thesis using that [of x s] x sd Nil by (simp add: retransmit_def)
next
  case (Cons m ms)
  note l = at_restD [OF x sd] and S = sizedD(1) [OF z]
  obtain s1 s2 where t: "tick s (timeout_ms (sender_timer s)) = Inr s1" "maybe_send s1 = (Some m, s2)" "unsent_msgs s2 = []"
    "unacked_msgs s2 = unacked_msgs s" "next_seqno s2 = next_seqno s"
    by (rule retransmit_head [OF l(2) S l(3) Cons])
  let ?x1 = "x\<lparr>snd_side := (s1, out)\<rparr>"
  note c1 = connection_step.timeout [OF sd l(3) t(1)]
  have l1: "live S z rto c rc ?x1" by (rule live_sender_step [OF l(1) c1]) simp
  let ?x2 = "transmit_one ?x1"
  have l2: "live S z rto c rc ?x2" by (rule transmit_one_live [OF l1])
  have sd2: "snd_side ?x2 = (s2, out)" "m \<in> segments ?x2" using t(2) by (simp_all add: transmit_one_def)
  obtain got rcv r inb0 where rd: "rcv_side ?x2 = (got, rcv, r, inb0)" by (cases "rcv_side ?x2")
  obtain inb where r: "rcv_side (read_everything ?x2) = (got @ peek inb0, rcv, r, inb)" "peek inb = []"
    "live S z rto c rc (read_everything ?x2)" "snd_side (read_everything ?x2) = snd_side ?x2"
    "segments (read_everything ?x2) = segments ?x2" "continues S ?x2 (read_everything ?x2)"
    by (rule read_everything_spec [OF z l2 rd])
  let ?x3 = "read_everything ?x2"
  have sd3: "snd_side ?x3 = (s2, out)" using r(4) sd2 by simp
  obtain una3 where u: "sender_inv S z rto una3 (s2, out)" "una3 \<le> progress (got @ peek inb0, rcv, r, inb)"
    "receiving S z rc (got @ peek inb0, rcv, r, inb)" by (rule live_parts [OF z r(3) sd3 r(1)])
  have eq: "una3 = una"
    using inv_bounds(3) [OF l(2) S] inv_bounds(3) [OF u(1) S] sender_invD(5) [OF l(2)] sender_invD(5) [OF u(1)]
      t(3-5) l(3) by (simp add: queues_ok_def)
  obtain rcv' r' inb' where d: "tcp_receiver_receive rcv m r inb = Inr (rcv', r', inb')" "end_safe S r' inb'"
    "una + seq_len m \<le> progress (got @ peek inb0, rcv', r', inb')"
    by (rule deliver_head [OF z u(3) unacked_head [OF l(2,3) Cons] u(2) [unfolded eq] r(2) liveD(2) [OF r(3,1)]])
  let ?y = "?x3\<lparr>rcv_side := (got @ peek inb0, rcv', r', inb')\<rparr>"
  have st: "connection_step S ?x3 ?y" by (rule connection_step.deliver [OF _ r(1) d(1)]) (simp add: r(5) sd2)
  have "live S z rto c rc ?y" by (rule live_continues [OF r(3) r_into_rtranclp [of "connection_step S", OF st] _ d(2)]) simp
  then have "at_rest S z rto c rc una ?y" using u(1) eq t(3) sd3 by (simp add: at_rest_def)
  moreover have "retransmit x = Inr ?y"
    using sd Cons t(1) r(1) d(1) by (simp add: retransmit_def deliver_segment_def)
  moreover have "continues S x ?y"
    using c1 transmit_one_step [of S ?x1] r(6) st
    by (meson converse_rtranclp_into_rtranclp rtranclp.rtrancl_into_rtrancl)
  ultimately show thesis using that sd3 t(4,5) d(3) Cons by simp
qed

section \<open>A round makes progress\<close>

lemma loss_free_round_spec:
  assumes z: "sized S rto c rc" and l: "live S z rto c rc x" and sd: "snd_side x = (s, out)"
  obtains y s' out' una' where "loss_free_round S x = Inr y" "continues S x y" "at_rest S z rto c rc una' y" "snd_side y = (s', out')"
    "min (length S + 2) (Suc (acknowledged s)) \<le> una'"
proof -
  note S = sizedD(1) [OF z]
  obtain got rcv r inb where rd: "rcv_side x = (got, rcv, r, inb)" by (cases "rcv_side x")
  obtain una where inv: "sender_inv S z rto una (s, out)" "una = acknowledged s" by (rule live_parts [OF z l sd rd])
  obtain s1 where f: "snd_side (flush_queue x) = (s1, out)" "at_rest S z rto c rc una (flush_queue x)"
    "rcv_side (flush_queue x) = rcv_side x" "continues S x (flush_queue x)" by (rule flush_queue_spec [OF z l sd inv(1)])
  obtain y1 s2 una1 where e: "exchange_ack (flush_queue x) = Inr y1" "at_rest S z rto c rc una1 y1" "una \<le> una1"
    "snd_side y1 = (s2, out)" "0 < window_size s2" "continues S (flush_queue x) y1"
    by (rule exchange_ack_spec [OF z f(2,1) f(3) [unfolded rd]])
  obtain y2 s3 out3 where p: "(if unacked_msgs (fst (snd_side y1)) = [] then produce S y1 else Inr y1) = Inr y2"
    "at_rest S z rto c rc una1 y2" "snd_side y2 = (s3, out3)" "una1 < length S + 2 \<longrightarrow> unacked_msgs s3 \<noteq> []"
    "continues S y1 y2"
  proof (cases "unacked_msgs s2 = []")
    case False
    then show thesis using that [of y1 s2 out] e by simp
  next
    case True
    note r = at_restD [OF e(2,4)]
    have st: "settled s2" using True r(3) e(5) by (simp add: settled_def)
    have nx: "una1 = next_seqno s2" by (rule settled_sender(1) [OF r(2,3) True])
    obtain y2 s3 out3 where q: "produce S y1 = Inr y2" "at_rest S z rto c rc una1 y2" "snd_side y2 = (s3, out3)"
      "continues S y1 y2" "settled s2 \<and> next_seqno s2 < length S + 2 \<longrightarrow> next_seqno s2 < next_seqno s3"
      by (rule produce_spec [OF z e(2,4)])
    note r3 = at_restD [OF q(2,3)]
    have "unacked_msgs s3 \<noteq> []" if "una1 < length S + 2"
      using settled_sender(1) [OF r3(2,3)] q(5) st nx that by auto
    then show thesis using that [of y2 s3 out3] q(1-4) True e(4) by simp
  qed
  obtain y3 s4 got4 rcv4 r4 inb4 where t: "retransmit y2 = Inr y3" "at_rest S z rto c rc una1 y3" "snd_side y3 = (s4, out3)"
    "unacked_msgs s4 = unacked_msgs s3" "next_seqno s4 = next_seqno s3" "rcv_side y3 = (got4, rcv4, r4, inb4)"
    "continues S y2 y3" "\<forall>m ms. unacked_msgs s3 = m # ms \<longrightarrow> una1 + seq_len m \<le> progress (got4, rcv4, r4, inb4)"
    by (rule retransmit_spec [OF z p(2,3)])
  obtain y s5 una' where g: "exchange_ack y3 = Inr y" "at_rest S z rto c rc una' y" "una1 \<le> una'" "snd_side y = (s5, out3)"
    "continues S y3 y" "\<forall>m ms. unacked_msgs s4 = m # ms \<longrightarrow> una1 + seq_len m \<le> progress (got4, rcv4, r4, inb4) \<longrightarrow> una1 < una'"
    by (rule exchange_ack_spec [OF z t(2,3,6)])
  have "una1 < una'" if "una1 < length S + 2"
    using that p(4) t(4,8) g(6) by (cases "unacked_msgs s3") auto
  then have "min (length S + 2) (Suc (acknowledged s)) \<le> una'" using inv(2) e(3) g(3) by linarith
  moreover have "loss_free_round S x = Inr y"
    unfolding loss_free_round_def e(1) andthen_Inr p(1) t(1) by (rule g(1))
  moreover have "continues S x y" using f(4) e(6) p(5) t(7) g(5) by (meson rtranclp_trans)
  ultimately show thesis using that g(2,4) by blast
qed

section \<open>What has been acknowledged stays acknowledged\<close>

lemma acknowledged_step:
  assumes z: "sized S rto c rc" and x: "connected S z rto c rc x" and st: "connection_step S x y"
  shows "acknowledged (fst (snd_side x)) \<le> acknowledged (fst (snd_side y))"
proof -
  note S = sizedD(1) [OF z]
  obtain s out where sd: "snd_side x = (s, out)" by (cases "snd_side x")
  obtain got rcv r inb where rd: "rcv_side x = (got, rcv, r, inb)" by (cases "rcv_side x")
  obtain una where inv: "sender_inv S z rto una (s, out)" by (rule connected_parts [OF z x sd rd])
  have a: "acknowledged s = una" by (rule acknowledged_inv(1) [OF inv S])
  have same: "acknowledged s \<le> acknowledged s'" if "sender_inv S z rto una' (s', out')" "una \<le> una'" for s' out' una'
    using acknowledged_inv(1) [OF that(1) S] that(2) a by simp
  from st show ?thesis
  proof cases
    case (push s1 out1 s' out')
    then have d: "unsent_msgs s = []" "\<not> has_not_sent_SYN s \<or> peek out = []" "push s out = Inr (s', out')" using sd by simp_all
    obtain s2 out2 where "push s out = Inr (s2, out2)" "sender_inv S z rto una (s2, out2)"
      by (rule push_spec [OF inv S d(2,1)])
    then show ?thesis using same [of una s' out'] d(3) push sd by simp
  next
    case (transmit s1 out1 m s')
    then show ?thesis using same maybe_send_spec(1) [OF inv S] sd by simp
  next
    case (timeout s1 out1 ms s')
    then have d: "unsent_msgs s = []" "tick s ms = Inr s'" using sd by simp_all
    obtain s2 where "tick s ms = Inr s2" "sender_inv S z rto una (s2, out)" using tick_spec [OF inv S d(1)] by metis
    then show ?thesis using same [of una s' out] d(2) timeout sd by simp
  next
    case (deliver_ack b s1 out1 s')
    then have d: "unsent_msgs s = []" "tcp_sender_receive s b = Inr s'" using sd by simp_all
    have "window_field b < 2 ^ 16"
      using connected_inv [OF x sizedD(1,2,4-6) [OF z]] deliver_ack(2) by (auto simp: connection_inv_def acks_ok_def)
    then obtain s2 una' where "tcp_sender_receive s b = Inr s2" "sender_inv S z rto una' (s2, out)" "una \<le> una'"
      using receive_spec [OF inv S d(1)] by metis
    then show ?thesis using same [of una' s' out] d(2) deliver_ack sd by simp
  qed (use sd in simp_all)
qed

section \<open>Completion\<close>

text \<open>When the FIN is acknowledged the whole stream has arrived.\<close>

lemma all_acknowledged:
  assumes z: "sized S rto c rc" and l: "live S z rto c rc x" and sd: "snd_side x = (s, out)"
    and rd: "rcv_side x = (got, rcv, r, inb)" and a: "length S + 2 \<le> acknowledged s"
  shows "got @ peek inb = S" "is_closed inb" "next_seqno s = length S + 2" "sequence_numbers_in_flight s = 0"
proof -
  obtain una where u: "sender_inv S z rto una (s, out)" "una \<le> progress (got, rcv, r, inb)"
    "receiving S z rc (got, rcv, r, inb)" "una = acknowledged s" by (rule live_parts [OF z l sd rd])
  note f = received_closed [OF u(3) sizedD(1,6) [OF z]] and b = inv_bounds [OF u(1) sizedD(1) [OF z]]
  show "next_seqno s = length S + 2" using b(1,3) u(4) a by linarith
  moreover have "in_flight s = 0" using b(1,3) u(4) a by (simp add: in_flight_def)
  ultimately show "sequence_numbers_in_flight s = 0" using acknowledged_inv(2) [OF u(1) sizedD(1) [OF z]] by simp
  have fin: "first_unassembled r = length S" "rcv_finished rcv"
    using u(2,4) a f(2) by (cases "rcv_finished rcv"; auto simp: progress_def split: if_splits)+
  then show "is_closed inb" using f(3) by (simp add: synchronized_def)
  show "got @ peek inb = S" using assembling_facts(5) [OF f(4) sizedD(8,6) [OF z]] fin(1) by simp
qed

lemma rounds_acknowledge_all:
  assumes z: "sized S rto c rc" and "live S z rto c rc x"
  shows "\<exists>y. continues S x y \<and> live S z rto c rc y \<and> length S + 2 \<le> acknowledged (fst (snd_side y))"
  using assms(2)
proof (induction "length S + 2 - acknowledged (fst (snd_side x))" arbitrary: x rule: less_induct)
  case less
  obtain s out where sd: "snd_side x = (s, out)" by (cases "snd_side x")
  show ?case
  proof (cases "length S + 2 \<le> acknowledged s")
    case True
    then show ?thesis using less.prems sd by (metis fst_conv rtranclp.rtrancl_refl)
  next
    case False
    obtain y s' out' una where y: "continues S x y" "at_rest S z rto c rc una y" "snd_side y = (s', out')"
      "min (length S + 2) (Suc (acknowledged s)) \<le> una" by (rule loss_free_round_spec [OF z less.prems sd])
    note r = at_restD [OF y(2,3)]
    have "acknowledged s < acknowledged s'" using y(4) False acknowledged_inv(1) [OF r(2) sizedD(1) [OF z]] by simp
    then have "length S + 2 - acknowledged (fst (snd_side y)) < length S + 2 - acknowledged (fst (snd_side x))"
      using False sd y(3) by simp
    then show ?thesis using less.hyps [OF _ r(1)] y(1) by (meson rtranclp_trans)
  qed
qed

text \<open>
  A connection never gets stuck: from every state of the connection in which the receiver has not
  taken a FIN for the end while bytes before it are missing, further steps complete the transfer.
\<close>

theorem transfer_can_complete:
  assumes "connected S z rto c rc x" and "length S + 2 < 2 ^ 31" and "rto < 2 ^ 64" and "0 < c" and "c < 2 ^ 64"
    and "1031 \<le> rc" and "rc < 2 ^ 62" and "rcv_side x = (got, rcv, r, inb)" and "end_safe S r inb"
  shows "\<exists>y rcv' r' inb' s' out'. continues S x y \<and> rcv_side y = (S, rcv', r', inb') \<and> is_finished inb'
    \<and> snd_side y = (s', out') \<and> next_seqno s' = length S + 2 \<and> sequence_numbers_in_flight s' = 0"
proof -
  have z: "sized S rto c rc" using assms by (simp add: sized_def)
  have "live S z rto c rc x" using assms(1,8,9) by (simp add: live_def)
  then obtain y where y: "continues S x y" "live S z rto c rc y" "length S + 2 \<le> acknowledged (fst (snd_side y))"
    using rounds_acknowledge_all [OF z] by blast
  obtain s' out' where sd: "snd_side y = (s', out')" by (cases "snd_side y")
  obtain got' rcv' r' inb' where rd: "rcv_side y = (got', rcv', r', inb')" by (cases "rcv_side y")
  have "length S + 2 \<le> acknowledged s'" using y(3) sd by simp
  note a = all_acknowledged [OF z y(2) sd rd this]
  have rc: "receiving S z rc (got', rcv', r', inb')" by (rule live_parts [OF z y(2) sd rd])
  note f = received_closed(1) [OF rc sizedD(1,6) [OF z]]
  let ?in = "reader_pop inb' (length (peek inb'))" and ?y = "read_everything y"
  have e: "?y = y\<lparr>rcv_side := (S, rcv', r', ?in)\<rparr>" using rd a(1) by (simp add: read_everything_def)
  note rd' = read_all [OF rd f]
  have "stream_inv ?in" using reader_pop_spec(1) [OF inv_stream(1) [OF f]] .
  moreover have "is_closed ?in" using a(2) by (simp add: is_closed_def reader_pop_def Let_def)
  ultimately have "is_finished ?in" using rd'(2) by (simp add: is_finished_peek)
  moreover have "continues S x ?y" using rtranclp_trans [OF y(1) rd'(1)] e a(1) by simp
  moreover have "rcv_side ?y = (S, rcv', r', ?in)" "snd_side ?y = (s', out')" using e sd by simp_all
  ultimately show ?thesis using a(3,4) by blast
qed

end
