(* ===== verification/TCP_Order.thy ===== *)
theory TCP_Order
  imports TCP_Rounds
begin

text \<open>
  When the receiver of \<open>src/src/tcp_receiver.cc\<close> takes a FIN for the end too early, and when it
  cannot: the order in which the network may deliver a FIN so that a connection can always complete,
  and how many rounds without loss complete it.
\<close>

section \<open>A FIN in its place\<close>

text \<open>The index at which the receiver inserts the payload of a segment.\<close>

definition insertion_index :: "reassembler \<Rightarrow> wrap32 \<Rightarrow> tcp_sender_message \<Rightarrow> nat" where
  "insertion_index r z m =
     sub64 (unwrap_abs (if SYN m then wrap32_plus (seqno m) 1 else seqno m) z (getFirstUnassembledIndex r)) 1"

text \<open>
  A FIN is in its place when the bytes of its segment fit in the window, and, in a segment without
  bytes, when every byte before it has been assembled.
\<close>

definition in_place :: "reassembler \<Rightarrow> byte_stream \<Rightarrow> wrap32 \<Rightarrow> tcp_sender_message \<Rightarrow> bool" where
  "in_place r inb z m \<longleftrightarrow> (FIN m \<longrightarrow>
     (if payload m = [] then insertion_index r z m \<le> first_unassembled r
      else insertion_index r z m + length (payload m) \<le> window_end r inb))"

text \<open>A step of the connection in which the network delivers a FIN in its place only.\<close>

inductive orderly_step :: "byte list \<Rightarrow> wrap32 \<Rightarrow> connection \<Rightarrow> connection \<Rightarrow> bool" for S z where
  other: "connection_step S x y \<Longrightarrow> rcv_side y = rcv_side x \<Longrightarrow> orderly_step S z x y"
| deliver: "\<lbrakk>m \<in> segments x; rcv_side x = (got, rcv, r, inb); in_place r inb z m;
     tcp_receiver_receive rcv m r inb = Inr (rcv', r', inb')\<rbrakk>
     \<Longrightarrow> orderly_step S z x (x\<lparr>rcv_side := (got, rcv', r', inb')\<rparr>)"
| app_read: "rcv_side x = (got, rcv, r, inb)
     \<Longrightarrow> orderly_step S z x (x\<lparr>rcv_side := (got @ take n (peek inb), rcv, r, reader_pop inb n)\<rparr>)"

inductive orderly :: "byte list \<Rightarrow> wrap32 \<Rightarrow> nat \<Rightarrow> nat \<Rightarrow> nat \<Rightarrow> connection \<Rightarrow> bool" for S z rto c rc where
  start: "orderly S z rto c rc (initial_connection z rto c rc)"
| step: "orderly S z rto c rc x \<Longrightarrow> orderly_step S z x y \<Longrightarrow> orderly S z rto c rc y"

lemma orderly_step_connection: "orderly_step S z x y \<Longrightarrow> connection_step S x y"
  by (induction rule: orderly_step.induct) (auto intro: connection_step.intros)

lemma orderly_connected: "orderly S z rto c rc x \<Longrightarrow> connected S z rto c rc x"
  by (induction rule: orderly.induct) (blast intro: connected.start step_connected orderly_step_connection)+

lemma insertion_index_sent:
  assumes z: "sized S rto c rc" and "sent_at S z k m" and "first_unassembled r \<le> length S"
  shows "insertion_index r z m = k - 1"
proof -
  have seg: "segment_at S z (k - 1) m" using assms(2) by (simp add: sent_at_def)
  then have "k - 1 \<le> length S" by (simp add: segment_at_def piece_of_def)
  from receive_index [OF this assms(3) sizedD(7) [OF z]] show ?thesis
    unfolding insertion_index_def segment_atD(4) [OF seg] by (simp add: getFirstUnassembledIndex_def)
qed

lemma in_place_safe:
  assumes z: "sized S rto c rc" and a: "receiving S z rc (got, rcv, r, inb)" and k: "sent_at S z k m"
    and p: "in_place r inb z m" and e: "end_safe S r inb"
    and d: "tcp_receiver_receive rcv m r inb = Inr (rcv', r', inb')"
  shows "end_safe S r' inb'"
proof (cases "SYN m \<or> initial_seq_num rcv \<noteq> None")
  case True
  obtain rcv1 r1 inb1 where 1: "tcp_receiver_receive rcv m r inb = Inr (rcv1, r1, inb1)"
    "assembly_inv S rc (got, r, inb)" "piece_of S (k - 1) (payload m)" "FIN m \<Longrightarrow> k - 1 + length (payload m) = length S"
    "insert_meets_spec r inb (k - 1) (payload m) (FIN m) r1 inb1"
    using deliver_facts [OF z a k True] by metis
  note as = assembly_insert [OF 1(2,3,5)]
  have le: "first_unassembled r \<le> length S" "first_unassembled r1 \<le> length S"
    using 1(2) as(1) by (simp_all add: assembly_inv_def)
  have "first_unassembled r1 = length S \<or> S \<noteq> [] \<and> length S - 1 \<in> dom (held r1)" if F: "FIN m"
  proof (cases "payload m = []")
    case True
    then have "length S \<le> first_unassembled r"
      using p F 1(4) by (simp add: in_place_def insertion_index_sent [OF z k le(1)])
    then show ?thesis using as(2) le by simp
  next
    case False
    then have "k - 1 + length (payload m) \<le> window_end r inb"
      using p F by (simp add: in_place_def insertion_index_sent [OF z k le(1)])
    moreover have "k - 1 < length S"
      using 1(4) [OF F] False by (metis less_add_same_cancel1 length_greater_0_conv)
    ultimately have "length S - 1 \<in> known (first_unassembled r1) (held r1)" "S \<noteq> []"
      using 1(4) [OF F] unfolding as(3) by auto
    then show ?thesis using le(2) by (auto simp: known_def)
  qed
  then have "end_safe S r1 inb1" by (rule end_safe_insert [OF 1(2,3,5) e])
  then show ?thesis using 1(1) d by simp
next
  case False
  then show ?thesis using e d by (simp add: receive_unsynchronized)
qed

lemma initial_live: "live S z rto c rc (initial_connection z rto c rc)"
  unfolding live_def using connected.start
  by (simp add: initial_connection_def end_safe_def) (simp add: Reassembler_def ByteStream_def is_closed_def)

lemma orderly_step_live:
  assumes z: "sized S rto c rc" and l: "live S z rto c rc x" and st: "orderly_step S z x y"
  shows "live S z rto c rc y"
proof -
  have x: "connected S z rto c rc x" using l by (simp add: live_def)
  have y: "connected S z rto c rc y" by (rule step_connected [OF orderly_step_connection [OF st] x])
  from st have "case rcv_side y of (got, rcv, r, inb) \<Rightarrow> end_safe S r inb"
  proof cases
    case other
    then show ?thesis using l by (simp add: live_def)
  next
    case (deliver m got rcv r inb rcv' r' inb')
    note c = connected_inv [OF x sizedD(1,2,4-6) [OF z], unfolded connection_inv_def]
    obtain k where "sent_at S z k m" using c deliver(2) by blast
    moreover have "receiving S z rc (got, rcv, r, inb)" using c deliver(3) by simp
    ultimately show ?thesis
      using in_place_safe [OF z _ _ deliver(4) liveD(2) [OF l deliver(3)] deliver(5)] deliver(1) by simp
  next
    case (app_read got rcv r inb n)
    then show ?thesis using liveD(2) [OF l app_read(2)] by (simp add: end_safe_read)
  qed
  then show ?thesis using y by (simp add: live_def)
qed

lemma orderly_live: "orderly S z rto c rc x \<Longrightarrow> sized S rto c rc \<Longrightarrow> live S z rto c rc x"
  by (induction rule: orderly.induct) (blast intro: initial_live orderly_step_live)+

text \<open>
  From every state that a network which loses, repeats and reorders has led to, where every FIN has
  been delivered in its place, further steps complete the transfer.
\<close>

theorem orderly_transfer_can_complete:
  assumes "orderly S z rto c rc x" and "length S + 2 < 2 ^ 31" and "rto < 2 ^ 64" and "0 < c" and "c < 2 ^ 64"
    and "1031 \<le> rc" and "rc < 2 ^ 62"
  shows "\<exists>y rcv r inb s out. continues S x y \<and> rcv_side y = (S, rcv, r, inb) \<and> is_finished inb
    \<and> snd_side y = (s, out) \<and> next_seqno s = length S + 2 \<and> sequence_numbers_in_flight s = 0"
proof -
  have z: "sized S rto c rc" using assms by (simp add: sized_def)
  obtain got rcv r inb where rd: "rcv_side x = (got, rcv, r, inb)" by (cases "rcv_side x")
  have "end_safe S r inb" by (rule liveD(2) [OF orderly_live [OF assms(1) z] rd])
  from transfer_can_complete [OF orderly_connected [OF assms(1)] assms(2-7) rd this] show ?thesis .
qed

section \<open>Rounds without loss among arbitrary steps\<close>

text \<open>
  \<open>rounds S z rto c rc n x\<close>: the connection has come to \<open>x\<close> by any orderly steps, among them \<open>n\<close>
  rounds in which the network loses nothing.
\<close>

inductive rounds :: "byte list \<Rightarrow> wrap32 \<Rightarrow> nat \<Rightarrow> nat \<Rightarrow> nat \<Rightarrow> nat \<Rightarrow> connection \<Rightarrow> bool" for S z rto c rc where
  start: "rounds S z rto c rc 0 (initial_connection z rto c rc)"
| step: "rounds S z rto c rc n x \<Longrightarrow> orderly_step S z x y \<Longrightarrow> rounds S z rto c rc n y"
| round: "rounds S z rto c rc n x \<Longrightarrow> loss_free_round S x = Inr y \<Longrightarrow> rounds S z rto c rc (Suc n) y"

lemma rounds_progress:
  assumes "rounds S z rto c rc n x" and z: "sized S rto c rc"
  shows "live S z rto c rc x \<and> min (length S + 2) n \<le> acknowledged (fst (snd_side x))"
  using assms(1)
proof induction
  case start
  then show ?case by (simp add: initial_live)
next
  case (step n x y)
  have "connected S z rto c rc x" using step.IH by (simp add: live_def)
  then show ?case
    using step orderly_step_live [OF z] acknowledged_step [OF z _ orderly_step_connection] le_trans by blast
next
  case (round n x y)
  obtain s out where sd: "snd_side x = (s, out)" by (cases "snd_side x")
  obtain y' s' out' una where y: "loss_free_round S x = Inr y'" "at_rest S z rto c rc una y'" "snd_side y' = (s', out')"
    "min (length S + 2) (Suc (acknowledged s)) \<le> una"
    by (rule loss_free_round_spec [OF z conjunct1 [OF round.IH] sd])
  note r = at_restD [OF y(2,3)]
  have eq: "y' = y" using y(1) round.hyps(2) by simp
  have "min (length S + 2) (Suc n) \<le> acknowledged s'"
    using y(4) round.IH sd acknowledged_inv(1) [OF r(2) sizedD(1) [OF z]] by (simp add: min_def split: if_splits)
  then show ?case using r(1) y(3) eq by simp
qed

text \<open>
  \<open>C5\<close>: every transfer completes. Whatever the network loses, repeats and reorders in between, as
  long as it delivers a FIN in its place only, a round in which it loses nothing can always take
  place, and once there have been as many such rounds as the stream has bytes, and two, the
  receiving application has or can read exactly what was to be sent and the end of the stream,
  and the sender has nothing in flight, its FIN acknowledged.
\<close>

theorem transfer_completes:
  assumes "rounds S z rto c rc n x" and "length S + 2 < 2 ^ 31" and "rto < 2 ^ 64" and "0 < c" and "c < 2 ^ 64"
    and "1031 \<le> rc" and "rc < 2 ^ 62" and "rcv_side x = (got, rcv, r, inb)" and "snd_side x = (s, out)"
  shows "(\<exists>y. loss_free_round S x = Inr y) \<and> (length S + 2 \<le> n \<longrightarrow>
    got @ peek inb = S \<and> is_closed inb \<and> next_seqno s = length S + 2 \<and> sequence_numbers_in_flight s = 0)"
proof -
  have z: "sized S rto c rc" using assms by (simp add: sized_def)
  note p = rounds_progress [OF assms(1) z]
  have "\<exists>y. loss_free_round S x = Inr y"
    by (rule loss_free_round_spec [OF z conjunct1 [OF p] assms(9)]) blast
  moreover have "length S + 2 \<le> acknowledged s" if "length S + 2 \<le> n" using p that assms(9) by simp
  ultimately show ?thesis using all_acknowledged [OF z conjunct1 [OF p] assms(9,8)] by blast
qed

lemma rounds_exist:
  assumes z: "sized S rto c rc"
  shows "\<exists>x. rounds S z rto c rc n x"
proof (induction n)
  case 0
  then show ?case using rounds.start by blast
next
  case (Suc n)
  then obtain x where x: "rounds S z rto c rc n x" by blast
  have l: "live S z rto c rc x" using rounds_progress [OF x z] by blast
  obtain s out where sd: "snd_side x = (s, out)" by (cases "snd_side x")
  obtain y where "loss_free_round S x = Inr y" by (rule loss_free_round_spec [OF z l sd])
  then show ?case using rounds.round [OF x] by blast
qed

theorem transfer_completes_witness:
  "\<exists>x got rcv r inb s out. rcv_side x = (got, rcv, r, inb) \<and> snd_side x = (s, out) \<and> got @ peek inb = [65 :: byte]
     \<and> is_closed inb \<and> sequence_numbers_in_flight s = 0 \<and> (\<exists>y. loss_free_round [65] x = Inr y)"
proof -
  have z: "sized [65] 1000 8 1031" by (simp add: sized_def)
  obtain x where x: "rounds [65] (Wrap32 7) 1000 8 1031 3 x" using rounds_exist [OF z] by blast
  obtain got rcv r inb where rd: "rcv_side x = (got, rcv, r, inb)" by (cases "rcv_side x")
  obtain s out where sd: "snd_side x = (s, out)" by (cases "snd_side x")
  have "length [65 :: byte] + 2 \<le> 3" by simp
  with transfer_completes [OF x sizedD(1-6) [OF z] rd sd] rd sd show ?thesis by blast
qed

section \<open>What the sender forgets\<close>

lemma chain_covers:
  "chain S z a ms b \<Longrightarrow> a \<le> j \<Longrightarrow> j < b \<Longrightarrow> \<exists>m \<in> set ms. \<exists>k. sent_at S z k m \<and> k \<le> j \<and> j < k + seq_len m"
proof (induction ms arbitrary: a)
  case (Cons m ms)
  show ?case
  proof (cases "j < a + seq_len m")
    case True
    then show ?thesis using Cons.prems by auto
  next
    case False
    then show ?thesis using Cons.IH [of "a + seq_len m"] Cons.prems by auto
  qed
qed simp

lemma sent_byte:
  assumes "sent_at S z k m" and "k \<le> Suc i" and "Suc i < k + seq_len m" and "i < length S"
  shows "segment_at S z (k - 1) m \<and> i \<in> {k - 1..<k - 1 + length (payload m)}"
proof -
  have seg: "segment_at S z (k - 1) m" "SYN m = (k = 0)" "SYN m \<longrightarrow> payload m = []"
    using assms(1) by (simp_all add: sent_at_def)
  have fin: "FIN m \<Longrightarrow> k - 1 + length (payload m) = length S" using segment_atD [OF seg(1)] by blast
  show ?thesis using seg fin assms(2-4) by (cases "FIN m"; cases "SYN m") (auto simp: seq_len_def)
qed

text \<open>
  \<open>C4\<close>: end-to-end reliability, as long as the network delivers a FIN in its place only. A byte of the
  stream that the sender has put in a segment and no longer keeps in one, neither among the
  unacknowledged segments nor among those that wait to be sent, has been delivered: it is at its
  place in what the receiving application has read or can read. (A FIN out of its place makes the
  sender forget bytes that never arrive: theory \<open>TCP_Early_FIN\<close>.)
\<close>

theorem forgotten_bytes_are_delivered:
  assumes "rounds S z rto c rc n x" and "length S + 2 < 2 ^ 31" and "rto < 2 ^ 64" and "0 < c" and "c < 2 ^ 64"
    and "1031 \<le> rc" and "rc < 2 ^ 62" and "rcv_side x = (got, rcv, r, inb)" and "snd_side x = (s, out)"
    and "i < length S" and "Suc i < next_seqno s"
    and "\<forall>m \<in> set (unacked_msgs s) \<union> msg ` set (unsent_msgs s). \<forall>f. segment_at S z f m
           \<longrightarrow> i \<notin> {f..<f + length (payload m)}"
  shows "i < length (got @ peek inb) \<and> (got @ peek inb) ! i = S ! i"
proof -
  have z: "sized S rto c rc" using assms by (simp add: sized_def)
  have l: "live S z rto c rc x" using rounds_progress [OF assms(1) z] by blast
  then have x: "connected S z rto c rc x" by (simp add: live_def)
  obtain una where una: "una \<le> progress (got, rcv, r, inb)" "sender_inv S z rto una (s, out)"
    and rc: "receiving S z rc (got, rcv, r, inb)"
    using connected_inv [OF x assms(2,3,5-7)] assms(8,9) by (auto simp: connection_inv_def)
  have "Suc i < una"
  proof (rule ccontr)
    assume "\<not> Suc i < una"
    then have "una \<le> Suc i" by simp
    moreover have "chain S z una (retransmitting s @ unacked_msgs s @ fresh s) (next_seqno s)"
      using sender_invD(1,5) [OF una(2)] by (simp add: queues_ok_def)
    ultimately obtain m k where m: "m \<in> set (retransmitting s @ unacked_msgs s @ fresh s)"
      "sent_at S z k m" "k \<le> Suc i" "Suc i < k + seq_len m" using chain_covers assms(11) by blast
    then have "m \<in> set (unacked_msgs s) \<union> msg ` set (unsent_msgs s)" by (auto simp: retransmitting_def fresh_def)
    then show False using assms(12) sent_byte [OF m(2-4) assms(10)] by blast
  qed
  note f = received_closed [OF rc assms(2,7)]
  have "length S < 2 ^ 62" using assms(2) by simp
  from assembling_facts(2,5) [OF f(4) this assms(7)]
  have d: "got @ peek inb = take (first_unassembled r) S" "first_unassembled r \<le> length S" by simp_all
  have "first_unassembled r = length S" if "rcv_finished rcv"
    using that f(3) liveD(2) [OF l assms(8)] by (simp add: synchronized_def end_safe_def)
  then have "i < first_unassembled r"
    using \<open>Suc i < una\<close> una(1) assms(10) by (cases "rcv_finished rcv") (simp_all add: progress_def split: if_splits)
  then show ?thesis using d by simp
qed

lemma nothing_kept:
  assumes "sender_inv S z rto una (s, out)" and "length S + 2 < 2 ^ 31" and "sequence_numbers_in_flight s = 0"
  shows "unacked_msgs s = []" "unsent_msgs s = []"
proof -
  note b = inv_bounds [OF assms(1,2)] and i = sender_invD [OF assms(1)]
  have 0: "unacked_seqnos s = 0" "unsent_seqnos s = 0"
    using assms(3) b(4) by (simp_all add: sequence_numbers_in_flight_def wadd_nowrap)
  have pos: "0 < seq_len m" if m: "m \<in> set (unacked_msgs s) \<union> msg ` set (unsent_msgs s)" for m
  proof -
    have "m \<in> set (retransmitting s @ unacked_msgs s @ fresh s)" using m by (auto simp: retransmitting_def fresh_def)
    then show ?thesis using i(5) chain_member by (fastforce simp: queues_ok_def sent_at_def)
  qed
  have "seq_lens (unacked_msgs s) = 0" "seq_lens (map msg (unsent_msgs s)) = 0"
    using i(5) 0 by (simp_all add: queues_ok_def)
  then show "unacked_msgs s = []" "unsent_msgs s = []"
    using pos by (cases "unacked_msgs s"; force) (use \<open>seq_lens (map msg (unsent_msgs s)) = 0\<close> pos in \<open>cases "unsent_msgs s"; force\<close>)
qed

theorem forgotten_bytes_are_delivered_witness:
  "\<exists>(x :: connection) got rcv r inb s out. rcv_side x = (got, rcv, r, inb) \<and> snd_side x = (s, out) \<and> Suc 0 < next_seqno s
     \<and> unacked_msgs s = [] \<and> unsent_msgs s = [] \<and> 0 < length (got @ peek inb) \<and> (got @ peek inb) ! 0 = (65 :: byte)"
proof -
  let ?S = "[65 :: byte]"
  have z: "sized ?S 1000 8 1031" by (simp add: sized_def)
  obtain x where x: "rounds ?S (Wrap32 7) 1000 8 1031 3 x" using rounds_exist [OF z] by blast
  obtain got rcv r inb where rd: "rcv_side x = (got, rcv, r, inb)" by (cases "rcv_side x")
  obtain s out where sd: "snd_side x = (s, out)" by (cases "snd_side x")
  note p = rounds_progress [OF x z]
  have n: "next_seqno s = 3" "sequence_numbers_in_flight s = 0"
    using all_acknowledged [OF z conjunct1 [OF p] sd rd] p sd by simp_all
  have c: "connected ?S (Wrap32 7) 1000 8 1031 x" using p by (simp add: live_def)
  obtain una where inv: "sender_inv ?S (Wrap32 7) 1000 una (s, out)" by (rule connected_parts [OF z c sd rd])
  note k = nothing_kept [OF inv sizedD(1) [OF z] n(2)]
  have "0 < length ?S" "Suc 0 < next_seqno s" "\<forall>m \<in> set (unacked_msgs s) \<union> msg ` set (unsent_msgs s).
      \<forall>f. segment_at ?S (Wrap32 7) f m \<longrightarrow> 0 \<notin> {f..<f + length (payload m)}" using n k by simp_all
  from forgotten_bytes_are_delivered [OF x sizedD(1-6) [OF z] rd sd this] have
    "0 < length (got @ peek inb) \<and> (got @ peek inb) ! 0 = 65" by simp
  moreover have "Suc 0 < next_seqno s" using n(1) by simp
  ultimately show ?thesis using rd sd k by blast
qed

section \<open>The default configuration\<close>

text \<open>The capacities and the timeout of \<open>TCPConfig\<close> are within the bounds.\<close>

corollary default_transfer_completes:
  assumes "rounds S z (unat (rt_timeout TCPConfig)) (send_capacity TCPConfig) (recv_capacity TCPConfig) n x"
    and "length S + 2 < 2 ^ 31" and "length S + 2 \<le> n" and "rcv_side x = (got, rcv, r, inb)" and "snd_side x = (s, out)"
  shows "got @ peek inb = S \<and> is_closed inb \<and> sequence_numbers_in_flight s = 0"
proof -
  have "unat (rt_timeout TCPConfig) < 2 ^ 64" "0 < send_capacity TCPConfig" "send_capacity TCPConfig < 2 ^ 64"
    "1031 \<le> recv_capacity TCPConfig" "recv_capacity TCPConfig < 2 ^ 62"
    by (simp_all add: TCPConfig_def DEFAULT_CAPACITY_def TIMEOUT_DFLT_def)
  then have z: "sized S (unat (rt_timeout TCPConfig)) (send_capacity TCPConfig) (recv_capacity TCPConfig)"
    using assms(2) by (simp add: sized_def)
  note p = rounds_progress [OF assms(1) z]
  then have "length S + 2 \<le> acknowledged s" using assms(3,5) by simp
  from all_acknowledged [OF z conjunct1 [OF p] assms(5,4) this] show ?thesis by blast
qed

section \<open>A concrete connection\<close>

lemma example_steps:
  obtains y where "connection_step [65] (initial_connection (Wrap32 7) 1000 8 1031) y" "connection_step [65] y example_connection"
    "rcv_side y = rcv_side (initial_connection (Wrap32 7) 1000 8 1031)" "rcv_side example_connection = rcv_side y"
    "window_size (fst (snd_side y)) = window_size (fst (snd_side (initial_connection (Wrap32 7) 1000 8 1031)))"
    "window_size (fst (snd_side example_connection)) = window_size (fst (snd_side y))"
proof -
  let ?x = "initial_connection (Wrap32 7) 1000 8 1031"
  let ?y = "?x\<lparr>snd_side := (example_sender 1 [example_syn] 1 True, ByteStream 8),
    segments := segments ?x \<union> set_option (Some example_syn)\<rparr>"
  have 1: "connection_step [65] ?x ?y"
    by (rule connection_step.transmit [OF _ example_first_send]) (simp add: initial_connection_def)
  have "connection_step [65] ?y (?y\<lparr>acks := insert (tcp_receiver_send TCPReceiver (ByteStream 1031)) (acks ?y)\<rparr>)"
    by (rule connection_step.acknowledge) (simp add: initial_connection_def)
  then have 2: "connection_step [65] ?y example_connection" by (simp add: initial_connection_def example_connection_def)
  show thesis
    by (rule that [OF 1 2]) (simp_all add: initial_connection_def example_connection_def example_sender_def TCPSender_def)
qed

lemma orderly_example: "orderly [65] (Wrap32 7) 1000 8 1031 example_connection"
  by (rule example_steps) (meson orderly.start orderly.step orderly_step.other)

theorem orderly_transfer_can_complete_witness:
  "\<exists>y rcv r inb. continues [65] example_connection y \<and> rcv_side y = ([65], rcv, r, inb) \<and> is_finished inb"
  using orderly_transfer_can_complete [OF orderly_example] by fastforce

end
