(* ===== verification/TCP_Flow.thy ===== *)
theory TCP_Flow
  imports TCP_Order
begin

text \<open>
  Flow control between the sender of \<open>src/src/tcp_sender.cc\<close> and the receiver of
  \<open>src/src/tcp_receiver.cc\<close>: when the sender stays within the window of the receiver, so that none
  of its bytes is discarded, and the acknowledgments that make it send more.
\<close>

section \<open>Flow control\<close>

text \<open>An acknowledgment is current when it acknowledges all that earlier ones have.\<close>

definition current_ack :: "tcp_sender \<Rightarrow> tcp_receiver_message \<Rightarrow> bool" where
  "current_ack s a \<longleftrightarrow> (case ackno a of None \<Rightarrow> acknowledged s = 0
     | Some b \<Rightarrow> acknowledged s \<le> unwrap_abs b (isn s) (next_seqno s))"

text \<open>
  The connection when no acknowledgment that has been overtaken by a later one reaches the sender,
  none closes its window (the sender answers a closed window with a byte beyond it, on purpose),
  and a segment that carries only a FIN is not delivered before the bytes it follows.
\<close>

definition bare_FIN_in_order :: "reassembler \<Rightarrow> wrap32 \<Rightarrow> tcp_sender_message \<Rightarrow> bool" where
  "bare_FIN_in_order r z m \<longleftrightarrow> (FIN m \<and> payload m = [] \<longrightarrow> insertion_index r z m \<le> first_unassembled r)"

inductive regular :: "byte list \<Rightarrow> wrap32 \<Rightarrow> nat \<Rightarrow> nat \<Rightarrow> nat \<Rightarrow> connection \<Rightarrow> bool" for S z rto c rc where
  start: "regular S z rto c rc (initial_connection z rto c rc)"
| other: "\<lbrakk>regular S z rto c rc x; connection_step S x y; rcv_side y = rcv_side x;
     window_size (fst (snd_side y)) = window_size (fst (snd_side x))\<rbrakk> \<Longrightarrow> regular S z rto c rc y"
| deliver: "\<lbrakk>regular S z rto c rc x; m \<in> segments x; rcv_side x = (got, rcv, r, inb); bare_FIN_in_order r z m;
     tcp_receiver_receive rcv m r inb = Inr (rcv', r', inb')\<rbrakk>
     \<Longrightarrow> regular S z rto c rc (x\<lparr>rcv_side := (got, rcv', r', inb')\<rparr>)"
| deliver_ack: "\<lbrakk>regular S z rto c rc x; a \<in> acks x; snd_side x = (s, out); unsent_msgs s = [];
     current_ack s a; 0 < window_field a; tcp_sender_receive s a = Inr s'\<rbrakk>
     \<Longrightarrow> regular S z rto c rc (x\<lparr>snd_side := (s', out)\<rparr>)"
| app_read: "\<lbrakk>regular S z rto c rc x; rcv_side x = (got, rcv, r, inb)\<rbrakk>
     \<Longrightarrow> regular S z rto c rc (x\<lparr>rcv_side := (got @ take n (peek inb), rcv, r, reader_pop inb n)\<rparr>)"

lemma regular_connected: "regular S z rto c rc x \<Longrightarrow> connected S z rto c rc x"
  by (induction rule: regular.induct) (blast intro: connected.intros step_connected)+

text \<open>The sequence number after the last one for which the receiver has room.\<close>

definition right_edge :: "reception \<Rightarrow> nat" where
  "right_edge y = (case y of (got, rcv, r, inb) \<Rightarrow> Suc (window_end r inb) + of_bool (rcv_finished rcv))"

definition acks_fit :: "wrap32 \<Rightarrow> nat \<Rightarrow> nat \<Rightarrow> tcp_receiver_message set \<Rightarrow> bool" where
  "acks_fit z p e A \<longleftrightarrow> (\<forall>a \<in> A. window_field a < 2 ^ 16
     \<and> (\<exists>k \<le> p. (\<forall>b. ackno a = Some b \<longrightarrow> b = wrap_abs k z) \<and> k + window_field a \<le> e))"

definition sender_fits :: "byte list \<Rightarrow> nat \<Rightarrow> tcp_sender \<Rightarrow> bool" where
  "sender_fits S e s \<longleftrightarrow> 0 < window_size s \<and> acknowledged s + window_size s \<le> e
     \<and> (S \<noteq> [] \<longrightarrow> next_seqno s \<le> e)"

definition flow_ok :: "byte list \<Rightarrow> wrap32 \<Rightarrow> connection \<Rightarrow> bool" where
  "flow_ok S z x \<longleftrightarrow> sender_fits S (right_edge (rcv_side x)) (fst (snd_side x))
     \<and> acks_fit z (progress (rcv_side x)) (right_edge (rcv_side x)) (acks x)"

lemma sender_fits_mono: "sender_fits S e s \<Longrightarrow> e \<le> e' \<Longrightarrow> sender_fits S e' s"
  by (auto simp: sender_fits_def)

lemma acks_fit_mono: "acks_fit z p e A \<Longrightarrow> p \<le> p' \<Longrightarrow> e \<le> e' \<Longrightarrow> acks_fit z p' e' A"
  unfolding acks_fit_def by (meson le_trans)

subsection \<open>The sender stays within the window\<close>

lemma push_fits:
  assumes inv: "sender_inv S z rto una (s, out)" and S: "length S + 2 < 2 ^ 31"
    and p: "\<not> has_not_sent_SYN s \<or> peek out = []" "unsent_msgs s = []" "push s out = Inr (s', out')"
    and f: "sender_fits S e s"
  shows "sender_fits S e s'"
proof -
  obtain s1 out1 where 1: "push s out = Inr (s1, out1)" "sender_inv S z rto una (s1, out1)"
    "in_flight s1 \<le> max (in_flight s + room s) (window_size s)" "window_size s1 = window_size s"
    by (rule push_spec [OF inv S p(1,2)])
  have "in_flight s + room s \<le> max (in_flight s) (window_size s)"
    using f by (simp add: room_def sender_fits_def)
  then have "in_flight s1 \<le> in_flight s \<or> in_flight s1 \<le> window_size s" using 1(3) by linarith
  then show ?thesis
    using 1(1,4) p(3) f acknowledged_inv [OF inv S] acknowledged_inv [OF 1(2) S] by (auto simp: sender_fits_def)
qed

lemma maybe_send_fits:
  assumes inv: "sender_inv S z rto una (s, out)" and S: "length S + 2 < 2 ^ 31"
    and m: "maybe_send s = (x, s')" and f: "sender_fits S e s"
  shows "sender_fits S e s'"
proof (cases "unsent_msgs s")
  case (Cons w ws)
  obtain s1 where 1: "maybe_send s = (Some (msg w), s1)" "sender_inv S z rto una (s1, out)"
    "next_seqno s1 = next_seqno s" "window_size s1 = window_size s"
    using maybe_send_queued [OF inv S Cons] by metis
  then show ?thesis
    using m f acknowledged_inv [OF inv S] acknowledged_inv [OF 1(2) S] by (simp add: sender_fits_def)
next
  case Nil
  show ?thesis
  proof (cases "window_open s \<and> (has_not_sent_SYN s \<or> (has_not_sent_FIN s \<and> stream_is_finished s))")
    case True
    then obtain mm s1 where 1: "maybe_send s = (Some mm, s1)" "sender_inv S z rto una (s1, out)"
      "sent_at S z (next_seqno s) mm" "window_size s1 = window_size s"
      "unacked_seqnos s1 + unsent_seqnos s1 = unacked_seqnos s + unsent_seqnos s + seq_len mm"
      "payload mm = []" "SYN mm = has_not_sent_SYN s" "FIN mm = (has_not_sent_FIN s \<and> stream_is_finished s)"
      using maybe_send_flags [OF inv S Nil] by metis
    have "0 < room s" using True window_open_room(1) [OF inv S] by simp
    then have "in_flight s < window_size s" using f by (simp add: room_def sender_fits_def)
    moreover have "seq_len mm \<le> 1" if "S \<noteq> []"
    proof -
      have "\<not> (has_not_sent_SYN s \<and> stream_is_finished s)"
        using that sender_invD(3,4) [OF inv] by (auto simp: flags_ok_def outbound_ok_def)
      then show ?thesis using 1(6-8) by (auto simp: seq_len_def)
    qed
    moreover have "in_flight s1 = in_flight s + seq_len mm" using 1(5) by (simp add: in_flight_def)
    ultimately have "in_flight s1 \<le> window_size s" if "S \<noteq> []" using that by linarith
    then show ?thesis
      using 1(1,4) m f acknowledged_inv [OF inv S] acknowledged_inv [OF 1(2) S] by (auto simp: sender_fits_def)
  next
    case False
    then show ?thesis using maybe_send_nothing [OF Nil] m f by auto
  qed
qed

lemma tick_fits:
  assumes inv: "sender_inv S z rto una (s, out)" and S: "length S + 2 < 2 ^ 31"
    and d: "unsent_msgs s = []" and t: "tick s ms = Inr s'" and f: "sender_fits S e s"
  shows "sender_fits S e s'"
proof -
  obtain s1 where 1: "tick s ms = Inr s1" "sender_inv S z rto una (s1, out)" "window_size s1 = window_size s"
    "next_seqno s1 = next_seqno s" using tick_spec [OF inv S d] by metis
  then show ?thesis
    using t f acknowledged_inv [OF inv S] acknowledged_inv [OF 1(2) S] by (simp add: sender_fits_def)
qed

text \<open>An acknowledgment that is current moves the window to what the receiver has promised.\<close>

lemma receive_fits:
  assumes inv: "sender_inv S z rto una (s, out)" and S: "length S + 2 < 2 ^ 31"
    and d: "unsent_msgs s = []" and r: "tcp_sender_receive s a = Inr s'" and f: "sender_fits S e s"
    and a: "acks_fit z p e A" "a \<in> A" "p \<le> next_seqno s"
    and ok: "current_ack s a \<and> 0 < window_field a \<or> window_size s' = window_size s"
  shows "sender_fits S e s'"
proof -
  obtain k where k: "window_field a < 2 ^ 16" "k \<le> p" "\<And>b. ackno a = Some b \<Longrightarrow> b = wrap_abs k z" "k + window_field a \<le> e"
    using a(1,2) unfolding acks_fit_def by blast
  obtain s1 una' where 1: "tcp_sender_receive s a = Inr s1" "sender_inv S z rto una' (s1, out)"
    "window_size s1 = window_field a" "next_seqno s1 = next_seqno s"
    "una' = una \<or> (\<exists>b. ackno a = Some b \<and> una' \<le> unwrap_abs b z (next_seqno s)
        \<and> unwrap_abs b z (next_seqno s) \<le> next_seqno s)"
    by (rule receive_spec [OF inv S d k(1)])
  have u: "unwrap_abs (wrap_abs k z) z (next_seqno s) = k"
    using k(2) a(3) inv_bounds(2) [OF inv S] by (intro unwrap_wrap_abs) simp_all
  have "una' \<le> k \<or> una' = una" using 1(5) k(3) u by auto
  moreover have "una \<le> k" if "current_ack s a"
    using that k(3) u acknowledged_inv(1) [OF inv S] sender_invD(1) [OF inv]
    by (auto simp: current_ack_def split: option.splits)
  ultimately have "una' + window_field a \<le> e"
    using ok k(4) f 1(1,3) r acknowledged_inv(1) [OF inv S] by (auto simp: sender_fits_def)
  moreover have "0 < window_field a" using ok f 1(1,3) r by (auto simp: sender_fits_def)
  ultimately show ?thesis
    using 1(1,3,4) r f acknowledged_inv(1) [OF 1(2) S] by (simp add: sender_fits_def)
qed

subsection \<open>The receiver keeps its promises\<close>

lemma deliver_edge:
  assumes z: "sized S rto c rc" and a: "receiving S z rc (got, rcv, r, inb)" and k: "sent_at S z k m"
    and d: "tcp_receiver_receive rcv m r inb = Inr (rcv', r', inb')"
  shows "right_edge (got, rcv, r, inb) \<le> right_edge (got, rcv', r', inb')"
proof (cases "SYN m \<or> initial_seq_num rcv \<noteq> None")
  case True
  obtain rcv1 r1 inb1 where "tcp_receiver_receive rcv m r inb = Inr (rcv1, r1, inb1)"
    "rcv_finished rcv1 = (rcv_finished rcv \<or> ((meet_FIN rcv \<or> FIN m) \<and> is_closed inb1))"
    "insert_meets_spec r inb (k - 1) (payload m) (FIN m) r1 inb1"
    using deliver_facts [OF z a k True] by metis
  then show ?thesis using d by (simp add: right_edge_def insert_meets_spec_def)
next
  case False
  then show ?thesis using d by (simp add: receive_unsynchronized)
qed

lemma read_edge:
  assumes "stream_inv inb"
  shows "right_edge (got, rcv, r, inb) \<le> right_edge (got', rcv, r, reader_pop inb n)"
proof -
  note p = reader_pop_spec [OF assms, of n]
  have "available_capacity inb \<le> available_capacity (reader_pop inb n)"
    unfolding available_capacity_peek(1) [OF assms] available_capacity_peek(1) [OF p(1)]
    using p(2) by (simp add: reader_pop_def Let_def)
  then show ?thesis by (simp add: right_edge_def window_end_def)
qed

lemma send_fits:
  assumes z: "sized S rto c rc" and a: "receiving S z rc (got, rcv, r, inb)"
  shows "acks_fit z (progress (got, rcv, r, inb)) (right_edge (got, rcv, r, inb)) {tcp_receiver_send rcv inb}"
proof -
  let ?k = "progress (got, rcv, r, inb)" and ?a = "tcp_receiver_send rcv inb"
  have "initial_seq_num rcv \<noteq> None" if "ackno ?a = Some b" for b using that by (auto simp: tcp_receiver_send_def)
  then have "\<forall>b. ackno ?a = Some b \<longrightarrow> b = wrap_abs ?k z" using sent_ack(1) [OF z a] by auto
  moreover have "?k + window_field ?a \<le> right_edge (got, rcv, r, inb)"
    by (simp add: progress_def right_edge_def window_end_def tcp_receiver_send_def min_le_iff_disj)
  moreover have "window_field ?a < 2 ^ 16" by (simp add: tcp_receiver_send_def)
  ultimately show ?thesis unfolding acks_fit_def by blast
qed

lemma flow_receiver_step:
  assumes f: "flow_ok S z x" and "rcv_side x = y" and "right_edge y \<le> right_edge y'" and "progress y \<le> progress y'"
  shows "flow_ok S z (x\<lparr>rcv_side := y'\<rparr>)"
  using assms by (auto simp: flow_ok_def intro: sender_fits_mono acks_fit_mono)

lemma flow_sender_step:
  assumes "flow_ok S z x" and "sender_fits S (right_edge (rcv_side x)) (fst y)"
  shows "flow_ok S z (x\<lparr>snd_side := y\<rparr>)"
  using assms by (simp add: flow_ok_def)

text \<open>Every segment on the network fits in the window of the receiver.\<close>

lemma segment_in_window:
  assumes z: "sized S rto c rc" and c: "connected S z rto c rc x" and f: "flow_ok S z x" and m: "m \<in> segments x"
    and rd: "rcv_side x = (got, rcv, r, inb)" and e: "end_safe S r inb"
  obtains k where "sent_at S z k m" "k - 1 + length (payload m) \<le> window_end r inb"
proof -
  obtain s out where sd: "snd_side x = (s, out)" by (cases "snd_side x")
  obtain k where k: "sent_at S z k m" "k + seq_len m \<le> next_seqno s"
    using connected_bound [OF c z] m sd by (auto simp: sent_bound_def)
  have a: "receiving S z rc (got, rcv, r, inb)" by (rule connected_parts [OF z c sd rd])
  have le: "k - 1 + length (payload m) \<le> length S" using k(1) by (simp add: sent_at_def segment_at_def piece_of_def)
  have "k - 1 + length (payload m) \<le> window_end r inb"
  proof (cases "S = [] \<or> rcv_finished rcv")
    case True
    have "first_unassembled r = length S" if "rcv_finished rcv"
      using that received_closed(3) [OF a sizedD(1,6) [OF z]] e by (simp add: synchronized_def end_safe_def)
    then show ?thesis using True le by (auto simp: window_end_def)
  next
    case False
    then have "next_seqno s \<le> Suc (window_end r inb)"
      using f sd rd by (simp add: flow_ok_def sender_fits_def right_edge_def)
    moreover have "payload m = [] \<or> Suc (k - 1 + length (payload m)) \<le> k + seq_len m"
      using k(1) sent_at_end [OF k(1)] by simp
    ultimately show ?thesis using k sent_at_end [OF k(1)] by linarith
  qed
  then show thesis using that k(1) by blast
qed

lemma flow_other:
  assumes z: "sized S rto c rc" and x: "connected S z rto c rc x" and f: "flow_ok S z x"
    and st: "connection_step S x y" "rcv_side y = rcv_side x" "window_size (fst (snd_side y)) = window_size (fst (snd_side x))"
  shows "flow_ok S z y"
proof -
  note S = sizedD(1) [OF z]
  obtain got rcv r inb where rd: "rcv_side x = (got, rcv, r, inb)" by (cases "rcv_side x")
  obtain s out where sd: "snd_side x = (s, out)" by (cases "snd_side x")
  obtain una where inv: "sender_inv S z rto una (s, out)" and a: "receiving S z rc (got, rcv, r, inb)"
    and p: "progress (got, rcv, r, inb) \<le> next_seqno s" by (rule connected_parts [OF z x sd rd])
  have fits: "sender_fits S (right_edge (rcv_side x)) s"
    and acks: "acks_fit z (progress (rcv_side x)) (right_edge (rcv_side x)) (acks x)"
    using f sd by (simp_all add: flow_ok_def)
  from st(1) show ?thesis
  proof cases
    case (push s1 out1 s' out')
    then show ?thesis using flow_sender_step [OF f] push_fits [OF inv S _ _ _ fits] sd by simp
  next
    case (transmit s1 out1 m s')
    then have "sender_fits S (right_edge (rcv_side x)) s'" using maybe_send_fits [OF inv S _ fits] sd by simp
    then show ?thesis using transmit acks by (simp add: flow_ok_def)
  next
    case (timeout s1 out1 ms s')
    then show ?thesis using flow_sender_step [OF f] tick_fits [OF inv S _ _ fits] sd by simp
  next
    case (acknowledge got1 rcv1 r1 inb1)
    then have "acks_fit z (progress (rcv_side x)) (right_edge (rcv_side x)) (acks y)"
      using send_fits [OF z a] acks rd by (simp add: acks_fit_def)
    then show ?thesis using acknowledge fits sd by (simp add: flow_ok_def)
  next
    case (deliver_ack b s1 out1 s')
    then have "sender_fits S (right_edge (rcv_side x)) s'"
      using receive_fits [OF inv S _ _ fits acks, of b s'] st(3) sd rd p by simp
    then show ?thesis using deliver_ack acks by (simp add: flow_ok_def)
  qed (use st(2) f sd in \<open>auto simp: flow_ok_def\<close>)
qed

lemma regular_flow:
  assumes "regular S z rto c rc x" and z: "sized S rto c rc"
  shows "flow_ok S z x \<and> orderly S z rto c rc x"
  using assms(1)
proof induction
  case start
  have "flow_ok S z (initial_connection z rto c rc)"
    using sizedD(5) [OF z]
    by (simp add: flow_ok_def initial_connection_def sender_fits_def acks_fit_def right_edge_def window_end_def
        acknowledged_def TCPSender_def)
  then show ?case using orderly.start by blast
next
  case (other x y)
  then show ?case using flow_other [OF z regular_connected] orderly.step orderly_step.other by blast
next
  case (deliver x m got rcv r inb rcv' r' inb')
  note x = regular_connected [OF deliver.hyps(1)]
  have e: "end_safe S r inb" by (rule liveD(2) [OF orderly_live [OF conjunct2 [OF deliver.IH] z] deliver.hyps(3)])
  obtain k where k: "sent_at S z k m" "k - 1 + length (payload m) \<le> window_end r inb"
    by (rule segment_in_window [OF z x conjunct1 [OF deliver.IH] deliver.hyps(2,3) e])
  obtain s out where sd: "snd_side x = (s, out)" by (cases "snd_side x")
  have a: "receiving S z rc (got, rcv, r, inb)" by (rule connected_parts [OF z x sd deliver.hyps(3)])
  have i: "insertion_index r z m = k - 1"
    by (rule insertion_index_sent [OF z k(1) received_closed(2) [OF a sizedD(1,6) [OF z]]])
  have "in_place r inb z m" using deliver.hyps(4) k(2) i by (simp add: in_place_def bare_FIN_in_order_def)
  then have "orderly S z rto c rc (x\<lparr>rcv_side := (got, rcv', r', inb')\<rparr>)"
    using orderly.step orderly_step.deliver deliver.IH deliver.hyps(2,3,5) by blast
  moreover have "flow_ok S z (x\<lparr>rcv_side := (got, rcv', r', inb')\<rparr>)"
    by (rule flow_receiver_step [OF conjunct1 [OF deliver.IH] deliver.hyps(3) deliver_edge [OF z a k(1) deliver.hyps(5)]
          progress_deliver [OF a sizedD(1,6) [OF z] sent_at_segment [OF k(1)] segment_fits [OF k(1) sizedD(5) [OF z]]
            deliver.hyps(5)]])
  ultimately show ?case by blast
next
  case (deliver_ack x a s out s')
  note x = regular_connected [OF deliver_ack.hyps(1)]
  obtain got rcv r inb where rd: "rcv_side x = (got, rcv, r, inb)" by (cases "rcv_side x")
  obtain una where inv: "sender_inv S z rto una (s, out)" and p: "progress (got, rcv, r, inb) \<le> next_seqno s"
    by (rule connected_parts [OF z x deliver_ack.hyps(3) rd])
  have f: "sender_fits S (right_edge (rcv_side x)) s" "acks_fit z (progress (rcv_side x)) (right_edge (rcv_side x)) (acks x)"
    using deliver_ack.IH deliver_ack.hyps(3) by (simp_all add: flow_ok_def)
  have "sender_fits S (right_edge (rcv_side x)) s'"
    using receive_fits [OF inv sizedD(1) [OF z] deliver_ack.hyps(4,7) f deliver_ack.hyps(2)] deliver_ack.hyps(5,6) rd p by simp
  then have "flow_ok S z (x\<lparr>snd_side := (s', out)\<rparr>)" using flow_sender_step deliver_ack.IH by simp
  moreover have "connection_step S x (x\<lparr>snd_side := (s', out)\<rparr>)"
    by (rule connection_step.deliver_ack) (rule deliver_ack.hyps)+
  then have "orderly S z rto c rc (x\<lparr>snd_side := (s', out)\<rparr>)"
    using orderly.step [OF conjunct2 [OF deliver_ack.IH]] orderly_step.other by simp
  ultimately show ?case by blast
next
  case (app_read x got rcv r inb n)
  note x = regular_connected [OF app_read.hyps(1)]
  obtain s out where sd: "snd_side x = (s, out)" by (cases "snd_side x")
  have a: "receiving S z rc (got, rcv, r, inb)" by (rule connected_parts [OF z x sd app_read.hyps(2)])
  have "stream_inv inb" using inv_stream(1) [OF received_closed(1) [OF a sizedD(1,6) [OF z]]] .
  then have "flow_ok S z (x\<lparr>rcv_side := (got @ take n (peek inb), rcv, r, reader_pop inb n)\<rparr>)"
    by (intro flow_receiver_step [OF conjunct1 [OF app_read.IH] app_read.hyps(2)] read_edge) (simp_all add: progress_def)
  then show ?case using orderly.step [OF conjunct2 [OF app_read.IH] orderly_step.app_read [OF app_read.hyps(2)]] by blast
qed

corollary regular_orderly: "regular S z rto c rc x \<Longrightarrow> sized S rto c rc \<Longrightarrow> orderly S z rto c rc x"
  using regular_flow by blast

text \<open>
  \<open>C7\<close>: flow control. When the acknowledgments that reach the sender are current and keep its
  window open, and a bare FIN waits for its turn, every segment on the network fits in the window
  of the receiver whenever it arrives. A receiver that has seen the SYN, with this segment or before,
  discards none of its bytes: each is assembled or held afterwards. One that has not leaves a
  segment without SYN aside and is unchanged; no window limits that.
\<close>

theorem no_byte_is_discarded:
  assumes "regular S z rto c rc x" and "length S + 2 < 2 ^ 31" and "rto < 2 ^ 64" and "0 < c" and "c < 2 ^ 64"
    and "1031 \<le> rc" and "rc < 2 ^ 62" and "rcv_side x = (got, rcv, r, inb)" and "m \<in> segments x"
    and "tcp_receiver_receive rcv m r inb = Inr (rcv', r', inb')"
  shows "\<exists>f. segment_at S z f m \<and> f + length (payload m) \<le> window_end r inb
    \<and> (if SYN m \<or> initial_seq_num rcv \<noteq> None
       then {f..<f + length (payload m)} \<subseteq> known (first_unassembled r') (held r')
       else (rcv', r', inb') = (rcv, r, inb))"
proof -
  have z: "sized S rto c rc" using assms by (simp add: sized_def)
  note x = regular_connected [OF assms(1)] and fo = regular_flow [OF assms(1) z]
  have e: "end_safe S r inb" by (rule liveD(2) [OF orderly_live [OF conjunct2 [OF fo] z] assms(8)])
  obtain k where k: "sent_at S z k m" "k - 1 + length (payload m) \<le> window_end r inb"
    by (rule segment_in_window [OF z x conjunct1 [OF fo] assms(9,8) e])
  have seg: "segment_at S z (k - 1) m" using k(1) by (simp add: sent_at_def)
  obtain s out where sd: "snd_side x = (s, out)" by (cases "snd_side x")
  have a: "receiving S z rc (got, rcv, r, inb)" by (rule connected_parts [OF z x sd assms(8)])
  show ?thesis
  proof (cases "SYN m \<or> initial_seq_num rcv \<noteq> None")
    case True
    from deliver_facts [OF z a k(1) True]
    obtain r1 inb1 rcv1 where 1: "tcp_receiver_receive rcv m r inb = Inr (rcv1, r1, inb1)"
      "assembly_inv S rc (got, r, inb)" "piece_of S (k - 1) (payload m)"
      "insert_meets_spec r inb (k - 1) (payload m) (FIN m) r1 inb1" by metis
    have "{k - 1..<k - 1 + length (payload m)} \<subseteq> known (first_unassembled r1) (held r1)"
      using k(2) unfolding assembly_insert(3) [OF 1(2-4)] by auto
    then show ?thesis using True k(2) seg 1(1) assms(10) by auto
  next
    case False
    then have "(rcv', r', inb') = (rcv, r, inb)" using assms(10) by (simp add: receive_unsynchronized)
    then show ?thesis using False k(2) seg by auto
  qed
qed

section \<open>Where the windows fail\<close>

lemma receive_window:
  assumes "tcp_sender_receive s a = Inr s'"
  shows "window_size s' = window_field a" "zero_window_flag s' = (window_field a = 0)"
proof -
  have "window_size s' = window_field a \<and> zero_window_flag s' = (window_field a = 0)"
  proof (cases "ackno a")
    case None
    then show ?thesis using assms by (auto simp: tcp_sender_receive_def)
  next
    case (Some b)
    let ?n = "unwrap_abs b (isn s) (next_seqno s)"
    show ?thesis
    proof (cases "next_seqno s < ?n")
      case True
      then show ?thesis using assms Some by (auto simp: tcp_sender_receive_def)
    next
      case False
      let ?d = "drop_acked (isn s) (next_seqno s) ?n (sender_timer s) (unacked_msgs s) (unacked_seqnos s) False"
      obtain rest n acked where "?d = Inr (rest, n, acked)"
        using assms Some False by (cases ?d) (auto simp: tcp_sender_receive_def)
      then show ?thesis
        using assms Some False by (cases "isOn (sender_timer s)"; cases acked)
          (auto simp: tcp_sender_receive_def resetRTO_def isOn_def check_def)
    qed
  qed
  then show "window_size s' = window_field a" "zero_window_flag s' = (window_field a = 0)" by simp_all
qed

text \<open>
  An acknowledgment of something never sent is not ignored, as the comment has it: its window is
  taken before it is looked at.
\<close>

theorem impossible_ack_sets_window:
  assumes "ackno a = Some b" and "next_seqno s < unwrap_abs b (isn s) (next_seqno s)"
  shows "tcp_sender_receive s a = Inr (s\<lparr>window_size := window_field a, zero_window_flag := (window_field a = 0)\<rparr>)"
  using assms by (simp add: tcp_sender_receive_def)

text \<open>
  The window of an acknowledgment that has been overtaken is taken too, and counted from what has
  been acknowledged since: the sender may then send beyond what the receiver has ever promised.
\<close>

theorem stale_window_is_believed:
  assumes inv: "sender_inv S z rto una (s, out)" and S: "length S + 2 < 2 ^ 31" and "unsent_msgs s = []"
    and "ackno a = Some (wrap_abs k z)" and "k < una" and "window_field a < 2 ^ 16"
  shows "\<exists>s'. tcp_sender_receive s a = Inr s' \<and> acknowledged s' + window_size s' = una + window_field a"
proof -
  obtain s1 una' where 1: "tcp_sender_receive s a = Inr s1" "sender_inv S z rto una' (s1, out)" "una \<le> una'"
    "una' = una \<or> (\<exists>b. ackno a = Some b \<and> una' \<le> unwrap_abs b z (next_seqno s)
        \<and> unwrap_abs b z (next_seqno s) \<le> next_seqno s)"
    by (rule receive_spec [OF inv S assms(3,6)])
  have "una \<le> next_seqno s" using inv_bounds(3) [OF inv S] by simp
  then have "unwrap_abs (wrap_abs k z) z (next_seqno s) = k"
    using assms(5) inv_bounds(2) [OF inv S] by (intro unwrap_wrap_abs) simp_all
  then have "una' = una" using 1(3,4) assms(4,5) by auto
  then show ?thesis using 1(1) acknowledged_inv(1) [OF 1(2) S] receive_window(1) [OF 1(1)] by simp
qed

text \<open>
  Every acknowledgment that closes the window lets \<open>push\<close> send one more byte, however many are in
  flight already; the comments want one byte until the window opens.
\<close>

theorem probes_accumulate:
  assumes inv: "sender_inv S z rto una (s, out)" and S: "length S + 2 < 2 ^ 31" and "unsent_msgs s = []"
    and "\<not> has_not_sent_SYN s" and "peek out \<noteq> []" and "window_field a = 0"
  shows "\<exists>s1 s2 out2. tcp_sender_receive s a = Inr s1 \<and> push s1 out = Inr (s2, out2) \<and> next_seqno s < next_seqno s2"
proof -
  have "window_field a < 2 ^ 16" using assms(6) by simp
  then obtain s1 una1 where 1: "tcp_sender_receive s a = Inr s1" "sender_inv S z rto una1 (s1, out)" "unsent_msgs s1 = []"
    "next_seqno s1 = next_seqno s" "has_not_sent_SYN s1 = has_not_sent_SYN s"
    using receive_spec [OF inv S assms(3)] by metis
  have syn: "\<not> has_not_sent_SYN s1 \<or> peek out = []" using 1(5) assms(4) by simp
  obtain s2 out2 where p: "push s1 out = Inr (s2, out2)" by (rule push_spec [OF 1(2) S syn 1(3)])
  have "room s1 = 1" using receive_window [OF 1(1)] assms(6) by (simp add: room_def)
  moreover have "0 < length (peek out)" using assms(5) by simp
  ultimately have "next_seqno s1 < next_seqno s2" using push_bound [OF 1(2) S syn 1(3) p] by linarith
  then show ?thesis using 1(1,4) p by auto
qed

text \<open>The first segment of an empty stream carries SYN and FIN, two numbers in a window of one.\<close>

theorem SYN_FIN_overruns_window:
  "\<exists>m s'. maybe_send ((TCPSender rto z)\<lparr>stream_is_finished := True\<rparr>) = (Some m, s') \<and> SYN m \<and> FIN m
     \<and> window_size s' = 1 \<and> sequence_numbers_in_flight s' = 2"
  by (simp add: run_simps sequence_numbers_in_flight_def)

section \<open>A concrete connection\<close>

lemma regular_example: "regular [65] (Wrap32 7) 1000 8 1031 example_connection"
proof -
  obtain y where y: "connection_step [65] (initial_connection (Wrap32 7) 1000 8 1031) y" "connection_step [65] y example_connection"
    "rcv_side y = rcv_side (initial_connection (Wrap32 7) 1000 8 1031)" "rcv_side example_connection = rcv_side y"
    "window_size (fst (snd_side y)) = window_size (fst (snd_side (initial_connection (Wrap32 7) 1000 8 1031)))"
    "window_size (fst (snd_side example_connection)) = window_size (fst (snd_side y))" by (rule example_steps)
  show ?thesis by (rule regular.other [OF regular.other [OF regular.start y(1,3,5)] y(2,4,6)])
qed

lemma sized_example: "sized [65] 1000 8 1031"
  by (simp add: sized_def)

text \<open>The SYN is delivered and acknowledged, and the one byte of the stream is sent.\<close>

lemma example_syn_sent: "sent_at [65] (Wrap32 7) 0 example_syn"
  by (simp add: sent_at_def segment_at_def example_syn_def piece_of_def wrap_abs_zero seq_len_def)

lemma example_ack_wide:
  "tcp_sender_receive (example_sender 1 [example_syn] 1 True) \<lparr>ackno = Some (wrap_abs 1 (Wrap32 7)), window_field = 1031\<rparr>
   = Inr (example_sender 1031 [] 0 False)"
  by (simp add: tcp_sender_receive_def example_sender_def example_syn_def unwrap_small Let_def isOn_def
      sequence_length_def wadd_def wsub_def resetRTO_def timer_stop_def)

lemma regular_acknowledged:
  obtains x rcv r inb where "regular [65] (Wrap32 7) 1000 8 1031 x" "rcv_side x = ([], rcv, r, inb)"
    "initial_seq_num rcv = Some (Wrap32 7)" "snd_side x = (example_sender 1031 [] 0 False, ByteStream 8)"
    "first_unassembled r = 0" "held r = Map.empty"
proof -
  let ?z = "Wrap32 7" and ?s = "example_sender 1 [example_syn] 1 True"
  have a0: "receiving [65] ?z 1031 ([], TCPReceiver, Reassembler, ByteStream 1031)" by (rule receiving.start)
  obtain rcv r inb where 1: "tcp_receiver_receive TCPReceiver example_syn Reassembler (ByteStream 1031) = Inr (rcv, r, inb)"
    "initial_seq_num rcv = Some ?z"
    "rcv_finished rcv = (rcv_finished TCPReceiver \<or> ((meet_FIN TCPReceiver \<or> FIN example_syn) \<and> is_closed inb))"
    "insert_meets_spec Reassembler (ByteStream 1031) (0 - 1) (payload example_syn) (FIN example_syn) r inb"
    using deliver_facts [OF sized_example a0 example_syn_sent] by (metis example_syn_sent sent_at_def)
  let ?x1 = "example_connection\<lparr>rcv_side := ([], rcv, r, inb)\<rparr>" and ?a = "tcp_receiver_send rcv inb"
  let ?x2 = "?x1\<lparr>acks := insert ?a (acks ?x1)\<rparr>"
  have no: "\<not> FIN example_syn" "payload example_syn = []" by (simp_all add: example_syn_def)
  then have "bare_FIN_in_order Reassembler ?z example_syn" by (simp add: bare_FIN_in_order_def)
  from regular.deliver [OF regular_example _ connected_example(2) this 1(1)]
  have x1: "regular [65] ?z 1000 8 1031 ?x1" by (simp add: example_connection_def)
  have x2: "regular [65] ?z 1000 8 1031 ?x2"
    by (rule regular.other [OF x1 connection_step.acknowledge]) simp_all
  have "held Reassembler = Map.empty" by (simp add: held_def Reassembler_def)
  then have e: "first_unassembled r = 0" "peek inb = []" "held r = Map.empty"
    using 1(4) no by (auto simp: insert_meets_spec_def spec_insert_def Reassembler_def)
  have a1: "receiving [65] ?z 1031 ([], rcv, r, inb)"
    by (rule receiving.segment [OF a0 example_syn_segment 1(1)])
  have "\<not> rcv_finished rcv" using 1(3) no(1) by (simp add: TCPReceiver_def)
  then have "progress ([], rcv, r, inb) = 1" using 1(2) e by (simp add: progress_def)
  then have "ackno ?a = Some (wrap_abs 1 ?z)" "window_field ?a = 1031"
    using sent_ack [OF sized_example a1] 1(2) e(2) by simp_all
  then have a: "?a = \<lparr>ackno = Some (wrap_abs 1 ?z), window_field = 1031\<rparr>" by simp
  have "acknowledged ?s = 0"
    by (simp add: acknowledged_def example_sender_def sequence_numbers_in_flight_def wadd_def)
  then have cur: "current_ack ?s ?a" by (simp add: current_ack_def a)
  have "regular [65] ?z 1000 8 1031 (?x2\<lparr>snd_side := (example_sender 1031 [] 0 False, ByteStream 8)\<rparr>)"
    by (rule regular.deliver_ack [OF x2 _ _ _ cur _ example_ack_wide [folded a]])
      (simp_all add: a example_connection_def example_sender_def)
  then show thesis using that 1(2) e by simp
qed

lemma push_flags: "push s out = Inr (s', out') \<Longrightarrow> flags out' = flags out"
proof -
  have "push_loop n s out d = Inr (s', out') \<Longrightarrow> flags out' = flags out" for n s out d s' out'
    by (induction n s out d rule: push_loop.induct) (auto simp: Let_def reader_pop_def split: if_splits)
  then show "push s out = Inr (s', out') \<Longrightarrow> flags out' = flags out"
    by (auto simp: push_def andthen_eq_Inr_iff simp del: push_loop.simps)
qed

lemma regular_sent:
  obtains x rcv r inb m s out where "regular [65] (Wrap32 7) 1000 8 1031 x" "rcv_side x = ([], rcv, r, inb)"
    "initial_seq_num rcv = Some (Wrap32 7)" "first_unassembled r = 0" "held r = Map.empty"
    "m \<in> segments x" "payload m \<noteq> []" "snd_side x = (s, out)" "unsent_msgs s = []" "\<not> has_not_sent_SYN s"
    "peek out = []" "\<not> is_closed out" "window_size s = 1031"
proof -
  let ?z = "Wrap32 7" and ?s = "example_sender 1031 [] 0 False" and ?S = "[65 :: byte]"
  note S = sizedD(1) [OF sized_example]
  obtain x rcv r inb where x: "regular ?S ?z 1000 8 1031 x" "rcv_side x = ([], rcv, r, inb)"
    "initial_seq_num rcv = Some ?z" "snd_side x = (?s, ByteStream 8)" "first_unassembled r = 0" "held r = Map.empty"
    by (rule regular_acknowledged)
  have w: "writer_push (ByteStream 8) [65] = Inr example_out" by (simp add: run_simps example_out_def cong: by_value)
  have out: "peek example_out = [65]" "\<not> is_closed example_out"
    by (simp_all add: run_simps example_out_def cong: by_value)
  let ?x1 = "x\<lparr>snd_side := (?s, example_out)\<rparr>"
  have "available_capacity (ByteStream 8) = 8" "peek (ByteStream 8) = []" "total_popped (ByteStream 8) = 0"
    using available_capacity_peek(1) [of "ByteStream 8"] by simp_all
  then have "piece_of ?S (total_popped (ByteStream 8) + length (peek (ByteStream 8))) (take (available_capacity (ByteStream 8)) [65])"
    by (simp only: piece_of_def) simp
  note c1 = connection_step.app_write [OF x(4) this w]
  have x1: "regular ?S ?z 1000 8 1031 ?x1" by (rule regular.other [OF x(1) c1]) (simp_all add: x(4))
  obtain una where inv: "sender_inv ?S ?z 1000 una (?s, example_out)"
    by (rule connected_parts [OF sized_example regular_connected [OF x1], of ?s example_out "[]" rcv r inb]) (simp_all add: x(2))
  have d: "\<not> has_not_sent_SYN ?s \<or> peek example_out = []" "unsent_msgs ?s = []" by (simp_all add: example_sender_def)
  obtain s' out' ms where p: "push ?s example_out = Inr (s', out')" "sender_inv ?S ?z 1000 una (s', out')"
    "unsent_msgs s' = map (\<lambda>m. \<lparr>msg = m, is_retransmitted = False\<rparr>) ms"
    "concat (map payload ms) @ peek out' = peek example_out"
    "length (concat (map payload ms)) = min (length (peek example_out)) (room ?s)"
    "\<forall>m \<in> set ms. payload m \<noteq> [] \<and> length (payload m) \<le> MAX_PAYLOAD_SIZE \<and> \<not> SYN m"
    "window_size s' = window_size ?s" "has_not_sent_SYN s' = has_not_sent_SYN ?s" by (rule push_spec [OF inv S d])
  let ?x2 = "?x1\<lparr>snd_side := (s', out')\<rparr>"
  have x2: "regular ?S ?z 1000 8 1031 ?x2"
    by (rule regular.other [OF x1 connection_step.push [OF _ d(2,1) p(1)]]) (simp_all add: p(7))
  have "room ?s = 1031" by (simp add: room_def example_sender_def in_flight_def)
  then have len: "length (concat (map payload ms)) = 1" using p(5) by (simp add: out)
  then have "length (peek out') = 0" using arg_cong [OF p(4), of length] by (simp add: out)
  then have pk: "peek out' = []" by simp
  obtain m ms' where m: "ms = m # ms'" using len by (cases ms) simp_all
  have "ms' = []" using len p(6) m by (cases ms'; cases "payload m") auto
  then have "unsent_msgs s' = [\<lparr>msg = m, is_retransmitted = False\<rparr>]" using p(3) m by simp
  then obtain s'' where q: "maybe_send s' = (Some m, s'')" "window_size s'' = window_size s'" "unsent_msgs s'' = []"
    "has_not_sent_SYN s'' = has_not_sent_SYN s'"
    by (rule maybe_send_queued [OF p(2) S]) simp
  let ?x3 = "?x2\<lparr>snd_side := (s'', out'), segments := segments ?x2 \<union> set_option (Some m)\<rparr>"
  have x3: "regular ?S ?z 1000 8 1031 ?x3"
    by (rule regular.other [OF x2 connection_step.transmit [OF _ q(1)]]) (simp_all add: q(2))
  have "flags out' = flags example_out" using push_flags [OF p(1)] .
  then have "\<not> is_closed out'" using out(2) by (simp add: is_closed_def)
  then show thesis
    by (intro that [OF x3, of rcv r inb m s'' out']) (use x p(6-8) m pk q in \<open>simp_all add: example_sender_def\<close>)
qed

theorem no_byte_is_discarded_witness:
  "\<exists>m r inb r' f. payload m \<noteq> [] \<and> segment_at [65] (Wrap32 7) f m \<and> f + length (payload m) \<le> window_end r inb
    \<and> {f..<f + length (payload m)} \<subseteq> known (first_unassembled r') (held r')"
proof -
  obtain x rcv r inb m s out where x: "regular [65] (Wrap32 7) 1000 8 1031 x" "rcv_side x = ([], rcv, r, inb)"
    "initial_seq_num rcv = Some (Wrap32 7)" "m \<in> segments x" "payload m \<noteq> []" "snd_side x = (s, out)" by (rule regular_sent)
  obtain k where k: "sent_at [65] (Wrap32 7) k m"
    using connected_inv [OF regular_connected [OF x(1)] sizedD(1,2,4-6) [OF sized_example]] x(4) by (auto simp: connection_inv_def)
  have a: "receiving [65] (Wrap32 7) 1031 ([], rcv, r, inb)"
    by (rule connected_parts [OF sized_example regular_connected [OF x(1)] x(6,2)])
  obtain rcv' r' inb' where d: "tcp_receiver_receive rcv m r inb = Inr (rcv', r', inb')"
    using deliver_facts [OF sized_example a k] x(3) by (metis option.distinct(1))
  have "SYN m \<or> initial_seq_num rcv \<noteq> None" using x(3) by simp
  with no_byte_is_discarded [OF x(1) sizedD(1-6) [OF sized_example] x(2,4) d] x(5) show ?thesis by (metis (full_types))
qed

end
