(* ===== verification/TCP_Early_FIN.thy ===== *)
theory TCP_Early_FIN
  imports TCP_Flow
begin

text \<open>
  Why a FIN has to be in its place: what the receiver of \<open>src/src/tcp_receiver.cc\<close> does with a bare
  FIN that overtakes the bytes it follows, in every state of a connection.
\<close>

lemma bare_FIN_insert:
  assumes "insert_meets_spec r inb f [] True r' inb'" and "held r = Map.empty"
  shows "first_unassembled r' = first_unassembled r" "peek inb' = peek inb" "is_closed inb'"
  using assms by (auto simp: insert_meets_spec_def spec_insert_def min_def split: if_splits)

text \<open>
  \<open>C40\<close>: in every state of a connection in which the receiver waits for a byte and keeps none that
  came early, a segment with only a FIN ends the stream: the inbound stream is closed, the reader
  takes what is there for the whole and sees its end, and the acknowledgment covers the first
  byte that is missing.
\<close>

theorem early_FIN_ends_the_stream:
  assumes "connected S z rto c rc x" and "length S + 2 < 2 ^ 31" and "rto < 2 ^ 64" and "0 < c" and "c < 2 ^ 64"
    and "1031 \<le> rc" and "rc < 2 ^ 62" and "rcv_side x = (got, rcv, r, inb)" and "initial_seq_num rcv \<noteq> None"
    and "m \<in> segments x" and "FIN m" and "payload m = []" and "held r = Map.empty" and "first_unassembled r < length S"
  shows "\<exists>rcv' r' inb'. tcp_receiver_receive rcv m r inb = Inr (rcv', r', inb')
    \<and> is_finished (reader_pop inb' (length (peek inb'))) \<and> got @ peek inb' = take (first_unassembled r) S
    \<and> ackno (tcp_receiver_send rcv' inb') = Some (wrap_abs (first_unassembled r + 2) z)"
proof -
  have z: "sized S rto c rc" using assms by (simp add: sized_def)
  obtain s out where sd: "snd_side x = (s, out)" by (cases "snd_side x")
  have a: "receiving S z rc (got, rcv, r, inb)" by (rule connected_parts [OF z assms(1) sd assms(8)])
  obtain k where k: "sent_at S z k m"
    using connected_inv [OF assms(1-3,5-7)] assms(10) by (auto simp: connection_inv_def)
  obtain rcv' r' inb' where 1: "tcp_receiver_receive rcv m r inb = Inr (rcv', r', inb')" "initial_seq_num rcv' = Some z"
    "rcv_finished rcv' = (rcv_finished rcv \<or> ((meet_FIN rcv \<or> FIN m) \<and> is_closed inb'))"
    "assembly_inv S rc (got, r, inb)" "piece_of S (k - 1) (payload m)"
    "insert_meets_spec r inb (k - 1) (payload m) (FIN m) r' inb'"
    using deliver_facts [OF z a k] assms(9) by metis
  have ins: "insert_meets_spec r inb (k - 1) [] True r' inb'" using 1(6) assms(11,12) by simp
  note b = bare_FIN_insert [OF ins assms(13)]
  have inv: "stream_inv inb'" using ins by (auto simp: insert_meets_spec_def dest: readyD(1))
  have a': "receiving S z rc (got, rcv', r', inb')"
    by (rule receiving.segment [OF a sent_at_segment [OF k] segment_fits [OF k assms(6)] 1(1)])
  let ?p = "reader_pop inb' (length (peek inb'))"
  have "is_closed ?p" using b(3) by (simp add: is_closed_def reader_pop_def Let_def)
  moreover have "peek ?p = []" using reader_pop_spec(2) [OF inv, of "length (peek inb')"] by simp
  ultimately have "is_finished ?p" using reader_pop_spec(1) [OF inv] by (simp add: is_finished_peek)
  moreover have "got @ peek inb' = take (first_unassembled r) S"
    using 1(4) b(2) by (simp add: assembly_inv_def)
  moreover have "rcv_finished rcv'" using 1(3) b(3) assms(11) by simp
  then have "progress (got, rcv', r', inb') = first_unassembled r + 2" using 1(2) b(1) by (simp add: progress_def)
  then have "ackno (tcp_receiver_send rcv' inb') = Some (wrap_abs (first_unassembled r + 2) z)"
    using sent_ack(1) [OF z a'] 1(2) by simp
  ultimately show ?thesis using 1(1) by blast
qed

section \<open>A connection in which it happens\<close>

text \<open>The byte of the stream is lost, the stream is closed, and a bare FIN follows.\<close>

lemma bare_FIN_sent:
  obtains x rcv r inb m where "connected [65] (Wrap32 7) 1000 8 1031 x" "rcv_side x = ([], rcv, r, inb)"
    "initial_seq_num rcv = Some (Wrap32 7)" "first_unassembled r = 0" "held r = Map.empty"
    "m \<in> segments x" "FIN m" "payload m = []"
proof -
  let ?S = "[65 :: byte]" and ?z = "Wrap32 7"
  note S = sizedD(1) [OF sized_example]
  obtain x rcv r inb m0 s out where x: "regular ?S ?z 1000 8 1031 x" "rcv_side x = ([], rcv, r, inb)"
    "initial_seq_num rcv = Some ?z" "first_unassembled r = 0" "held r = Map.empty"
    "snd_side x = (s, out)" "unsent_msgs s = []" "\<not> has_not_sent_SYN s" "peek out = []" "\<not> is_closed out" "window_size s = 1031"
    "m0 \<in> segments x" "payload m0 \<noteq> []"
    by (rule regular_sent)
  note c0 = regular_connected [OF x(1)]
  obtain una where inv: "sender_inv ?S ?z 1000 una (s, out)" by (rule connected_parts [OF sized_example c0 x(6,2)])
  obtain k where k: "sent_at ?S ?z k m0" "k + seq_len m0 \<le> next_seqno s"
    using connected_bound [OF c0 sized_example] x(6,12) by (auto simp: sent_bound_def)
  have fin: "has_not_sent_FIN s" using sender_invD(4) [OF inv] x(10) by (auto simp: flags_ok_def)
  have "k \<noteq> 0" using k(1) x(13) by (auto simp: sent_at_def)
  moreover have "1 \<le> seq_len m0" using k(1) by (simp add: sent_at_def)
  ultimately have "2 \<le> next_seqno s" using k(2) by linarith
  then have "1 \<le> total_popped out" using sender_invD(4) [OF inv] fin x(8) by (simp add: flags_ok_def)
  then have pop: "total_popped out + length (peek out) = length ?S"
    using sender_invD(3) [OF inv] x(9) by (simp add: outbound_ok_def piece_of_def)
  let ?o = "writer_close out" and ?s = "s\<lparr>stream_is_finished := True\<rparr>"
  let ?x1 = "x\<lparr>snd_side := (s, ?o)\<rparr>" and ?x2 = "x\<lparr>snd_side := (?s, ?o)\<rparr>"
  have c1: "connected ?S ?z 1000 8 1031 ?x1" by (rule connected.app_close [OF c0 x(6) pop])
  have "connected ?S ?z 1000 8 1031 (?x1\<lparr>snd_side := (?s, ?o)\<rparr>)"
    by (rule connected.push [OF c1 _ x(7) _ finish_stream [OF inv x(7,9)]]) (simp_all add: x(8))
  then have c2: "connected ?S ?z 1000 8 1031 ?x2" by simp
  obtain una2 where inv2: "sender_inv ?S ?z 1000 una2 (?s, ?o)"
    by (rule connected_parts [OF sized_example c2, of ?s ?o "[]" rcv r inb]) (simp_all add: x(2))
  have "in_flight ?s \<le> 3" using inv_bounds(1,3) [OF inv2 S] by (simp add: in_flight_def)
  then have "0 < room ?s" using x(11) by (simp add: room_def)
  then have w: "window_open ?s" using window_open_room(1) [OF inv2 S] by simp
  have f: "unsent_msgs ?s = []" "has_not_sent_SYN ?s \<or> has_not_sent_FIN ?s \<and> stream_is_finished ?s"
    using x(7) fin by simp_all
  obtain m s' where m: "maybe_send ?s = (Some m, s')" "payload m = []" "FIN m = (has_not_sent_FIN ?s \<and> stream_is_finished ?s)"
    by (rule maybe_send_flags [OF inv2 S f(1) w f(2)])
  let ?x3 = "?x2\<lparr>snd_side := (s', ?o), segments := segments ?x2 \<union> set_option (Some m)\<rparr>"
  have "connected ?S ?z 1000 8 1031 ?x3" by (rule connected.transmit [OF c2 _ m(1)]) simp
  then show thesis using that [of ?x3 rcv r inb m] x(2-5) m(2,3) fin by simp
qed

theorem early_FIN_ends_the_stream_witness:
  "\<exists>rcv r inb m rcv' r' inb'. tcp_receiver_receive rcv m r inb = Inr (rcv', r', inb')
    \<and> is_finished (reader_pop inb' (length (peek inb'))) \<and> [] @ peek inb' = take 0 [65 :: byte]
    \<and> ackno (tcp_receiver_send rcv' inb') = Some (wrap_abs (0 + 2) (Wrap32 7))"
proof -
  obtain x rcv r inb m where x: "connected [65] (Wrap32 7) 1000 8 1031 x" "rcv_side x = ([], rcv, r, inb)"
    "initial_seq_num rcv = Some (Wrap32 7)" "first_unassembled r = 0" "held r = Map.empty"
    "m \<in> segments x" "FIN m" "payload m = []" by (rule bare_FIN_sent)
  have "initial_seq_num rcv \<noteq> None" "first_unassembled r < length [65 :: byte]" using x(3,4) by simp_all
  from early_FIN_ends_the_stream [OF x(1) sizedD(1-6) [OF sized_example] x(2) this(1) x(6-8,5) this(2)]
  show ?thesis unfolding x(4) by blast
qed

end
