(* ===== verification/Wire_Format.thy ===== *)
theory Wire_Format
  imports Prelude
begin

text \<open>
  \<open>src/util/parser.hh\<close> and \<open>src/util/checksum.hh\<close>: the list of buffers a parser reads
  from, \<open>Parser\<close>, \<open>Serializer\<close>, and the Internet checksum. An unsigned integer type is a
  word type; its size in bytes is its length in bits over eight. A \<open>Buffer\<close> is the list of
  its bytes.
\<close>

section \<open>BufferList\<close>

record buffer_list =
  bl_size :: nat
  bl_buffers :: "byte list list"
  bl_skip :: nat

definition bl_append :: "buffer_list \<Rightarrow> byte list \<Rightarrow> buffer_list" where
  "bl_append l b = l\<lparr>bl_size := add64 (bl_size l) (length b), bl_buffers := bl_buffers l @ [b]\<rparr>"

definition BufferList :: "byte list list \<Rightarrow> buffer_list" where
  "BufferList bs = foldl bl_append \<lparr>bl_size = 0, bl_buffers = [], bl_skip = 0\<rparr> bs"

definition bl_empty :: "buffer_list \<Rightarrow> bool" where
  "bl_empty l \<longleftrightarrow> bl_size l = 0"

definition bl_peek :: "buffer_list \<Rightarrow> byte list outcome" where
  "bl_peek l =
     (case bl_buffers l of
        [] \<Rightarrow> Inl (Runtime_Error ''peek on empty BufferList'')
      | b # _ \<Rightarrow> andthen (check (bl_skip l \<le> length b) (Runtime_Error ''out_of_range''))
                  (\<lambda>_. Inr (drop (bl_skip l) b)))"

text \<open>
  The loop of \<open>remove_prefix\<close>: every round either finishes the first buffer or uses up
  \<open>len\<close>.
\<close>

function bl_remove_loop :: "nat \<Rightarrow> byte list list \<Rightarrow> nat \<Rightarrow> nat \<Rightarrow> buffer_list outcome" where
  "bl_remove_loop sz [] skip len = Inr \<lparr>bl_size = sz, bl_buffers = [], bl_skip = skip\<rparr>"
| "bl_remove_loop sz (b # bs) skip len =
     (if len = 0 then Inr \<lparr>bl_size = sz, bl_buffers = b # bs, bl_skip = skip\<rparr>
      else if skip > length b then Inl (Runtime_Error ''out_of_range'')
      else
        let to_pop_now = min len (length b - skip);
            skip' = skip + to_pop_now;
            len' = len - to_pop_now;
            sz' = sub64 sz to_pop_now
        in if skip' = length b then bl_remove_loop sz' bs 0 len'
           else bl_remove_loop sz' (b # bs) skip' len')"
  by pat_completeness auto
termination by (relation "measure (\<lambda>(sz, bs, skip, len). length bs + len)") auto

definition bl_remove_prefix :: "buffer_list \<Rightarrow> nat \<Rightarrow> buffer_list outcome" where
  "bl_remove_prefix l len = bl_remove_loop (bl_size l) (bl_buffers l) (bl_skip l) len"

text \<open>
  \<open>dump_all\<close> moves the buffers out; the list it leaves behind is not used again by any
  caller and is not modelled.
\<close>

definition bl_dump_all :: "buffer_list \<Rightarrow> byte list list outcome" where
  "bl_dump_all l =
     (if bl_empty l then Inr []
      else case bl_buffers l of
        [] \<Rightarrow> Inl Undefined
      | b # bs \<Rightarrow> andthen (check (bl_skip l \<le> length b) (Runtime_Error ''out_of_range''))
                   (\<lambda>_. Inr (drop (bl_skip l) b # bs)))"

definition bl_dump_one :: "buffer_list \<Rightarrow> byte list outcome" where
  "bl_dump_one l = andthen (bl_dump_all l) (\<lambda>bs. Inr (concat bs))"

section \<open>Parser\<close>

record parser =
  p_input :: buffer_list
  p_error :: bool

definition Parser :: "byte list list \<Rightarrow> parser" where
  "Parser input = \<lparr>p_input = BufferList input, p_error = False\<rparr>"

definition parser_input :: "parser \<Rightarrow> buffer_list" where
  "parser_input p = p_input p"

definition parser_has_error :: "parser \<Rightarrow> bool" where
  "parser_has_error p = p_error p"

definition parser_set_error :: "parser \<Rightarrow> parser" where
  "parser_set_error p = p\<lparr>p_error := True\<rparr>"

definition check_size :: "parser \<Rightarrow> nat \<Rightarrow> parser" where
  "check_size p n = (if n > bl_size (p_input p) then p\<lparr>p_error := True\<rparr> else p)"

definition parser_remove_prefix :: "parser \<Rightarrow> nat \<Rightarrow> parser outcome" where
  "parser_remove_prefix p n =
     andthen (bl_remove_prefix (p_input p) n) (\<lambda>l. Inr (p\<lparr>p_input := l\<rparr>))"

text \<open>\<open>peek().front()\<close> and \<open>remove_prefix(1)\<close>: taking the front of an empty view is undefined.\<close>

definition next_byte :: "parser \<Rightarrow> (byte \<times> parser) outcome" where
  "next_byte p =
     andthen (bl_peek (p_input p)) (\<lambda>view.
     andthen (vec_at view 0) (\<lambda>b.
     andthen (parser_remove_prefix p 1) (\<lambda>p'. Inr (b, p'))))"

fun read_bytes :: "nat \<Rightarrow> 'a::len word \<Rightarrow> parser \<Rightarrow> ('a word \<times> parser) outcome" where
  "read_bytes 0 out p = Inr (out, p)"
| "read_bytes (Suc n) out p =
     andthen (next_byte p) (\<lambda>(b, p'). read_bytes n (push_bit 8 out OR ucast b) p')"

text \<open>\<open>out\<close> keeps its old value when the parser is or gets into its error state.\<close>

definition parser_integer :: "'a::len word \<Rightarrow> parser \<Rightarrow> ('a word \<times> parser) outcome" where
  "parser_integer old p0 =
     (let n = LENGTH('a) div 8; p = check_size p0 n
      in if p_error p then Inr (old, p)
         else if n = 1 then andthen (next_byte p) (\<lambda>(b, p'). Inr (ucast b, p'))
         else read_bytes n 0 p)"

text \<open>
  \<open>Parser::string\<close>: \<open>n\<close> bytes are left to fill. A round that copies nothing (an empty
  buffer in front) makes no progress and would repeat for ever: \<open>remove_prefix(0)\<close> does
  nothing.
\<close>

function read_string :: "nat \<Rightarrow> byte list \<Rightarrow> parser \<Rightarrow> (byte list \<times> parser) outcome" where
  "read_string n acc p =
     (if n = 0 then Inr (acc, p)
      else andthen (bl_peek (p_input p)) (\<lambda>view.
           let view' = take n view
           in andthen (parser_remove_prefix p (length view')) (\<lambda>p'.
              if view' = [] then Inl Diverges
              else read_string (n - length view') (acc @ view') p')))"
  by pat_completeness auto
termination
proof (relation "measure (\<lambda>(n, acc, p). n)", goal_cases)
  case (2 n acc p view view' p')
  then show ?case by (cases view') auto
qed simp

declare read_string.simps [simp del]

definition parser_string :: "nat \<Rightarrow> byte list \<Rightarrow> parser \<Rightarrow> (byte list \<times> parser) outcome" where
  "parser_string n old p0 =
     (let p = check_size p0 n in if p_error p then Inr (old, p) else read_string n [] p)"

definition all_remaining :: "parser \<Rightarrow> byte list list outcome" where
  "all_remaining p = bl_dump_all (p_input p)"

definition all_remaining_one :: "parser \<Rightarrow> byte list outcome" where
  "all_remaining_one p = bl_dump_one (p_input p)"

section \<open>Serializer\<close>

record serializer =
  s_output :: "byte list list"
  s_buffer :: "byte list"

definition Serializer :: serializer where
  "Serializer = \<lparr>s_output = [], s_buffer = []\<rparr>"

definition Serializer_buffer :: "byte list \<Rightarrow> serializer" where
  "Serializer_buffer b = \<lparr>s_output = [], s_buffer = b\<rparr>"

definition integer_bytes :: "'a::len word \<Rightarrow> byte list" where
  "integer_bytes v =
     (let n = LENGTH('a) div 8
      in map (\<lambda>i. ucast (drop_bit ((n - i - 1) * 8) v)) [0..<n])"

definition serializer_integer :: "'a::len word \<Rightarrow> serializer \<Rightarrow> serializer" where
  "serializer_integer v s = s\<lparr>s_buffer := s_buffer s @ integer_bytes v\<rparr>"

definition serializer_flush :: "serializer \<Rightarrow> serializer" where
  "serializer_flush s = s\<lparr>s_output := s_output s @ [s_buffer s], s_buffer := []\<rparr>"

definition serializer_buffer :: "byte list \<Rightarrow> serializer \<Rightarrow> serializer" where
  "serializer_buffer b s = (let s' = serializer_flush s in s'\<lparr>s_output := s_output s' @ [b]\<rparr>)"

definition serializer_buffers :: "byte list list \<Rightarrow> serializer \<Rightarrow> serializer" where
  "serializer_buffers bs s = foldl (\<lambda>s b. serializer_buffer b s) s bs"

definition serializer_output :: "serializer \<Rightarrow> byte list list" where
  "serializer_output s = s_output (serializer_flush s)"

section \<open>InternetChecksum\<close>

record internet_checksum =
  ck_sum :: "32 word"
  ck_parity :: bool

definition InternetChecksum :: "32 word \<Rightarrow> internet_checksum" where
  "InternetChecksum start = \<lparr>ck_sum = start, ck_parity = False\<rparr>"

definition checksum_byte :: "internet_checksum \<Rightarrow> byte \<Rightarrow> internet_checksum" where
  "checksum_byte c i =
     (let val = ucast i :: 16 word;
          val' = (if ck_parity c then val else push_bit 8 val)
      in c\<lparr>ck_sum := ck_sum c + ucast val', ck_parity := \<not> ck_parity c\<rparr>)"

definition checksum_add :: "internet_checksum \<Rightarrow> byte list \<Rightarrow> internet_checksum" where
  "checksum_add c data = foldl checksum_byte c data"

definition checksum_add_all :: "internet_checksum \<Rightarrow> byte list list \<Rightarrow> internet_checksum" where
  "checksum_add_all c data = foldl checksum_add c data"

lemma fold_step:
  "unat (drop_bit 16 ret + ucast (ucast ret :: 16 word) :: 32 word) = unat ret div 2 ^ 16 + unat ret mod 2 ^ 16"
proof -
  have a: "unat (drop_bit 16 ret) = unat ret div 2 ^ 16"
    by (simp only: unat_drop_bit_eq) (simp add: drop_bit_eq_div)
  have b: "unat (ucast (ucast ret :: 16 word) :: 32 word) = unat ret mod 2 ^ 16"
    by (simp add: unsigned_ucast_eq take_bit_eq_mod unat_mod_distrib)
  have "unat ret < 2 ^ 32" using unsigned_less [of ret] by simp
  then have "unat ret div 2 ^ 16 < 2 ^ 16" by (simp add: less_mult_imp_div_less)
  moreover have "unat ret mod 2 ^ 16 < 2 ^ 16" by simp
  ultimately have "unat ret div 2 ^ 16 + unat ret mod 2 ^ 16 < 2 ^ 32" by simp
  then show ?thesis by (simp add: unat_word_ariths a b)
qed

lemma fold_step_less:
  assumes "0xffff < (ret :: 32 word)"
  shows "unat (drop_bit 16 ret + ucast (ucast ret :: 16 word)) < unat ret"
proof -
  have "2 ^ 16 \<le> unat ret" using assms by (simp add: word_less_nat_alt)
  then have "0 < unat ret div 2 ^ 16" by (simp add: div_greater_zero_iff)
  moreover have "unat ret = (unat ret div 2 ^ 16) * 2 ^ 16 + unat ret mod 2 ^ 16" by (rule div_mult_mod_eq [symmetric])
  moreover have "q + r < q * 2 ^ 16 + r" if "0 < q" for q r :: nat using that by simp
  ultimately show ?thesis unfolding fold_step by metis
qed

function fold_sum :: "32 word \<Rightarrow> 32 word" where
  "fold_sum ret = (if ret > 0xffff then fold_sum (drop_bit 16 ret + ucast (ucast ret :: 16 word)) else ret)"
  by pat_completeness auto
termination by (relation "measure unat") (simp_all add: fold_step_less)

declare fold_sum.simps [simp del]

definition checksum_value :: "internet_checksum \<Rightarrow> 16 word" where
  "checksum_value c = NOT (ucast (fold_sum (ck_sum c)))"

section \<open>What the list of buffers holds\<close>

definition bl_content :: "buffer_list \<Rightarrow> byte list" where
  "bl_content l = drop (bl_skip l) (concat (bl_buffers l))"

text \<open>No buffer is empty and the skip lies inside the first one.\<close>

definition bl_inv :: "buffer_list \<Rightarrow> bool" where
  "bl_inv l \<longleftrightarrow> bl_size l = length (bl_content l) \<and> length (concat (bl_buffers l)) < 2 ^ 64
     \<and> [] \<notin> set (bl_buffers l)
     \<and> (case bl_buffers l of [] \<Rightarrow> bl_skip l = 0 | b # _ \<Rightarrow> bl_skip l < length b)"

lemma BufferList_append:
  "bl_skip l = 0 \<Longrightarrow> bl_size l = length (concat (bl_buffers l)) \<Longrightarrow>
   length (concat (bl_buffers l)) + length (concat bs) < 2 ^ 64 \<Longrightarrow>
   foldl bl_append l bs = \<lparr>bl_size = length (concat (bl_buffers l)) + length (concat bs),
     bl_buffers = bl_buffers l @ bs, bl_skip = 0\<rparr>"
proof (induction bs arbitrary: l)
  case Nil
  then show ?case by simp
next
  case (Cons b bs)
  have "add64 (length (concat (bl_buffers l))) (length b) = length (concat (bl_buffers l)) + length b"
    using Cons.prems by (simp add: wadd_nowrap)
  then show ?case using Cons.IH [of "bl_append l b"] Cons.prems by (simp add: bl_append_def)
qed

lemma BufferList_eq:
  "length (concat bs) < 2 ^ 64 \<Longrightarrow> BufferList bs = \<lparr>bl_size = length (concat bs), bl_buffers = bs, bl_skip = 0\<rparr>"
  using BufferList_append [of "\<lparr>bl_size = 0, bl_buffers = [], bl_skip = 0\<rparr>" bs] by (simp add: BufferList_def)

lemma BufferList_inv:
  "length (concat bs) < 2 ^ 64 \<Longrightarrow> [] \<notin> set bs \<Longrightarrow> bl_inv (BufferList bs) \<and> bl_content (BufferList bs) = concat bs"
  by (cases bs) (auto simp: BufferList_eq bl_inv_def bl_content_def)

lemma bl_remove_spec:
  assumes "bl_inv \<lparr>bl_size = sz, bl_buffers = bs, bl_skip = k\<rparr>"
  shows "\<exists>l'. bl_remove_loop sz bs k len = Inr l' \<and> bl_inv l'
    \<and> bl_content l' = drop len (bl_content \<lparr>bl_size = sz, bl_buffers = bs, bl_skip = k\<rparr>)"
  using assms
proof (induction sz bs k len rule: bl_remove_loop.induct)
  case (1 sz skip len)
  then show ?case by (simp add: bl_inv_def bl_content_def)
next
  case (2 sz b bs k len)
  have inv: "sz = length (drop k b) + length (concat bs)" "k < length b" "[] \<notin> set bs" "b \<noteq> []"
    "length b + length (concat bs) < 2 ^ 64"
    using 2(3) by (auto simp: bl_inv_def bl_content_def)
  show ?case
  proof (cases "len = 0")
    case True
    then show ?thesis using 2(3) by simp
  next
    case False
    define n where "n = min len (length b - k)"
    have n: "0 < n" "n \<le> length b - k" "n \<le> len" using False inv by (auto simp: n_def)
    have sub: "sub64 sz n = sz - n" using inv n by (simp add: wsub_nowrap)
    show ?thesis
    proof (cases "k + n = length b")
      case True
      have i: "bl_inv \<lparr>bl_size = sub64 sz n, bl_buffers = bs, bl_skip = 0\<rparr>"
        using inv True n sub by (cases bs) (auto simp: bl_inv_def bl_content_def)
      have "bl_remove_loop sz (b # bs) k len = bl_remove_loop (sub64 sz n) bs 0 (len - n)"
        using False inv(2) True by (simp add: Let_def n_def [symmetric])
      moreover have "n = length b - k" using True by simp
      then have "drop len (drop k b @ concat bs) = drop (len - n) (concat bs)"
        using n(3) by simp
      ultimately show ?thesis
        using 2(1) [OF False _ n_def refl refl refl True i] inv(2) by (simp add: bl_content_def)
    next
      case no: False
      then have ln: "n = len" "len < length b - k" using n by (auto simp: n_def min_def split: if_splits)
      have i: "bl_inv \<lparr>bl_size = sub64 sz n, bl_buffers = b # bs, bl_skip = k + n\<rparr>"
        using inv ln sub by (auto simp: bl_inv_def bl_content_def)
      have "bl_remove_loop sz (b # bs) k len = Inr \<lparr>bl_size = sub64 sz n, bl_buffers = b # bs, bl_skip = k + n\<rparr>"
        using False inv(2) no ln by (simp add: Let_def n_def [symmetric])
      then show ?thesis using i ln inv(2) by (simp add: bl_content_def add.commute)
    qed
  qed
qed

lemma bl_remove_prefix_spec:
  assumes "bl_inv l"
  obtains l' where "bl_remove_prefix l n = Inr l'" "bl_inv l'" "bl_content l' = drop n (bl_content l)"
proof -
  obtain sz bs k where l: "l = \<lparr>bl_size = sz, bl_buffers = bs, bl_skip = k\<rparr>" by (cases l) auto
  show thesis
    using bl_remove_spec [of sz bs k n] assms that by (auto simp: bl_remove_prefix_def l)
qed

lemma next_byte_spec:
  assumes "bl_inv (p_input p)" "bl_content (p_input p) = b # rest"
  obtains l' where "next_byte p = Inr (b, p\<lparr>p_input := l'\<rparr>)" "bl_inv l'" "bl_content l' = rest"
proof -
  obtain c cs where bs: "bl_buffers (p_input p) = c # cs"
    using assms by (cases "bl_buffers (p_input p)") (auto simp: bl_content_def)
  have k: "bl_skip (p_input p) < length c" using assms(1) bs by (simp add: bl_inv_def)
  then obtain rest' where d: "drop (bl_skip (p_input p)) c = b # rest'"
    using assms(2) bs by (cases "drop (bl_skip (p_input p)) c") (auto simp: bl_content_def)
  have pk: "bl_peek (p_input p) = Inr (b # rest')" using bs k d by (simp add: bl_peek_def)
  obtain l' where "bl_remove_prefix (p_input p) 1 = Inr l'" "bl_inv l'" "bl_content l' = drop 1 (bl_content (p_input p))"
    by (rule bl_remove_prefix_spec [OF assms(1), of 1])
  then show thesis
    using pk assms(2) by (intro that [of l']) (simp_all add: next_byte_def parser_remove_prefix_def)
qed


section \<open>Integers on the wire\<close>

text \<open>
  A parser is good when it has no error and the next bytes \<open>bs\<close> are what is left of the buffer
  in front; the buffers behind it are arbitrary, some of them perhaps empty.
\<close>

definition good :: "parser \<Rightarrow> byte list \<Rightarrow> byte list list \<Rightarrow> bool" where
  "good p bs tail \<longleftrightarrow> \<not> p_error p
     \<and> bl_size (p_input p) = length bs + length (concat tail) \<and> length bs + length (concat tail) < 2 ^ 64
     \<and> (if bs = [] then bl_buffers (p_input p) = tail \<and> bl_skip (p_input p) = 0
        else \<exists>b. bl_buffers (p_input p) = b # tail \<and> bl_skip (p_input p) \<le> length b \<and> drop (bl_skip (p_input p)) b = bs)"

lemma good_Parser:
  assumes "length (concat (b # tail)) < 2 ^ 64" "b \<noteq> []"
  shows "good (Parser (b # tail)) b tail"
  using assms BufferList_eq [OF assms(1)] by (simp add: good_def Parser_def)

lemma good_length: "good p bs tail \<Longrightarrow> bl_size (p_input p) = length bs + length (concat tail)"
  by (simp add: good_def)

lemma bl_remove_loop_0 [simp]:
  "bl_remove_loop sz bs k 0 = Inr \<lparr>bl_size = sz, bl_buffers = bs, bl_skip = k\<rparr>"
  by (cases bs) simp_all

lemma next_byte_good:
  assumes "good p (b # rest) tail"
  obtains p' where "next_byte p = Inr (b, p')" "good p' rest tail"
proof -
  obtain sz bs k where i: "p_input p = \<lparr>bl_size = sz, bl_buffers = bs, bl_skip = k\<rparr>" by (cases "p_input p") auto
  obtain c where g: "\<not> p_error p" "sz = Suc (length rest + length (concat tail))" "sz < 2 ^ 64"
    "bs = c # tail" "k \<le> length c" "drop k c = b # rest"
    using assms by (auto simp: good_def i)
  have "length (drop k c) = Suc (length rest)" using g(6) by simp
  then have k: "length c = Suc (k + length rest)" using g(5) by simp
  have sub: "sub64 sz (Suc 0) = length rest + length (concat tail)" using g(2,3) by (simp add: wsub_nowrap)
  have rst: "drop (Suc k) c = rest" using g(6) by (metis drop_Suc list.sel(3) tl_drop)
  let ?l = "if rest = [] then \<lparr>bl_size = sub64 sz 1, bl_buffers = tail, bl_skip = 0\<rparr>
    else \<lparr>bl_size = sub64 sz 1, bl_buffers = c # tail, bl_skip = Suc k\<rparr>"
  have "bl_remove_loop sz bs k 1 = Inr ?l" using k by (simp add: g(4) Let_def)
  then have "next_byte p = Inr (b, p\<lparr>p_input := ?l\<rparr>)"
    using g(4-6) by (simp add: next_byte_def bl_peek_def i parser_remove_prefix_def bl_remove_prefix_def)
  moreover have "good (p\<lparr>p_input := ?l\<rparr>) rest tail"
    using g(1-3) k sub rst by (auto simp: good_def)
  ultimately show thesis by (rule that)
qed

lemma read_bytes_good:
  assumes "good p (bs @ rest) tail"
  obtains p' where "read_bytes (length bs) out p = Inr (foldl (\<lambda>v b. push_bit 8 v OR ucast b) out bs, p')" "good p' rest tail"
  using assms
proof (induction bs arbitrary: p out thesis)
  case Nil
  then show ?case by simp
next
  case (Cons b bs)
  have "good p (b # (bs @ rest)) tail" using Cons.prems(2) by simp
  then obtain p1 where 1: "next_byte p = Inr (b, p1)" "good p1 (bs @ rest) tail" by (rule next_byte_good)
  obtain p2 where "read_bytes (length bs) (push_bit 8 out OR ucast b) p1 =
      Inr (foldl (\<lambda>v b. push_bit 8 v OR ucast b) (push_bit 8 out OR ucast b) bs, p2)" "good p2 rest tail"
    by (rule Cons.IH [OF _ 1(2)])
  then show ?case using 1(1) by (intro Cons.prems(1) [of p2]) simp_all
qed

lemma length_integer_bytes: "length (integer_bytes (v :: 'a::len word)) = LENGTH('a) div 8"
  by (simp add: integer_bytes_def Let_def)

lemma integer_bytes_simps:
  "integer_bytes (v8 :: 8 word) = [v8]"
  "integer_bytes (v16 :: 16 word) = [ucast (drop_bit 8 v16), ucast v16]"
  "integer_bytes (v32 :: 32 word) = [ucast (drop_bit 24 v32), ucast (drop_bit 16 v32), ucast (drop_bit 8 v32), ucast v32]"
  by (simp_all add: integer_bytes_def upt_rec)

lemma decode16:
  "foldl (\<lambda>v b. push_bit 8 v OR ucast b) 0 (integer_bytes (v :: 16 word)) = v"
  by (rule bit_word_eqI) (auto simp: integer_bytes_simps bit_simps)

lemma decode32:
  "foldl (\<lambda>v b. push_bit 8 v OR ucast b) 0 (integer_bytes (v :: 32 word)) = v" (is "?l = _")
proof (rule bit_word_eqI)
  fix n assume "n < LENGTH(32)"
  then consider "n < 8" | "8 \<le> n" "n < 16" | "16 \<le> n" "n < 24" | "24 \<le> n" "n < 32" by fastforce
  then show "bit ?l n = bit v n" by cases (auto simp: integer_bytes_simps bit_simps)
qed

lemma parser_integer_good:
  fixes v :: "'a::len word"
  assumes "good p (integer_bytes v @ rest) tail"
    and dec: "foldl (\<lambda>v b. push_bit 8 v OR ucast b) 0 (integer_bytes v) = v" and n: "1 < LENGTH('a) div 8"
  obtains p' where "parser_integer old p = Inr (v, p')" "good p' rest tail"
proof -
  have "\<not> LENGTH('a) div 8 > bl_size (p_input p)" using good_length [OF assms(1)] by (simp add: length_integer_bytes)
  then have ck: "check_size p (LENGTH('a) div 8) = p" by (simp add: check_size_def)
  have e: "\<not> p_error p" using assms(1) by (simp add: good_def)
  obtain p' where "read_bytes (length (integer_bytes v)) 0 p = Inr (v, p')" "good p' rest tail"
    using read_bytes_good [OF assms(1)] dec by metis
  then show thesis using that n ck e by (simp add: parser_integer_def Let_def length_integer_bytes)
qed

lemma parser_integer_8:
  assumes "good p (integer_bytes (v :: 8 word) @ rest) tail"
  obtains p' where "parser_integer old p = Inr (v, p')" "good p' rest tail"
proof -
  have g: "good p (v # rest) tail" using assms by (simp add: integer_bytes_simps)
  have "check_size p 1 = p" "\<not> p_error p" using good_length [OF g] g by (simp_all add: check_size_def good_def)
  moreover obtain p' where "next_byte p = Inr (v, p')" "good p' rest tail" by (rule next_byte_good [OF g])
  ultimately show thesis using that by (simp add: parser_integer_def Let_def)
qed

lemma parser_integer_16:
  assumes "good p (integer_bytes (v :: 16 word) @ rest) tail"
  obtains p' where "parser_integer old p = Inr (v, p')" "good p' rest tail"
  by (rule parser_integer_good [OF assms decode16]) simp_all

lemma parser_integer_32:
  assumes "good p (integer_bytes (v :: 32 word) @ rest) tail"
  obtains p' where "parser_integer old p = Inr (v, p')" "good p' rest tail"
  by (rule parser_integer_good [OF assms decode32]) simp_all

lemma parser_integer_error: "p_error p \<Longrightarrow> parser_integer old p = Inr (old, p)"
  by (simp add: parser_integer_def check_size_def Let_def)

lemma parser_integer_short:
  fixes old :: "'a::len word"
  assumes "length bs < LENGTH('a) div 8" "good p bs []"
  shows "parser_integer old p = Inr (old, p\<lparr>p_error := True\<rparr>)"
  using assms good_length [OF assms(2)] by (simp add: parser_integer_def check_size_def Let_def)

text \<open>
  What every parse keeps, with or without an error: the invariant of the buffers. So the
  integer parser never fails.
\<close>

definition sound :: "parser \<Rightarrow> bool" where
  "sound p \<longleftrightarrow> bl_inv (p_input p)"

lemma read_bytes_sound:
  assumes "bl_inv (p_input p)" "n \<le> length (bl_content (p_input p))"
  shows "\<exists>v p'. read_bytes n out p = Inr (v, p') \<and> sound p' \<and> p_error p' = p_error p"
  using assms
proof (induction n arbitrary: p out)
  case 0
  then show ?case by (simp add: sound_def)
next
  case (Suc n)
  then obtain b rest where c: "bl_content (p_input p) = b # rest" by (cases "bl_content (p_input p)") auto
  obtain l' where 1: "next_byte p = Inr (b, p\<lparr>p_input := l'\<rparr>)" "bl_inv l'" "bl_content l' = rest"
    by (rule next_byte_spec [OF Suc.prems(1) c])
  have "n \<le> length (bl_content (p_input (p\<lparr>p_input := l'\<rparr>)))" using Suc.prems(2) c 1(3) by simp
  then obtain v p' where "read_bytes n (push_bit 8 out OR ucast b) (p\<lparr>p_input := l'\<rparr>) = Inr (v, p')" "sound p'"
    "p_error p' = p_error p" using Suc.IH [of "p\<lparr>p_input := l'\<rparr>" "push_bit 8 out OR ucast b"] 1(2) by auto
  then show ?case using 1(1) by simp
qed

lemma parser_integer_sound:
  fixes old :: "'a::len word"
  assumes "sound p" "8 \<le> LENGTH('a)"
  obtains v p' where "parser_integer old p = Inr (v, p')" "sound p'"
    "p_error p \<Longrightarrow> p_error p' \<and> v = old"
proof (cases "p_error p \<or> bl_size (p_input p) < LENGTH('a) div 8")
  case True
  then show thesis using assms that [of old "check_size p (LENGTH('a) div 8)"]
    by (auto simp: parser_integer_def check_size_def Let_def sound_def)
next
  case False
  then have ck: "check_size p (LENGTH('a) div 8) = p" "\<not> p_error p" by (simp_all add: check_size_def)
  have inv: "bl_inv (p_input p)" using assms(1) by (simp add: sound_def)
  have len: "LENGTH('a) div 8 \<le> length (bl_content (p_input p))" using False inv by (simp add: bl_inv_def)
  show thesis
  proof (cases "LENGTH('a) div 8 = 1")
    case True
    then obtain b rest where c: "bl_content (p_input p) = b # rest" using len by (cases "bl_content (p_input p)") auto
    obtain l' where 1: "next_byte p = Inr (b, p\<lparr>p_input := l'\<rparr>)" "bl_inv l'" "bl_content l' = rest"
      by (rule next_byte_spec [OF inv c])
    then show thesis using that [of "ucast b" "p\<lparr>p_input := l'\<rparr>"] ck True
      by (simp add: parser_integer_def Let_def sound_def)
  next
    case no: False
    then show thesis using that read_bytes_sound [OF inv len, of "0 :: 'a word"] ck
      by (auto simp: parser_integer_def Let_def)
  qed
qed

lemma all_remaining_spec:
  assumes "bl_inv (p_input p)"
  obtains bs where "all_remaining p = Inr bs" "concat bs = bl_content (p_input p)"
proof (cases "bl_empty (p_input p)")
  case True
  then show thesis using that [of "[]"] assms by (simp add: all_remaining_def bl_dump_all_def bl_empty_def bl_inv_def)
next
  case False
  then obtain b bs where b: "bl_buffers (p_input p) = b # bs"
    using assms by (cases "bl_buffers (p_input p)") (auto simp: bl_empty_def bl_inv_def bl_content_def)
  then show thesis using that [of "drop (bl_skip (p_input p)) b # bs"] assms False
    by (auto simp: all_remaining_def bl_dump_all_def bl_inv_def bl_content_def)
qed

end
