(* ===== verification/Address.thy ===== *)
theory Address
  imports Wire_Format
begin

text \<open>
  \<open>src/util/address.hh\<close> and \<open>address.cc\<close>: a socket address is the bytes of a
  \<open>sockaddr_storage\<close> and the number of them in use, in the layout of Linux on a little-endian
  machine: the family in the first two bytes, and, for IPv4, the port and the address in network
  byte order behind it. The resolver \<open>getaddrinfo\<close> is a parameter; it returns its error code
  and the first result, if there is one.
\<close>

definition SOCKADDR_STORAGE :: nat where "SOCKADDR_STORAGE = 128"
definition AF_INET :: "16 word" where "AF_INET = 2"
definition AF_INET6 :: "16 word" where "AF_INET6 = 10"
definition AF_PACKET :: "16 word" where "AF_PACKET = 17"

record address =
  addr_size :: nat
  addr_storage :: "byte list"

definition ss_family :: "byte list \<Rightarrow> 16 word" where
  "ss_family st = ucast (st ! 0) OR push_bit 8 (ucast (st ! 1))"

text \<open>The object pointed at is \<open>raw\<close>; reading past it is undefined.\<close>

definition Address_raw :: "byte list \<Rightarrow> nat \<Rightarrow> address outcome" where
  "Address_raw raw len =
     andthen (check (len \<le> SOCKADDR_STORAGE) (Runtime_Error ''invalid sockaddr size'')) (\<lambda>_.
     andthen (memcpy_from (replicate SOCKADDR_STORAGE 0) 0 raw len) (\<lambda>st.
       Inr \<lparr>addr_size = len, addr_storage = st\<rparr>))"

type_synonym resolver = "string \<Rightarrow> string \<Rightarrow> nat \<times> 16 word \<Rightarrow> int \<times> (byte list \<times> nat) option"

definition make_hints :: "nat \<Rightarrow> 16 word \<Rightarrow> nat \<times> 16 word" where
  "make_hints ai_flags ai_family = (ai_flags, ai_family)"

definition Address_lookup :: "resolver \<Rightarrow> string \<Rightarrow> string \<Rightarrow> nat \<times> 16 word \<Rightarrow> address outcome" where
  "Address_lookup getaddrinfo node service hints =
     (let (gai_ret, resolved) = getaddrinfo node service hints
      in andthen (check (gai_ret = 0) (Runtime_Error (''getaddrinfo('' @ node @ '', '' @ service @ '')''))) (\<lambda>_.
         case resolved of
           None \<Rightarrow> Inl (Runtime_Error ''getaddrinfo returned successfully but with no results'')
         | Some (raw, len) \<Rightarrow> Address_raw raw len))"

definition AI_ALL :: nat where "AI_ALL = 0x10"

definition Address_host :: "resolver \<Rightarrow> string \<Rightarrow> string \<Rightarrow> address outcome" where
  "Address_host getaddrinfo hostname service =
     Address_lookup getaddrinfo hostname service (make_hints AI_ALL AF_INET)"

text \<open>\<open>std::to_string\<close> of an unsigned number and \<open>std::stoi\<close> in base ten.\<close>

fun decimal :: "nat \<Rightarrow> string" where
  "decimal n = (if n < 10 then [char_of (48 + n)] else decimal (n div 10) @ [char_of (48 + n mod 10)])"

declare decimal.simps [simp del]

definition is_space :: "char \<Rightarrow> bool" where
  "is_space c \<longleftrightarrow> (of_char c :: nat) \<in> {9, 10, 11, 12, 13, 32}"

definition is_digit :: "char \<Rightarrow> bool" where
  "is_digit c \<longleftrightarrow> 48 \<le> (of_char c :: nat) \<and> (of_char c :: nat) \<le> 57"

definition digits_value :: "string \<Rightarrow> int" where
  "digits_value ds = foldl (\<lambda>v c. 10 * v + (of_char c - 48)) 0 ds"

definition stoi :: "string \<Rightarrow> int outcome" where
  "stoi s =
     (let t = dropWhile is_space s;
          (sign, u) = (case t of [] \<Rightarrow> (1, [])
                        | c # cs \<Rightarrow> if c = CHR ''-'' then (- 1, cs) else if c = CHR ''+'' then (1, cs) else (1, c # cs));
          ds = takeWhile is_digit u;
          v = sign * digits_value ds
      in if ds = [] then Inl (Runtime_Error ''stoi: invalid_argument'')
         else if v < - (2 ^ 31) \<or> 2 ^ 31 \<le> v then Inl (Runtime_Error ''stoi: out_of_range'')
         else Inr v)"

definition AI_NUMERICHOST :: nat where "AI_NUMERICHOST = 0x4"
definition AI_NUMERICSERV :: nat where "AI_NUMERICSERV = 0x400"

definition Address_ip :: "resolver \<Rightarrow> string \<Rightarrow> 16 word \<Rightarrow> address outcome" where
  "Address_ip getaddrinfo ip port =
     Address_lookup getaddrinfo ip (decimal (unat port)) (make_hints (AI_NUMERICHOST + AI_NUMERICSERV) AF_INET)"

text \<open>\<open>getnameinfo\<close>, a parameter too, returns its error code, the host and the service.\<close>

type_synonym name_lookup = "byte list \<Rightarrow> nat \<Rightarrow> int \<times> string \<times> string"

definition ip_port :: "name_lookup \<Rightarrow> address \<Rightarrow> (string \<times> 16 word) outcome" where
  "ip_port getnameinfo a =
     (let (gni_ret, ip, port) = getnameinfo (addr_storage a) (addr_size a)
      in andthen (check (gni_ret = 0) (Runtime_Error ''getnameinfo'')) (\<lambda>_.
         andthen (stoi port) (\<lambda>n. Inr (ip, word_of_int n))))"

definition address_to_string :: "name_lookup \<Rightarrow> address \<Rightarrow> string outcome" where
  "address_to_string getnameinfo a =
     andthen (ip_port getnameinfo a) (\<lambda>(ip, port). Inr (ip @ '':'' @ decimal (unat port)))"

definition SOCKADDR_IN :: nat where "SOCKADDR_IN = 16"

definition ipv4_numeric :: "address \<Rightarrow> 32 word outcome" where
  "ipv4_numeric a =
     (if ss_family (addr_storage a) \<noteq> AF_INET \<or> addr_size a \<noteq> SOCKADDR_IN
      then Inl (Runtime_Error ''ipv4_numeric called on non-IPV4 address'')
      else andthen (memcpy_from (replicate SOCKADDR_IN 0) 0 (addr_storage a) (addr_size a)) (\<lambda>ipv4_addr.
             Inr (foldl (\<lambda>v b. push_bit 8 v OR ucast b) 0 (take 4 (drop 4 ipv4_addr)))))"

definition from_ipv4_numeric :: "32 word \<Rightarrow> address outcome" where
  "from_ipv4_numeric ip_address =
     (let sockaddr_in = [2, 0] @ [0, 0] @ integer_bytes ip_address @ replicate 8 0
      in Address_raw sockaddr_in SOCKADDR_IN)"

definition address_eq :: "address \<Rightarrow> address \<Rightarrow> bool" where
  "address_eq a b \<longleftrightarrow>
     (if addr_size a \<noteq> addr_size b then False
      else take (addr_size a) (addr_storage a) = take (addr_size a) (addr_storage b))"

definition address_neq :: "address \<Rightarrow> address \<Rightarrow> bool" where
  "address_neq a b \<longleftrightarrow> \<not> address_eq a b"

definition address_ip :: "name_lookup \<Rightarrow> address \<Rightarrow> string outcome" where
  "address_ip getnameinfo a = andthen (ip_port getnameinfo a) (\<lambda>p. Inr (fst p))"

definition address_port :: "name_lookup \<Rightarrow> address \<Rightarrow> 16 word outcome" where
  "address_port getnameinfo a = andthen (ip_port getnameinfo a) (\<lambda>p. Inr (snd p))"

definition address_storage_size :: "address \<Rightarrow> nat" where
  "address_storage_size a = addr_size a"

text \<open>The casts to \<open>sockaddr*\<close>: what the pointer leads to are the bytes of the storage.\<close>

definition raw_sockaddr :: "byte list \<Rightarrow> byte list" where
  "raw_sockaddr storage = storage"

definition address_sockaddr :: "address \<Rightarrow> byte list" where
  "address_sockaddr a = raw_sockaddr (addr_storage a)"

text \<open>
  The cast to the type of a family: \<open>sockaddr_in\<close>, \<open>sockaddr_in6\<close> or \<open>sockaddr_ll\<close>.
\<close>

datatype sockaddr_type = Sockaddr_in | Sockaddr_in6 | Sockaddr_ll

fun sockaddr_family :: "sockaddr_type \<Rightarrow> 16 word" where
  "sockaddr_family Sockaddr_in = AF_INET"
| "sockaddr_family Sockaddr_in6 = AF_INET6"
| "sockaddr_family Sockaddr_ll = AF_PACKET"

fun sizeof_sockaddr :: "sockaddr_type \<Rightarrow> nat" where
  "sizeof_sockaddr Sockaddr_in = SOCKADDR_IN"
| "sizeof_sockaddr Sockaddr_in6 = 28"
| "sizeof_sockaddr Sockaddr_ll = 20"

definition address_as :: "sockaddr_type \<Rightarrow> address \<Rightarrow> byte list outcome" where
  "address_as ty a =
     (if sizeof_sockaddr ty < addr_size a \<or> ss_family (addr_storage a) \<noteq> sockaddr_family ty
      then Inl (Runtime_Error ''Address::as() conversion failure'')
      else Inr (take (sizeof_sockaddr ty) (addr_storage a)))"

section \<open>IPv4 addresses\<close>

text \<open>\<open>ipv4_address ip\<close> is the object that \<open>from_ipv4_numeric\<close> builds.\<close>

definition ipv4_address :: "32 word \<Rightarrow> address" where
  "ipv4_address ip = \<lparr>addr_size = 16, addr_storage = [2, 0, 0, 0] @ integer_bytes ip @ replicate 120 0\<rparr>"

lemma from_ipv4_numeric_eq: "from_ipv4_numeric ip = Inr (ipv4_address ip)"
proof -
  have "overwrite (replicate 128 0) 0 (take 16 ([2, 0, 0, 0] @ integer_bytes ip @ replicate 8 (0 :: byte)))
      = [2, 0, 0, 0] @ integer_bytes ip @ replicate 120 0"
    by (simp add: overwrite_def length_integer_bytes flip: replicate_add)
  then show ?thesis
    by (simp add: from_ipv4_numeric_def Address_raw_def SOCKADDR_IN_def SOCKADDR_STORAGE_def memcpy_from_def
        ipv4_address_def length_integer_bytes)
qed

lemma ss_family_ipv4: "ss_family (addr_storage (ipv4_address ip)) = AF_INET"
  by (simp add: ss_family_def ipv4_address_def AF_INET_def)

lemma ipv4_numeric_address: "ipv4_numeric (ipv4_address ip) = Inr ip"
proof -
  have "take 4 (drop 4 (take 16 ([2, 0, 0, 0] @ integer_bytes ip @ replicate 120 0))) = integer_bytes ip"
    by (simp add: length_integer_bytes take_Cons' drop_Cons')
  then show ?thesis using decode32 [of ip]
    by (simp add: ipv4_numeric_def ss_family_ipv4 SOCKADDR_IN_def memcpy_from_def overwrite_def)
      (simp add: ipv4_address_def length_integer_bytes)
qed

lemma ipv4_address_eq_iff: "address_eq (ipv4_address a) (ipv4_address b) \<longleftrightarrow> a = b"
proof
  assume "address_eq (ipv4_address a) (ipv4_address b)"
  then have "integer_bytes a = integer_bytes b"
    by (simp add: address_eq_def ipv4_address_def length_integer_bytes take_Cons')
  then show "a = b" by (metis decode32)
qed (simp add: address_eq_def)

lemma raw_roundtrip:
  assumes "address_storage_size a = SOCKADDR_STORAGE" and "length (addr_storage a) = SOCKADDR_STORAGE"
  shows "Address_raw (address_sockaddr a) (address_storage_size a) = Inr a"
  using assms
  by (cases a) (simp add: Address_raw_def address_sockaddr_def raw_sockaddr_def address_storage_size_def memcpy_from_def overwrite_def)

section \<open>Ports as text\<close>

lemma digit_char: "n < 10 \<Longrightarrow> of_char (char_of (48 + n :: nat)) = (48 + n :: nat)"
  by (simp add: of_char_of)

lemma digit_char_int: "n < 10 \<Longrightarrow> (of_char (char_of (48 + n :: nat)) :: int) = 48 + int n"
  using digit_char [of n] by (metis of_char_of of_nat_of_char of_nat_add of_nat_numeral)

lemma decimal_digits: "decimal n \<noteq> [] \<and> (\<forall>c \<in> set (decimal n). is_digit c)"
proof (induction n rule: decimal.induct)
  case (1 n)
  have d: "m < 10 \<Longrightarrow> is_digit (char_of (48 + m))" for m :: nat by (simp only: is_digit_def digit_char) simp
  show ?case
  proof (cases "n < 10")
    case True
    then show ?thesis using d [of n] by (simp add: decimal.simps [of n])
  next
    case False
    then show ?thesis using 1 [OF False] d [of "n mod 10"] by (simp add: decimal.simps [of n])
  qed
qed

lemma decimal_value: "digits_value (decimal n) = int n"
proof (induction n rule: decimal.induct)
  case (1 n)
  show ?case
  proof (cases "n < 10")
    case True
    then show ?thesis using digit_char_int [of n] by (simp add: decimal.simps [of n] digits_value_def)
  next
    case False
    have "digits_value (decimal n) = 10 * digits_value (decimal (n div 10)) + int (n mod 10)"
      using False digit_char_int [of "n mod 10"] by (simp add: decimal.simps [of n] digits_value_def)
    then show ?thesis using 1 [OF False] by (simp add: zdiv_int zmod_int)
  qed
qed

lemma stoi_decimal:
  assumes "n < 2 ^ 31"
  shows "stoi (decimal n) = Inr (int n)"
proof -
  obtain c cs where d: "decimal n = c # cs" using decimal_digits [of n] by (cases "decimal n") auto
  then have dig: "is_digit c" "\<forall>x \<in> set cs. is_digit x" using decimal_digits [of n] by auto
  have "\<not> is_space c" using dig(1) by (auto simp: is_digit_def is_space_def)
  moreover have "c \<noteq> CHR ''-''" "c \<noteq> CHR ''+''" using dig(1) by (auto simp: is_digit_def)
  moreover have "takeWhile is_digit (c # cs) = c # cs" using dig by simp
  moreover have "digits_value (c # cs) = int n" using decimal_value [of n] d by simp
  moreover have "int n < 2 ^ 31" using assms by simp
  ultimately show ?thesis by (simp add: stoi_def d Let_def)
qed

end
