(* ===== verification/File_Descriptor.thy ===== *)
theory File_Descriptor
  imports Address
begin

text \<open>
  \<open>src/util/file_descriptor.hh\<close>, \<open>file_descriptor.cc\<close>, \<open>socket.hh\<close>, \<open>socket.cc\<close> and
  \<open>src/apps/webget.cc\<close>. The kernel is a parameter: every operation takes the answers of the
  system calls it makes, in their order, as arguments. A handle shares its wrapper with its
  duplicates, and an operation is a function of the wrapper. An exception
  keeps the name of the failed call; theory \<open>Exceptions\<close> adds the text of the error. What the
  destructor writes to \<open>cerr\<close> is left out.
\<close>

section \<open>FDWrapper\<close>

record fd_wrapper =
  fd_number :: int
  fd_eof :: bool
  fd_closed :: bool
  fd_non_blocking :: bool
  fd_read_count :: nat
  fd_write_count :: nat

text \<open>The return value of a system call and \<open>errno\<close> after it.\<close>

type_synonym sys_return = "int \<times> int"

definition EAGAIN :: int where "EAGAIN = 11"
definition EINPROGRESS :: int where "EINPROGRESS = 115"
definition O_NONBLOCK :: "32 word" where "O_NONBLOCK = 0x800"
definition kReadBufferSize :: nat where "kReadBufferSize = 16384"

definition would_block :: "fd_wrapper \<Rightarrow> int \<Rightarrow> bool" where
  "would_block w errno \<longleftrightarrow> fd_non_blocking w \<and> (errno = EAGAIN \<or> errno = EINPROGRESS)"

definition CheckSystemCall :: "fd_wrapper \<Rightarrow> string \<Rightarrow> sys_return \<Rightarrow> int outcome" where
  "CheckSystemCall w s_attempt r =
     (case r of (return_value, errno) \<Rightarrow>
        if return_value \<ge> 0 then Inr return_value
        else if would_block w errno then Inr 0
        else Inl (Runtime_Error s_attempt))"

text \<open>The free function of \<open>exception.hh\<close>, which knows no handle.\<close>

definition check_system_call :: "string \<Rightarrow> sys_return \<Rightarrow> int outcome" where
  "check_system_call s_attempt r =
     (case r of (return_value, errno) \<Rightarrow>
        if return_value \<ge> 0 then Inr return_value else Inl (Runtime_Error s_attempt))"

definition FDWrapper :: "sys_return \<Rightarrow> int \<Rightarrow> fd_wrapper outcome" where
  "FDWrapper fcntl_answer fd =
     (let w = \<lparr>fd_number = fd, fd_eof = False, fd_closed = False, fd_non_blocking = False,
               fd_read_count = 0, fd_write_count = 0\<rparr>
      in if fd < 0 then Inl (Runtime_Error (''invalid fd number:-'' @ decimal (nat (- fd))))
         else andthen (CheckSystemCall w ''fcntl'' fcntl_answer) (\<lambda>flags.
              Inr (w\<lparr>fd_non_blocking := (word_of_int flags AND O_NONBLOCK \<noteq> 0)\<rparr>)))"

definition fd_close :: "sys_return \<Rightarrow> fd_wrapper \<Rightarrow> fd_wrapper outcome" where
  "fd_close close_answer w =
     andthen (CheckSystemCall w ''close'' close_answer) (\<lambda>_. Inr (w\<lparr>fd_eof := True, fd_closed := True\<rparr>))"

text \<open>The destructor swallows the exception.\<close>

definition fd_destruct :: "sys_return \<Rightarrow> fd_wrapper \<Rightarrow> fd_wrapper" where
  "fd_destruct close_answer w =
     (if fd_closed w then w else case fd_close close_answer w of Inl _ \<Rightarrow> w | Inr w' \<Rightarrow> w')"

section \<open>FileDescriptor\<close>

definition register_read :: "fd_wrapper \<Rightarrow> fd_wrapper" where
  "register_read w = w\<lparr>fd_read_count := add32 (fd_read_count w) 1\<rparr>"

definition register_write :: "fd_wrapper \<Rightarrow> fd_wrapper" where
  "register_write w = w\<lparr>fd_write_count := add32 (fd_write_count w) 1\<rparr>"

text \<open>
  \<open>filled n data\<close> is a buffer of \<open>n\<close> zeros into which the kernel has put \<open>data\<close>.
\<close>

definition filled :: "nat \<Rightarrow> byte list \<Rightarrow> byte list" where
  "filled n data = take n (data @ replicate (n - length data) 0)"

definition fd_read :: "sys_return \<times> byte list \<Rightarrow> fd_wrapper \<Rightarrow> (byte list \<times> fd_wrapper) outcome" where
  "fd_read answer w =
     (case answer of ((bytes_read, errno), data) \<Rightarrow>
        let buffer = filled kReadBufferSize data
        in if bytes_read < 0 then
             if would_block w errno then Inr (buffer, w) else Inl (Runtime_Error ''read'')
           else
             let w = register_read w;
                 w = (if bytes_read = 0 then w\<lparr>fd_eof := True\<rparr> else w)
             in if bytes_read > int (length buffer)
                then Inl (Runtime_Error ''read() read more than requested'')
                else Inr (vec_resize 0 buffer (nat bytes_read), w))"

text \<open>
  The loop that shortens the buffers after a vectored read; \<open>buffers\<close> are the buffers as the
  kernel left them. \<open>std::string::resize\<close> throws \<open>length_error\<close> past the greatest size of
  a string.
\<close>

definition string_max_size :: nat where "string_max_size = 2 ^ 63 - 1"

definition string_resize :: "byte list \<Rightarrow> nat \<Rightarrow> byte list outcome" where
  "string_resize s n =
     (if n \<le> string_max_size then Inr (vec_resize 0 s n) else Inl (Runtime_Error ''length_error''))"

fun trim_buffers :: "nat \<Rightarrow> byte list list \<Rightarrow> byte list list outcome" where
  "trim_buffers remaining_size [] = Inr []"
| "trim_buffers remaining_size (buf # bufs) =
     (if remaining_size \<le> length buf then
        andthen (trim_buffers (sub64 remaining_size (length buf)) bufs) (\<lambda>bs. Inr (buf # bs))
      else if remaining_size = 0 then andthen (trim_buffers remaining_size bufs) (\<lambda>bs. Inr ([] # bs))
      else
        andthen (string_resize buf remaining_size) (\<lambda>b.
        andthen (trim_buffers 0 bufs) (\<lambda>bs. Inr (b # bs))))"

fun scatter :: "byte list \<Rightarrow> byte list list \<Rightarrow> byte list list" where
  "scatter data [] = []"
| "scatter data (b # bs) = (take (length b) data @ drop (length data) b) # scatter (drop (length b) data) bs"

definition total_length :: "byte list list \<Rightarrow> nat" where
  "total_length bs = foldl (\<lambda>n b. add64 n (length b)) 0 bs"

definition fd_readv ::
  "sys_return \<times> byte list \<Rightarrow> fd_wrapper \<Rightarrow> byte list list \<Rightarrow> (byte list list \<times> fd_wrapper) outcome" where
  "fd_readv answer w buffers =
     (case answer of ((bytes_read, errno), data) \<Rightarrow>
        if buffers = [] then Inr (buffers, w)
        else
          let buffers = butlast buffers @ [replicate kReadBufferSize 0];
              total_size = total_length buffers;
              contents = scatter data buffers
          in if bytes_read < 0 then
               if would_block w errno then Inr (contents, w) else Inl (Runtime_Error ''read'')
             else
               let w = register_read w
               in if bytes_read > int total_size then Inl (Runtime_Error ''read() read more than requested'')
                  else andthen (trim_buffers (nat bytes_read) contents) (\<lambda>buffers. Inr (buffers, w)))"

definition fd_writev :: "sys_return \<Rightarrow> fd_wrapper \<Rightarrow> byte list list \<Rightarrow> (nat \<times> fd_wrapper) outcome" where
  "fd_writev answer w buffers =
     (let total_size = total_length buffers
      in andthen (CheckSystemCall w ''writev'' answer) (\<lambda>bytes_written.
         let w = register_write w
         in if bytes_written = 0 \<and> total_size \<noteq> 0
            then Inl (Runtime_Error ''write returned 0 given non-empty input buffer'')
            else if bytes_written > int total_size
            then Inl (Runtime_Error ''write wrote more than length of input buffer'')
            else Inr (nat bytes_written, w)))"

definition fd_write :: "sys_return \<Rightarrow> fd_wrapper \<Rightarrow> byte list \<Rightarrow> (nat \<times> fd_wrapper) outcome" where
  "fd_write answer w buffer = fd_writev answer w [buffer]"

text \<open>The result also says which flags the second call to \<open>fcntl\<close> is given.\<close>

definition set_blocking :: "sys_return \<Rightarrow> sys_return \<Rightarrow> fd_wrapper \<Rightarrow> bool \<Rightarrow> (32 word \<times> fd_wrapper) outcome" where
  "set_blocking get_answer set_answer w blocking =
     andthen (CheckSystemCall w ''fcntl'' get_answer) (\<lambda>f.
     let flags = word_of_int f :: 32 word;
         flags = (if blocking then flags XOR (flags AND O_NONBLOCK) else flags OR O_NONBLOCK)
     in andthen (CheckSystemCall w ''fcntl'' set_answer) (\<lambda>_.
        Inr (flags, w\<lparr>fd_non_blocking := \<not> blocking\<rparr>)))"

section \<open>Sockets\<close>

definition SOCK_STREAM :: int where "SOCK_STREAM = 1"
definition SOCK_DGRAM :: int where "SOCK_DGRAM = 2"

definition Socket :: "sys_return \<Rightarrow> sys_return \<Rightarrow> fd_wrapper outcome" where
  "Socket socket_answer fcntl_answer =
     andthen (check_system_call ''socket'' socket_answer) (\<lambda>fd. FDWrapper fcntl_answer fd)"

text \<open>The sockets one can open; the kernel's \<open>socket\<close> is a function of the domain, the type and the protocol.\<close>

type_synonym socket_kernel = "int \<Rightarrow> int \<Rightarrow> int \<Rightarrow> sys_return"

definition AF_PACKET :: int where "AF_PACKET = 17"

definition TCPSocket :: "socket_kernel \<Rightarrow> sys_return \<Rightarrow> fd_wrapper outcome" where
  "TCPSocket sys_socket fcntl_answer = Socket (sys_socket (uint AF_INET) SOCK_STREAM 0) fcntl_answer"

definition UDPSocket :: "socket_kernel \<Rightarrow> sys_return \<Rightarrow> fd_wrapper outcome" where
  "UDPSocket sys_socket fcntl_answer = Socket (sys_socket (uint AF_INET) SOCK_DGRAM 0) fcntl_answer"

definition PacketSocket :: "socket_kernel \<Rightarrow> sys_return \<Rightarrow> int \<Rightarrow> int \<Rightarrow> fd_wrapper outcome" where
  "PacketSocket sys_socket fcntl_answer ty protocol = Socket (sys_socket AF_PACKET ty protocol) fcntl_answer"

text \<open>The answer to \<open>getsockopt\<close>: its return, the value and the length written.\<close>

type_synonym option_answer = "sys_return \<times> int \<times> nat"

definition getsockopt :: "option_answer \<Rightarrow> fd_wrapper \<Rightarrow> (int \<times> nat) outcome" where
  "getsockopt answer w =
     (case answer of (r, option_value, optlen) \<Rightarrow>
        andthen (CheckSystemCall w ''getsockopt'' r) (\<lambda>_. Inr (option_value, optlen)))"

text \<open>
  The kernel's \<open>setsockopt\<close> is a function of the descriptor, the level, the option and the bytes of
  the value; an \<open>int\<close> is stored least significant byte first.
\<close>

type_synonym option_kernel = "int \<Rightarrow> int \<Rightarrow> int \<Rightarrow> byte list \<Rightarrow> sys_return"

definition setsockopt :: "option_kernel \<Rightarrow> int \<Rightarrow> int \<Rightarrow> byte list \<Rightarrow> fd_wrapper \<Rightarrow> fd_wrapper outcome" where
  "setsockopt sys_setsockopt level option_name option_val w =
     andthen (CheckSystemCall w ''setsockopt'' (sys_setsockopt (fd_number w) level option_name option_val)) (\<lambda>_. Inr w)"

definition SOL_SOCKET :: int where "SOL_SOCKET = 1"
definition SO_REUSEADDR :: int where "SO_REUSEADDR = 2"
definition SO_BINDTODEVICE :: int where "SO_BINDTODEVICE = 25"
definition SOL_PACKET :: int where "SOL_PACKET = 263"
definition PACKET_ADD_MEMBERSHIP :: int where "PACKET_ADD_MEMBERSHIP = 1"

definition set_reuseaddr :: "option_kernel \<Rightarrow> fd_wrapper \<Rightarrow> fd_wrapper outcome" where
  "set_reuseaddr sys_setsockopt w = setsockopt sys_setsockopt SOL_SOCKET SO_REUSEADDR [1, 0, 0, 0] w"

definition bind_to_device :: "option_kernel \<Rightarrow> string \<Rightarrow> fd_wrapper \<Rightarrow> fd_wrapper outcome" where
  "bind_to_device sys_setsockopt device_name w = setsockopt sys_setsockopt SOL_SOCKET SO_BINDTODEVICE (map of_char device_name) w"

definition verify_option :: "string \<Rightarrow> int \<Rightarrow> option_answer \<Rightarrow> fd_wrapper \<Rightarrow> unit outcome" where
  "verify_option msg expected answer w =
     andthen (getsockopt answer w) (\<lambda>(actual_value, len).
     check (len = 4 \<and> actual_value = expected) (Runtime_Error msg))"

definition Socket_from_fd ::
  "option_answer \<Rightarrow> option_answer \<Rightarrow> option_answer \<Rightarrow> fd_wrapper \<Rightarrow> int \<Rightarrow> int \<Rightarrow> int \<Rightarrow> fd_wrapper outcome" where
  "Socket_from_fd domain_answer type_answer protocol_answer w domain ty protocol =
     andthen (verify_option ''socket domain mismatch'' domain domain_answer w) (\<lambda>_.
     andthen (verify_option ''socket type mismatch'' ty type_answer w) (\<lambda>_.
     andthen (verify_option ''socket protocol mismatch'' protocol protocol_answer w) (\<lambda>_. Inr w)))"

text \<open>\<open>getsockname\<close> and \<open>getpeername\<close> answer with the bytes of the address and their number.\<close>

definition get_address :: "string \<Rightarrow> sys_return \<times> byte list \<times> nat \<Rightarrow> fd_wrapper \<Rightarrow> address outcome" where
  "get_address name_of_function answer w =
     (case answer of (r, raw, len) \<Rightarrow>
        andthen (CheckSystemCall w name_of_function r) (\<lambda>_.
        Address_raw (take SOCKADDR_STORAGE (raw @ replicate SOCKADDR_STORAGE 0)) len))"

definition local_address :: "sys_return \<times> byte list \<times> nat \<Rightarrow> fd_wrapper \<Rightarrow> address outcome" where
  "local_address answer w = get_address ''getsockname'' answer w"

definition peer_address :: "sys_return \<times> byte list \<times> nat \<Rightarrow> fd_wrapper \<Rightarrow> address outcome" where
  "peer_address answer w = get_address ''getpeername'' answer w"

text \<open>
  The membership request holds the index of the interface, which is in the bytes 4 to 7 of a
  \<open>sockaddr_ll\<close>, the type \<open>PACKET_MR_PROMISC\<close>, and no address.
\<close>

definition set_promiscuous ::
  "option_kernel \<Rightarrow> sys_return \<times> byte list \<times> nat \<Rightarrow> fd_wrapper \<Rightarrow> fd_wrapper outcome" where
  "set_promiscuous sys_setsockopt name_answer w =
     andthen (local_address name_answer w) (\<lambda>a.
     andthen (address_as Sockaddr_ll a) (\<lambda>sockaddr.
     setsockopt sys_setsockopt SOL_PACKET PACKET_ADD_MEMBERSHIP
       (take 4 (drop 4 sockaddr) @ [1, 0] @ [0, 0] @ replicate 8 0) w))"

definition socket_bind :: "sys_return \<Rightarrow> fd_wrapper \<Rightarrow> fd_wrapper outcome" where
  "socket_bind answer w = andthen (CheckSystemCall w ''bind'' answer) (\<lambda>_. Inr w)"

definition socket_connect :: "sys_return \<Rightarrow> fd_wrapper \<Rightarrow> fd_wrapper outcome" where
  "socket_connect answer w = andthen (CheckSystemCall w ''connect'' answer) (\<lambda>_. Inr w)"

definition SHUT_RD :: int where "SHUT_RD = 0"
definition SHUT_WR :: int where "SHUT_WR = 1"
definition SHUT_RDWR :: int where "SHUT_RDWR = 2"

definition socket_shutdown :: "sys_return \<Rightarrow> fd_wrapper \<Rightarrow> int \<Rightarrow> fd_wrapper outcome" where
  "socket_shutdown answer w how =
     andthen (CheckSystemCall w ''shutdown'' answer) (\<lambda>_.
       if how = SHUT_RD then Inr (register_read w)
       else if how = SHUT_WR then Inr (register_write w)
       else if how = SHUT_RDWR then Inr (register_write (register_read w))
       else Inl (Runtime_Error ''Socket::shutdown() called with invalid `how`''))"

definition socket_recv ::
  "sys_return \<times> byte list \<times> byte list \<times> nat \<Rightarrow> fd_wrapper \<Rightarrow> (address \<times> byte list \<times> fd_wrapper) outcome" where
  "socket_recv answer w =
     (case answer of (r, data, raw, fromlen) \<Rightarrow>
        let payload = filled kReadBufferSize data
        in andthen (CheckSystemCall w ''recvfrom'' r) (\<lambda>recv_len.
           andthen (check (recv_len \<le> int (length payload)) (Runtime_Error ''recvfrom (oversized datagram)'')) (\<lambda>_.
           andthen (Address_raw (take SOCKADDR_STORAGE (raw @ replicate SOCKADDR_STORAGE 0)) fromlen) (\<lambda>source_address.
           Inr (source_address, vec_resize 0 payload (nat recv_len), register_read w)))))"

definition socket_sendto :: "sys_return \<Rightarrow> fd_wrapper \<Rightarrow> fd_wrapper outcome" where
  "socket_sendto answer w = andthen (CheckSystemCall w ''sendto'' answer) (\<lambda>_. Inr (register_write w))"

definition socket_send :: "sys_return \<Rightarrow> fd_wrapper \<Rightarrow> fd_wrapper outcome" where
  "socket_send answer w = andthen (CheckSystemCall w ''send'' answer) (\<lambda>_. Inr (register_write w))"

definition socket_listen :: "sys_return \<Rightarrow> fd_wrapper \<Rightarrow> fd_wrapper outcome" where
  "socket_listen answer w = andthen (CheckSystemCall w ''listen'' answer) (\<lambda>_. Inr w)"

text \<open>The socket of an accepted connection is checked against protocol zero.\<close>

definition TCPSocket_from_fd ::
  "option_answer \<Rightarrow> option_answer \<Rightarrow> option_answer \<Rightarrow> fd_wrapper \<Rightarrow> fd_wrapper outcome" where
  "TCPSocket_from_fd domain_answer type_answer protocol_answer w =
     Socket_from_fd domain_answer type_answer protocol_answer w (uint AF_INET) SOCK_STREAM 0"

definition UDPSocket_from_fd ::
  "option_answer \<Rightarrow> option_answer \<Rightarrow> option_answer \<Rightarrow> fd_wrapper \<Rightarrow> fd_wrapper outcome" where
  "UDPSocket_from_fd domain_answer type_answer protocol_answer w =
     Socket_from_fd domain_answer type_answer protocol_answer w (uint AF_INET) SOCK_DGRAM 0"

definition socket_accept ::
  "sys_return \<Rightarrow> sys_return \<Rightarrow> option_answer \<Rightarrow> option_answer \<Rightarrow> option_answer \<Rightarrow> fd_wrapper \<Rightarrow>
   (fd_wrapper \<times> fd_wrapper) outcome" where
  "socket_accept accept_answer fcntl_answer domain_answer type_answer protocol_answer w =
     (let w = register_read w
      in andthen (CheckSystemCall w ''accept'' accept_answer) (\<lambda>fd.
         andthen (FDWrapper fcntl_answer fd) (\<lambda>new.
         andthen (TCPSocket_from_fd domain_answer type_answer protocol_answer new) (\<lambda>new. Inr (new, w)))))"

definition throw_if_error :: "option_answer \<Rightarrow> fd_wrapper \<Rightarrow> unit outcome" where
  "throw_if_error answer w =
     andthen (getsockopt answer w) (\<lambda>(socket_error, len).
     andthen (check (len = 4) (Runtime_Error (''unexpected length from getsockopt: '' @ decimal len))) (\<lambda>_.
     check (socket_error = 0) (Runtime_Error ''socket error'')))"

section \<open>webget\<close>

text \<open>
  The loop that prints the response: the answers to its reads, in order. \<open>None\<close> when they run
  out before the end of the stream.
\<close>

fun print_response :: "(sys_return \<times> byte list) list \<Rightarrow> fd_wrapper \<Rightarrow> (byte list \<times> fd_wrapper) outcome option" where
  "print_response answers w =
     (if fd_eof w then Some (Inr ([], w))
      else case answers of
        [] \<Rightarrow> None
      | a # as \<Rightarrow>
          (case fd_read a w of
             Inl e \<Rightarrow> Some (Inl e)
           | Inr (response, w') \<Rightarrow>
               map_option (\<lambda>r. andthen r (\<lambda>(out, w''). Inr (response @ out, w''))) (print_response as w')))"

declare print_response.simps [simp del]

definition crlf :: string where "crlf = [CHR 0x0D, CHR 0x0A]"

definition http_request :: "string \<Rightarrow> string \<Rightarrow> string" where
  "http_request host path =
     ''GET '' @ path @ '' HTTP/1.1'' @ crlf @ ''Host: '' @ host @ crlf @ ''Connection: close'' @ crlf @ crlf"

record web_answers =
  socket_answer :: sys_return
  fcntl_answer :: sys_return
  connect_answer :: sys_return
  write_answer :: sys_return
  read_answers :: "(sys_return \<times> byte list) list"

text \<open>What is printed; the number of bytes of the request that were written is not looked at.\<close>

definition get_URL :: "resolver \<Rightarrow> web_answers \<Rightarrow> string \<Rightarrow> string \<Rightarrow> byte list outcome option" where
  "get_URL getaddrinfo k host path =
     (let opened =
            andthen (Socket (socket_answer k) (fcntl_answer k)) (\<lambda>tcp_socket.
            andthen (Address_host getaddrinfo host ''http'') (\<lambda>server_address.
            andthen (socket_connect (connect_answer k) tcp_socket) (\<lambda>tcp_socket.
            andthen (fd_write (write_answer k) tcp_socket (map of_char (http_request host path))) (\<lambda>(_, tcp_socket).
            Inr tcp_socket))))
      in case opened of
           Inl e \<Rightarrow> Some (Inl e)
         | Inr tcp_socket \<Rightarrow>
             map_option (\<lambda>r. andthen r (\<lambda>(printed, _). Inr printed)) (print_response (read_answers k) tcp_socket))"

text \<open>
  The program itself: \<open>argc\<close> is the number of arguments, the name of the program among them. Every
  exception ends in \<open>EXIT_FAILURE\<close>.
\<close>

datatype exit_status = Aborted | Exit nat

definition webget_main :: "resolver \<Rightarrow> web_answers \<Rightarrow> string list \<Rightarrow> exit_status outcome option" where
  "webget_main getaddrinfo k args =
     (if args = [] then Some (Inr Aborted)
      else if length args \<noteq> 3 then Some (Inr (Exit 1))
      else map_option (\<lambda>r. case r of
               Inr _ \<Rightarrow> Inr (Exit 0)
             | Inl (Runtime_Error e) \<Rightarrow> Inr (Exit 1)
             | Inl e \<Rightarrow> Inl e)
             (get_URL getaddrinfo k (args ! 1) (args ! 2)))"

end
