(* ===== verification/Exceptions.thy ===== *)
theory Exceptions
  imports File_Descriptor
begin

text \<open>
  \<open>src/util/exception.hh\<close> and the error category of \<open>src/util/address.cc\<close>: what the exceptions of the
  wrappers say. The other theories keep of an exception the name of the attempt that failed;
  this one adds the text of the error. What the C library says about an error number is an
  argument (\<open>strerror\<close>, \<open>gai_strerror\<close>), and so is its demangler.
\<close>

section \<open>Error categories\<close>

datatype error_category = System_category | Gai_error_category

definition category_name :: "error_category \<Rightarrow> string" where
  "category_name c = (case c of System_category \<Rightarrow> ''system'' | Gai_error_category \<Rightarrow> ''gai_error_category'')"

record c_library =
  strerror :: "int \<Rightarrow> string"
  gai_strerror :: "int \<Rightarrow> string"

definition category_message :: "c_library \<Rightarrow> error_category \<Rightarrow> int \<Rightarrow> string" where
  "category_message lib c return_value =
     (case c of System_category \<Rightarrow> strerror lib return_value | Gai_error_category \<Rightarrow> gai_strerror lib return_value)"

section \<open>Exceptions\<close>

text \<open>\<open>std::system_error::what\<close> is, in the GNU library, the message of the code in its category.\<close>

record tagged_error =
  te_category :: error_category
  attempt_and_error :: string
  te_error_code :: int

definition Tagged_error :: "c_library \<Rightarrow> error_category \<Rightarrow> string \<Rightarrow> int \<Rightarrow> tagged_error" where
  "Tagged_error lib category s_attempt error_code =
     \<lparr>te_category = category,
      attempt_and_error = s_attempt @ '': '' @ category_message lib category error_code,
      te_error_code = error_code\<rparr>"

definition tagged_error_what :: "tagged_error \<Rightarrow> string" where
  "tagged_error_what e = attempt_and_error e"

definition tagged_error_code :: "tagged_error \<Rightarrow> int" where
  "tagged_error_code e = te_error_code e"

definition unix_error :: "c_library \<Rightarrow> string \<Rightarrow> int \<Rightarrow> tagged_error" where
  "unix_error lib s_attempt s_errno = Tagged_error lib System_category s_attempt s_errno"

text \<open>The exception that the failing call throws, from \<open>CheckSystemCall\<close> and from the resolver.\<close>

definition system_call_error :: "c_library \<Rightarrow> string \<Rightarrow> sys_return \<Rightarrow> tagged_error + int" where
  "system_call_error lib s_attempt r =
     (case r of (return_value, errno) \<Rightarrow>
        if return_value \<ge> 0 then Inr return_value else Inl (unix_error lib s_attempt errno))"

definition resolver_error :: "c_library \<Rightarrow> string \<Rightarrow> string \<Rightarrow> int \<Rightarrow> tagged_error option" where
  "resolver_error lib node service gai_ret =
     (if gai_ret \<noteq> 0
      then Some (Tagged_error lib Gai_error_category (''getaddrinfo('' @ node @ '', '' @ service @ '')'') gai_ret)
      else None)"

section \<open>Helpers\<close>

text \<open>A pointer is an optional object.\<close>

definition notnull :: "string \<Rightarrow> 'a option \<Rightarrow> 'a outcome" where
  "notnull context x =
     (case x of Some p \<Rightarrow> Inr p | None \<Rightarrow> Inl (Runtime_Error (context @ '': returned null pointer'')))"

text \<open>The demangler answers with a status and a string, if any; a string made of no characters at all is undefined.\<close>

definition demangle :: "(string \<Rightarrow> int \<times> string option) \<Rightarrow> string \<Rightarrow> string outcome" where
  "demangle cxa_demangle name =
     (case cxa_demangle name of (status, res) \<Rightarrow>
        if status \<noteq> 0 then Inl (Runtime_Error ''cxa_demangle'')
        else case res of None \<Rightarrow> Inl Undefined | Some s \<Rightarrow> Inr s)"

section \<open>What an exception tells\<close>

text \<open>The exception kept by the other theories is the attempt of the one thrown.\<close>

definition attempt_of :: "c_library \<Rightarrow> tagged_error \<Rightarrow> string" where
  "attempt_of lib e = take (length (tagged_error_what e)
     - length ('': '' @ category_message lib (te_category e) (tagged_error_code e))) (tagged_error_what e)"

lemma attempt_of_tagged: "attempt_of lib (Tagged_error lib c s n) = s"
  by (simp add: attempt_of_def Tagged_error_def tagged_error_what_def tagged_error_code_def)

theorem system_call_error_abstracts:
  "check_system_call s r = (case system_call_error lib s r of
     Inl e \<Rightarrow> Inl (Runtime_Error (attempt_of lib e)) | Inr v \<Rightarrow> Inr v)"
  by (simp add: check_system_call_def system_call_error_def unix_error_def attempt_of_tagged split: prod.split)

theorem lookup_fails_with:
  assumes "getaddrinfo node service hints = (gai_ret, resolved)"
    and "resolver_error lib node service gai_ret = Some e"
  shows "Address_lookup getaddrinfo node service hints = Inl (Runtime_Error (attempt_of lib e))"
    and "tagged_error_code e = gai_ret" and "category_name (te_category e) = ''gai_error_category''"
proof -
  have e: "e = Tagged_error lib Gai_error_category (''getaddrinfo('' @ node @ '', '' @ service @ '')'') gai_ret" "gai_ret \<noteq> 0"
    using assms(2) by (simp_all add: resolver_error_def split: if_splits)
  show "tagged_error_code e = gai_ret" "category_name (te_category e) = ''gai_error_category''"
    by (simp_all add: e(1) Tagged_error_def tagged_error_code_def category_name_def)
  show "Address_lookup getaddrinfo node service hints = Inl (Runtime_Error (attempt_of lib e))"
    unfolding e(1) attempt_of_tagged using assms(1) e(2) by (simp add: Address_lookup_def)
qed

end
