(* ===== verification/Shared_Buffer.thy ===== *)
theory Shared_Buffer
  imports TCP_Properties
begin

text \<open>
  \<open>src/util/buffer.hh\<close>: a \<open>Buffer\<close> is a shared pointer to a string, so the copies of a segment
  share its payload. The other theories read a buffer as the list of its bytes; this one keeps
  the strings in a store, a buffer being the index of its string, and says what that reading
  leaves out: \<open>TCPReceiver::receive\<close> takes the payload with \<open>release\<close>, which moves the string out of
  every copy. A string that was moved from is empty, as the constructor of \<open>std::string\<close> in the GNU
  library leaves it.
\<close>

section \<open>Buffers\<close>

type_synonym string_store = "byte list list"
type_synonym buffer_ref = nat

definition Buffer :: "byte list \<Rightarrow> string_store \<Rightarrow> buffer_ref \<times> string_store" where
  "Buffer str st = (length st, st @ [str])"

definition buffer_view :: "string_store \<Rightarrow> buffer_ref \<Rightarrow> byte list outcome" where
  "buffer_view st b = vec_at st b"

definition buffer_size :: "string_store \<Rightarrow> buffer_ref \<Rightarrow> nat outcome" where
  "buffer_size st b = andthen (vec_at st b) (\<lambda>s. Inr (length s))"

definition buffer_empty :: "string_store \<Rightarrow> buffer_ref \<Rightarrow> bool outcome" where
  "buffer_empty st b = andthen (vec_at st b) (\<lambda>s. Inr (s = []))"

text \<open>\<open>release\<close> where its result initialises a string: the string is moved out.\<close>

definition buffer_release :: "string_store \<Rightarrow> buffer_ref \<Rightarrow> (byte list \<times> string_store) outcome" where
  "buffer_release st b =
     andthen (vec_at st b) (\<lambda>s.
     andthen (vec_put st b []) (\<lambda>st'. Inr (s, st')))"

lemma release_eq: "b < length st \<Longrightarrow> buffer_release st b = Inr (st ! b, st[b := []])"
  by (simp add: buffer_release_def)

lemma new_buffer_is_fresh:
  "Buffer str st = (b, st') \<Longrightarrow> buffer_view st' b = Inr str \<and> (\<forall>c < length st. c \<noteq> b \<and> buffer_view st' c = buffer_view st c)"
  by (auto simp: Buffer_def buffer_view_def nth_append)

section \<open>Segments that share their payload\<close>

record shared_message =
  sm_seqno :: wrap32
  sm_SYN :: bool
  sm_payload :: buffer_ref
  sm_FIN :: bool

definition message_view :: "string_store \<Rightarrow> shared_message \<Rightarrow> tcp_sender_message outcome" where
  "message_view st m = andthen (buffer_view st (sm_payload m)) (\<lambda>s.
     Inr \<lparr>seqno = sm_seqno m, SYN = sm_SYN m, payload = s, FIN = sm_FIN m\<rparr>)"

definition receive_shared ::
  "tcp_receiver \<Rightarrow> shared_message \<Rightarrow> string_store \<Rightarrow> reassembler \<Rightarrow> byte_stream \<Rightarrow>
   (tcp_receiver \<times> reassembler \<times> byte_stream \<times> string_store) outcome" where
  "receive_shared rcv m st reasm inbound =
     (let rcv1 = (if sm_SYN m then rcv\<lparr>initial_seq_num := Some (sm_seqno m)\<rparr> else rcv);
          sq = (if sm_SYN m then wrap32_plus (sm_seqno m) 1 else sm_seqno m)
      in case initial_seq_num rcv1 of
           None \<Rightarrow> Inr (rcv1, reasm, inbound, st)
         | Some zero_point \<Rightarrow>
             let rcv2 = rcv1\<lparr>meet_FIN := meet_FIN rcv1 \<or> sm_FIN m\<rparr>
             in andthen (buffer_release st (sm_payload m)) (\<lambda>(data, st').
                andthen (reassembler_insert reasm
                           (sub64 (unwrap_abs sq zero_point (getFirstUnassembledIndex reasm)) 1)
                           data (sm_FIN m) inbound) (\<lambda>(reasm', inbound').
                Inr (rcv2\<lparr>rcv_finished := rcv_finished rcv2 \<or> (meet_FIN rcv2 \<and> is_closed inbound'),
                          first_unassembled_index := getFirstUnassembledIndex reasm'\<rparr>,
                     reasm', inbound', st'))))"

definition emptied :: "string_store \<Rightarrow> tcp_receiver \<Rightarrow> shared_message \<Rightarrow> string_store" where
  "emptied st rcv m = (if sm_SYN m \<or> initial_seq_num rcv \<noteq> None then st[sm_payload m := []] else st)"

lemma receive_shared_eq:
  assumes "message_view st m = Inr v"
  shows "receive_shared rcv m st reasm inbound =
    andthen (tcp_receiver_receive rcv v reasm inbound) (\<lambda>(rcv', reasm', inbound'). Inr (rcv', reasm', inbound', emptied st rcv m))"
proof -
  have b: "sm_payload m < length st" and v: "v = \<lparr>seqno = sm_seqno m, SYN = sm_SYN m, payload = st ! sm_payload m, FIN = sm_FIN m\<rparr>"
    using assms by (auto simp: message_view_def buffer_view_def vec_at_def split: if_splits)
  show ?thesis
    by (cases "sm_SYN m"; cases "initial_seq_num rcv")
      (auto simp: receive_shared_def tcp_receiver_receive_def v release_eq [OF b] emptied_def Let_def
        andthen_def split: sum.split)
qed

lemma view_after_release:
  assumes "message_view st x = Inr y" and "b = sm_payload m"
  shows "message_view (st[b := []]) x = Inr (if sm_payload x = b then y\<lparr>payload := []\<rparr> else y)"
  using assms by (auto simp: message_view_def buffer_view_def vec_at_def nth_list_update split: if_splits)

section \<open>Properties\<close>

text \<open>
  \<open>C27\<close>: the reading of a buffer as its bytes is right for the receiver, whose new state is that of
  \<open>tcp_receiver_receive\<close> on the bytes; and receiving takes the payload out of every other copy of
  the segment, the one that a sender keeps for retransmission among them, even when the receiver
  discards the bytes, while segments with other buffers stay as they are.
\<close>

theorem release_empties_every_copy:
  assumes "message_view st m = Inr v" and "tcp_receiver_receive rcv v reasm inbound = Inr (rcv', reasm', inbound')"
  shows "\<exists>st'. receive_shared rcv m st reasm inbound = Inr (rcv', reasm', inbound', st')
    \<and> (\<forall>x y. message_view st x = Inr y \<longrightarrow>
        message_view st' x = Inr (if sm_payload x = sm_payload m \<and> (SYN v \<or> initial_seq_num rcv \<noteq> None)
          then y\<lparr>payload := []\<rparr> else y))"
proof (intro exI conjI allI impI)
  show "receive_shared rcv m st reasm inbound = Inr (rcv', reasm', inbound', emptied st rcv m)"
    by (simp add: receive_shared_eq [OF assms(1)] assms(2))
  fix x y
  assume x: "message_view st x = Inr y"
  have "SYN v = sm_SYN m" using assms(1) by (auto simp: message_view_def andthen_eq_Inr_iff)
  then show "message_view (emptied st rcv m) x = Inr (if sm_payload x = sm_payload m \<and> (SYN v \<or> initial_seq_num rcv \<noteq> None)
      then y\<lparr>payload := []\<rparr> else y)"
    using x view_after_release [OF x refl, of m] by (auto simp: emptied_def)
qed

text \<open>
  In the witness the window of the receiver is closed: the byte is discarded, and what the sender
  would send again has no payload any more.
\<close>

theorem release_empties_every_copy_witness:
  "\<exists>rcv r out rcv' r' out' st'.
     tcp_receiver_receive TCPReceiver \<lparr>seqno = wrap_abs 0 (Wrap32 0), SYN = True, payload = [65], FIN = False\<rparr> Reassembler (ByteStream 1)
       = Inr (rcv, r, out)
   \<and> receive_shared rcv \<lparr>sm_seqno = wrap_abs 2 (Wrap32 0), sm_SYN = False, sm_payload = 0, sm_FIN = False\<rparr> [[66]] r out
       = Inr (rcv', r', out', st')
   \<and> peek out' = [65]
   \<and> message_view st' \<lparr>sm_seqno = wrap_abs 2 (Wrap32 0), sm_SYN = False, sm_payload = 0, sm_FIN = False\<rparr>
       = Inr \<lparr>seqno = wrap_abs 2 (Wrap32 0), SYN = False, payload = [], FIN = False\<rparr>"
proof -
  let ?v = "\<lparr>seqno = wrap_abs 2 (Wrap32 0), SYN = False, payload = [66], FIN = False\<rparr>"
  let ?m = "\<lparr>sm_seqno = wrap_abs 2 (Wrap32 0), sm_SYN = False, sm_payload = 0, sm_FIN = False\<rparr>"
  let ?z = "Wrap32 0"
  let ?r = "\<lparr>first_unassembled = 1, pending_count = 0, reach_end = False, buffer_size = 1,
     sliding_window = [0], window_bitmap = Bitmap 1\<rparr>"
  let ?out = "\<lparr>stream_capacity = 1, flags = 0, total_pushed = 1, total_popped = 0,
     buffer = \<lparr>buf_capacity = 1, buf_array = [65], write_index = 1, read_index = 0\<rparr>\<rparr>"
  let ?rcv = "\<lparr>initial_seq_num = Some ?z, first_unassembled_index = 1, meet_FIN = False, rcv_finished = False\<rparr>"
  have u: "unwrap_abs (wrap_abs 1 ?z) ?z 0 = 1" "unwrap_abs (wrap_abs 2 ?z) ?z 1 = 2" by (simp_all add: unwrap_wrap_abs)
  have i1: "reassembler_insert Reassembler 0 [65] False (ByteStream 1) = Inr (?r, ?out)"
    by (simp add: run_simps cong: by_value)
  have i2: "reassembler_insert ?r 1 [66] False ?out = Inr (?r, ?out)"
    by (simp add: run_simps cong: by_value)
  have 1: "tcp_receiver_receive TCPReceiver \<lparr>seqno = wrap_abs 0 ?z, SYN = True, payload = [65], FIN = False\<rparr>
      Reassembler (ByteStream 1) = Inr (?rcv, ?r, ?out)"
    using u i1 wrap_abs_plus [of 0 ?z]
    by (simp add: tcp_receiver_receive_def TCPReceiver_def Reassembler_def getFirstUnassembledIndex_def
        wrap_abs_zero wsub_def)
  have 2: "tcp_receiver_receive ?rcv ?v ?r ?out = Inr (?rcv, ?r, ?out)"
    using u i2 by (simp add: tcp_receiver_receive_def getFirstUnassembledIndex_def wsub_def)
  have pk: "peek ?out = [65]" by (simp add: run_simps)
  have v: "message_view [[66]] ?m = Inr ?v" by (simp add: message_view_def buffer_view_def)
  obtain st' where "receive_shared ?rcv ?m [[66]] ?r ?out = Inr (?rcv, ?r, ?out, st')"
    "message_view st' ?m = Inr (?v\<lparr>payload := []\<rparr>)"
    using release_empties_every_copy [OF v 2] v by fastforce
  then show ?thesis using 1 pk by fastforce
qed

end
