(* ===== verification/Base_Properties.thy ===== *)
theory Base_Properties
  imports Wrapping_Integers Byte_Stream Bitmap
begin

text \<open>
  The properties of the sequence numbers (\<open>src/src/wrapping_integers.cc\<close>), of the byte
  stream (\<open>src/src/byte_stream.cc\<close>, \<open>byte_stream_helpers.cc\<close>) and of the bitmap
  (\<open>src/util/bitmap.hpp\<close>).
\<close>

section \<open>Sequence numbers\<close>

text \<open>
  \<open>C34\<close>: what \<open>unwrap\<close> returns wraps to the given number, and no absolute number that
  wraps to it is closer to the checkpoint, for every checkpoint that is not within
  \<open>2 ^ 32\<close> of the end of the 64-bit range.
\<close>

theorem unwrap_is_closest:
  assumes "uint cp < 2 ^ 64 - 2 ^ 32"
  shows "wrap (unwrap x zp cp) zp = x
    \<and> (\<forall>m. wrap m zp = x \<longrightarrow> \<bar>uint (unwrap x zp cp) - uint cp\<bar> \<le> \<bar>uint m - uint cp\<bar>)"
  using wrap_unwrap unwrap_closest_int [OF assms refl] by blast

theorem unwrap_is_closest_witness:
  "wrap (unwrap (Wrap32 5) (Wrap32 10) 4294967296) (Wrap32 10) = Wrap32 5
    \<and> \<bar>uint (unwrap (Wrap32 5) (Wrap32 10) 4294967296) - uint (4294967296 :: 64 word)\<bar>
          \<le> \<bar>uint (8589934587 :: 64 word) - uint (4294967296 :: 64 word)\<bar>"
proof -
  have "wrap 8589934587 (Wrap32 10) = Wrap32 5" by code_simp
  then show ?thesis using unwrap_is_closest [of 4294967296 "Wrap32 5" "Wrap32 10"] by auto
qed

text \<open>
  Wrapping then unwrapping with any checkpoint less than \<open>2 ^ 31\<close> away gives the
  absolute number back.
\<close>

theorem wrap_unwrap_roundtrip:
  assumes "uint cp < 2 ^ 64 - 2 ^ 32" and "\<bar>uint m - uint cp\<bar> < 2 ^ 31"
  shows "unwrap (wrap m zp) zp cp = m"
  using assms by (rule unwrap_recover)

theorem wrap_unwrap_roundtrip_witness:
  "unwrap (wrap 6442450943 (Wrap32 4294967290)) (Wrap32 4294967290) 4294967296 = 6442450943"
  by (rule wrap_unwrap_roundtrip) simp_all

text \<open>
  Near the end of the 64-bit range the comparison with \<open>UINT32_MAX\<close> itself wraps
  around, and \<open>unwrap\<close> returns a number about \<open>2 ^ 64\<close> away from the checkpoint although
  the checkpoint's predecessor wraps to the given number too.
\<close>

theorem unwrap_fails_near_limit:
  "unwrap (Wrap32 0xFFFFFFFE) (Wrap32 0) 0xFFFFFFFFFFFFFFFF = 0xFFFFFFFE
   \<and> wrap 0xFFFFFFFFFFFFFFFE (Wrap32 0) = Wrap32 0xFFFFFFFE"
  by code_simp

section \<open>Byte stream\<close>

text \<open>
  \<open>C32\<close>: the byte stream is a bounded first-in first-out queue. For every sequence of
  pushes, pops and closes on a new stream, no call fails, the bytes popped followed by those
  still in the stream are exactly the bytes accepted, in order, there are never more in the
  stream than its capacity, and it is closed once \<open>close\<close> has been called.
\<close>

theorem stream_is_bounded_queue:
  assumes "c < 2 ^ 64"
  shows "\<exists>accepted popped t. stream_trace writer_push reader_pop writer_close peek available_capacity
      (ByteStream c) cs = Inr (accepted, popped, t)
    \<and> accepted = popped @ peek t \<and> length (peek t) \<le> c \<and> (Close \<in> set cs \<longrightarrow> is_closed t)"
proof -
  have s: "stream_inv (ByteStream c)" using assms by simp
  obtain acc del t where t: "stream_trace writer_push reader_pop writer_close peek available_capacity
      (ByteStream c) cs = Inr (acc, del, t)" "stream_inv t" "peek (ByteStream c) @ acc = del @ peek t"
    "stream_capacity t = stream_capacity (ByteStream c)"
    "is_closed (ByteStream c) \<or> Close \<in> set cs \<longrightarrow> is_closed t"
    using code_stream.trace_conserves [OF s, of cs] by metis
  then show ?thesis using code_stream.room_le [OF t(2)] assms by auto
qed

theorem stream_is_bounded_queue_witness:
  "\<exists>accepted popped t. stream_trace writer_push reader_pop writer_close peek available_capacity
      (ByteStream 2) [Push [1, 2, 3], Pop 1, Push [4, 5], Close] = Inr (accepted, popped, t)
    \<and> accepted = popped @ peek t \<and> length (peek t) \<le> 2
    \<and> (Close \<in> set [Push [1, 2, 3], Pop 1, Push [4, 5], Close] \<longrightarrow> is_closed t)"
  by (rule stream_is_bounded_queue) simp

text \<open>
  Each single operation of the stream. A push accepts exactly the bytes that fit and
  counts them; a pop removes exactly what is there of what it is asked for and counts it;
  \<open>read\<close> returns and removes as many bytes as asked for or as there are; both sides see
  \<open>is_finished\<close> exactly when the stream is closed and empty.
\<close>

theorem stream_operations:
  assumes "stream_inv s"
  shows "(\<exists>s'. writer_push s d = Inr s' \<and> stream_inv s'
      \<and> peek s' = peek s @ take (stream_capacity s - length (peek s)) d
      \<and> bytes_pushed s' = add64 (bytes_pushed s) (min (length d) (stream_capacity s - length (peek s))))
    \<and> peek (reader_pop s n) = drop n (peek s)
    \<and> bytes_popped (reader_pop s n) = add64 (bytes_popped s) (min n (length (peek s)))
    \<and> (\<exists>s'. read_stream s n = Inr (take n (peek s), s') \<and> peek s' = drop n (peek s))
    \<and> is_finished s = (is_closed s \<and> peek s = [])
    \<and> bytes_buffered s = length (peek s) \<and> available_capacity s = stream_capacity s - length (peek s)"
proof -
  note a = available_capacity_peek(1) [OF assms]
  have "\<exists>s'. writer_push s d = Inr s' \<and> stream_inv s'
      \<and> peek s' = peek s @ take (stream_capacity s - length (peek s)) d
      \<and> bytes_pushed s' = add64 (bytes_pushed s) (min (length d) (stream_capacity s - length (peek s)))"
    by (rule writer_push_spec [OF assms, of d]) (auto simp: a bytes_pushed_def)
  moreover have "\<exists>s'. read_stream s n = Inr (take n (peek s), s') \<and> peek s' = drop n (peek s)"
    by (rule read_stream_spec [OF assms, of n]) blast
  moreover note reader_pop_spec(2,6) [OF assms, of n]
  ultimately show ?thesis
    using a bytes_buffered_peek [OF assms] is_finished_peek [OF assms] by (simp add: bytes_popped_def)
qed

theorem stream_operations_witness:
  "stream_inv (ByteStream 3) \<and> (\<exists>s'. writer_push (ByteStream 3) [1, 2, 3, 4] = Inr s' \<and> peek s' = [1, 2, 3])"
proof -
  have s: "stream_inv (ByteStream 3)" by simp
  from stream_operations [OF s, of "[1, 2, 3, 4]"] obtain s' where
    "writer_push (ByteStream 3) [1, 2, 3, 4] = Inr s'"
    "peek s' = peek (ByteStream 3) @ take (stream_capacity (ByteStream 3) - length (peek (ByteStream 3))) [1, 2, 3, 4]"
    by blast
  moreover from this(2) have "peek s' = [1, 2, 3]" by simp
  ultimately show ?thesis using s by blast
qed

section \<open>Bitmap\<close>

text \<open>
  \<open>C33\<close>: the block bitmap and the naive one are the same set of elements: every sequence of
  \<open>set\<close>, \<open>unset\<close> and \<open>get\<close> calls gives the same answers on both, assertion failures
  for elements out of range included.
\<close>

theorem bitmap_equals_naive:
  assumes "n < 2 ^ 63"
  shows "bit_trace bitmap_set bitmap_unset bitmap_get (Bitmap n) cs
       = bit_trace naive_set naive_unset naive_get (BitmapNaive n) cs"
proof -
  note new = bitmap_new [OF assms]
  have "naive_bits (BitmapNaive n) = {}" by (auto simp: naive_bits_def BitmapNaive_def)
  moreover have "bits (Bitmap n) = {}" "bitmap_inv (Bitmap n)" "element_capacity (Bitmap n) = n"
    using new by simp_all
  moreover have "length (BitmapNaive n) = n" by (simp add: BitmapNaive_def)
  ultimately show ?thesis
    using block_table.trace_is_set_trace [of "Bitmap n" cs]
      naive_table.trace_is_set_trace [of "BitmapNaive n" cs] by simp
qed

theorem bitmap_equals_naive_witness:
  "bit_trace bitmap_set bitmap_unset bitmap_get (Bitmap 40) [Bset 3, Bget 3, Bset 35, Bunset 3, Bget 35, Bget 40]
   = bit_trace naive_set naive_unset naive_get (BitmapNaive 40) [Bset 3, Bget 3, Bset 35, Bunset 3, Bget 35, Bget 40]"
  by (rule bitmap_equals_naive) simp

text \<open>
  The batch operation on the circular range from one element to another returns how
  many elements of the range were set and leaves exactly those outside it, unless the range
  wraps around inside one block; it ends within one round over the blocks.
\<close>

theorem batch_counts_and_clears:
  assumes "bitmap_inv b" and "s < element_capacity b" and "e < element_capacity b" and "\<not> wraps_in_block s e"
  shows "\<exists>b'. getPopCountAndUnsetBatch b s e = Inr (card (bits b \<inter> ring (element_capacity b) s e), b')
    \<and> bitmap_inv b' \<and> bits b' = bits b - ring (element_capacity b) s e"
  by (rule batch_spec [OF assms]) blast

theorem batch_counts_and_clears_witness:
  "\<exists>b'. getPopCountAndUnsetBatch (Bitmap 40) 35 5 = Inr (card (bits (Bitmap 40) \<inter> ring 40 35 5), b')
    \<and> bitmap_inv b' \<and> bits b' = bits (Bitmap 40) - ring 40 35 5"
proof -
  have c: "element_capacity (Bitmap 40) = 40" "bitmap_inv (Bitmap 40)" using bitmap_new [of 40] by simp_all
  have h: "35 < element_capacity (Bitmap 40)" "5 < element_capacity (Bitmap 40)" "\<not> wraps_in_block 35 5"
    by (simp_all add: c wraps_in_block_def)
  from batch_counts_and_clears [OF c(2) h] show ?thesis by (simp only: c(1))
qed

text \<open>
  On a range that wraps around inside one block the batch operation returns zero and
  clears nothing.
\<close>

theorem batch_misses_wrapped_range:
  assumes "bitmap_inv b" and "s < element_capacity b" and "wraps_in_block s e"
  shows "\<exists>b'. getPopCountAndUnsetBatch b s e = Inr (0, b') \<and> bits b' = bits b"
  by (rule batch_wraps_in_block [OF assms]) blast

theorem batch_misses_wrapped_range_witness:
  "\<exists>b'. getPopCountAndUnsetBatch (Bitmap 40) 30 5 = Inr (0, b') \<and> bits b' = bits (Bitmap 40)"
  by (rule batch_misses_wrapped_range) (use bitmap_new [of 40] in \<open>simp_all add: wraps_in_block_def\<close>)

end
