(* ===== verification/Checksum.thy ===== *)
theory Checksum
  imports Wire_Format
begin

text \<open>
  What \<open>InternetChecksum\<close> (\<open>src/util/checksum.hh\<close>) computes: the one's complement of
  the one's complement sum of the data, seen as 16-bit numbers with the first byte high. The
  32-bit accumulator is exact as long as the plain sum of the data fits in it.
\<close>

section \<open>The sum of the data\<close>

fun data_sum :: "bool \<Rightarrow> byte list \<Rightarrow> nat" where
  "data_sum low [] = 0"
| "data_sum low (b # bs) = (if low then unat b else 256 * unat b) + data_sum (\<not> low) bs"

lemma data_sum_append:
  "data_sum low (xs @ ys) = data_sum low xs + data_sum (low \<noteq> odd (length xs)) ys"
  by (induction low xs rule: data_sum.induct) auto

lemma data_sum_bound: "data_sum low xs \<le> 65280 * length xs"
proof (induction low xs rule: data_sum.induct)
  case (2 low b bs)
  have "unat b < 256" using unsigned_less [of b] by simp
  then show ?case using 2 by auto
qed simp

lemma checksum_byte_sum:
  "ck_sum (checksum_byte c b) = ck_sum c + of_nat (if ck_parity c then unat b else 256 * unat b)"
proof -
  have small: "unat b < 256" using unsigned_less [of b] by simp
  have "unat (push_bit 8 (ucast b :: 16 word)) = 256 * unat b"
    using small by (simp add: push_bit_eq_mult unat_word_ariths unsigned_ucast_eq take_bit_eq_mod)
  moreover have "unat (ucast b :: 16 word) = unat b" using small by (simp add: unsigned_ucast_eq take_bit_eq_mod)
  ultimately have "ucast (push_bit 8 (ucast b :: 16 word)) = (of_nat (256 * unat b) :: 32 word)"
    "ucast (ucast b :: 16 word) = (of_nat (unat b) :: 32 word)"
    by (metis of_nat_unat)+
  then show ?thesis by (simp add: checksum_byte_def Let_def)
qed

lemma checksum_add_sum:
  "ck_sum (checksum_add c xs) = ck_sum c + of_nat (data_sum (ck_parity c) xs)
   \<and> ck_parity (checksum_add c xs) = (ck_parity c \<noteq> odd (length xs))"
proof (induction xs arbitrary: c)
  case Nil
  then show ?case by (simp add: checksum_add_def)
next
  case (Cons b xs)
  have par: "ck_parity (checksum_byte c b) = (\<not> ck_parity c)" by (simp add: checksum_byte_def Let_def)
  have step: "checksum_add c (b # xs) = checksum_add (checksum_byte c b) xs" by (simp add: checksum_add_def)
  show ?case using Cons.IH [of "checksum_byte c b"] by (auto simp: step par checksum_byte_sum)
qed

lemma checksum_add_append: "checksum_add c (xs @ ys) = checksum_add (checksum_add c xs) ys"
  by (simp add: checksum_add_def)

lemma checksum_add_all_concat: "checksum_add_all c bs = checksum_add c (concat bs)"
proof (induction bs arbitrary: c)
  case Nil
  then show ?case by (simp add: checksum_add_all_def checksum_add_def)
next
  case (Cons b bs)
  have "checksum_add_all c (b # bs) = checksum_add_all (checksum_add c b) bs" by (simp add: checksum_add_all_def)
  then show ?case using Cons.IH [of "checksum_add c b"] by (simp add: checksum_add_append)
qed

section \<open>Folding the carries\<close>

text \<open>\<open>ones_complement t\<close> is the representative of \<open>t\<close> modulo \<open>65535\<close> that is zero only for zero.\<close>

definition ones_complement :: "nat \<Rightarrow> nat" where
  "ones_complement t = (if t = 0 then 0 else (t - 1) mod 65535 + 1)"

lemma ones_complement_le: "ones_complement t \<le> 65535"
  using mod_less_divisor [of 65535 "t - 1"] by (simp add: ones_complement_def Suc_le_eq)

lemma ones_complement_small: "t \<le> 65535 \<Longrightarrow> ones_complement t = t"
  by (cases t) (simp_all add: ones_complement_def)

lemma ones_complement_fold: "ones_complement (t div 65536 + t mod 65536) = ones_complement t"
proof (cases "t = 0")
  case False
  let ?q = "t div 65536" and ?r = "t mod 65536"
  have t: "t = 65536 * ?q + ?r" by simp
  have pos: "0 < ?q + ?r" using False by (metis add_is_0 div_mult_mod_eq gr0I mult_is_0)
  have "t - 1 = 65535 * ?q + (?q + ?r - 1)" using t pos by linarith
  then have "(t - 1) mod 65535 = (?q + ?r - 1) mod 65535" by (metis mod_mult_self4)
  then show ?thesis using False pos by (simp add: ones_complement_def)
qed simp

lemma ones_complement_mod: "ones_complement t mod 65535 = t mod 65535"
  by (cases t) (simp_all add: ones_complement_def mod_simps)

lemma ones_complement_check: "ones_complement (t + (65535 - ones_complement t)) = 65535"
proof (cases t)
  case (Suc u)
  define q r where qr: "q = u div 65535" "r = u mod 65535"
  have r: "r < 65535" and u: "u = 65535 * q + r" by (simp_all add: qr)
  have "ones_complement t = r + 1" by (simp add: ones_complement_def Suc qr)
  then have "t + (65535 - ones_complement t) = Suc (65535 * q + 65534)" using r u Suc by simp
  moreover have "(65535 * q + 65534) mod 65535 = 65534" by (simp add: mod_mult_self4)
  ultimately show ?thesis by (simp add: ones_complement_def)
qed (simp add: ones_complement_def)

lemma fold_sum_value: "unat (fold_sum x) = ones_complement (unat x)"
proof (induction x rule: fold_sum.induct)
  case (1 x)
  show ?case
  proof (cases "x > 0xffff")
    case True
    then show ?thesis
      using 1 [OF True] ones_complement_fold [of "unat x"] by (simp add: fold_sum.simps [of x] fold_step)
  next
    case False
    then have "unat x \<le> 65535" by (simp add: not_less word_le_nat_alt)
    with False show ?thesis by (simp add: fold_sum.simps [of x] ones_complement_small)
  qed
qed

lemma unat_not16: "unat (NOT w :: 16 word) = 65535 - unat w"
proof -
  have "NOT w = - 1 - w" by (simp add: not_eq_complement)
  moreover have "w \<le> - 1" by simp
  ultimately have "unat (NOT w) = unat (- 1 :: 16 word) - unat w" by (simp only: unat_sub)
  moreover have "unat (- 1 :: 16 word) = 65535" by (simp add: unsigned_minus_1_eq_mask mask_eq_exp_minus_1)
  ultimately show ?thesis by simp
qed

lemma checksum_value_unat: "unat (checksum_value c) = 65535 - ones_complement (unat (ck_sum c))"
proof -
  have le: "unat (fold_sum (ck_sum c)) \<le> 65535" by (simp add: fold_sum_value ones_complement_le)
  have "unat (ucast (fold_sum (ck_sum c)) :: 16 word) = unat (fold_sum (ck_sum c))"
    using le by (simp add: unsigned_ucast_eq take_bit_eq_mod)
  then show ?thesis
    unfolding checksum_value_def by (simp add: unat_not16 fold_sum_value)
qed

section \<open>Checksums of data\<close>

lemma checksum_total:
  assumes "unat start + data_sum False xs < 2 ^ 32"
  shows "unat (ck_sum (checksum_add (InternetChecksum start) xs)) = unat start + data_sum False xs"
proof -
  have "ck_sum (checksum_add (InternetChecksum start) xs) = of_nat (unat start + data_sum False xs)"
    using checksum_add_sum [of "InternetChecksum start" xs] by (simp add: InternetChecksum_def)
  moreover have "take_bit 32 (unat start + data_sum False xs) = unat start + data_sum False xs"
    using assms by (simp only: take_bit_nat_eq_self_iff)
  ultimately show ?thesis by (simp only: unsigned_of_nat) simp
qed

lemma checksum_of_data:
  assumes "unat start + data_sum False (concat bs) < 2 ^ 32"
  shows "unat (checksum_value (checksum_add_all (InternetChecksum start) bs))
    = 65535 - ones_complement (unat start + data_sum False (concat bs))"
  by (simp only: checksum_value_unat checksum_add_all_concat checksum_total [OF assms])

lemma data_sum_integer16:
  "data_sum False (integer_bytes (v :: 16 word)) = unat v"
proof -
  have hi: "unat (ucast (drop_bit 8 v) :: byte) = unat v div 256"
  proof -
    have "unat v < 65536" using unsigned_less [of v] by simp
    then have "unat v div 256 < 256" by simp
    then show ?thesis by (simp only: unsigned_ucast_eq unat_drop_bit_eq) (simp add: take_bit_eq_mod drop_bit_eq_div)
  qed
  have lo: "unat (ucast v :: byte) = unat v mod 256"
    by (simp add: unsigned_ucast_eq take_bit_eq_mod)
  show ?thesis by (simp add: integer_bytes_simps hi lo)
qed

text \<open>
  Data followed by its own checksum, at an even offset, sums up to all ones.
\<close>

lemma checksum_verifies:
  assumes "even (length xs)" and fits: "unat start + data_sum False xs + 65535 < 2 ^ 32"
  shows "checksum_value (checksum_add (InternetChecksum start)
           (xs @ integer_bytes (checksum_value (checksum_add (InternetChecksum start) xs)))) = 0"
proof -
  let ?t = "unat start + data_sum False xs"
  let ?v = "checksum_value (checksum_add (InternetChecksum start) xs)"
  have v: "unat ?v = 65535 - ones_complement ?t"
    using fits by (simp only: checksum_value_unat checksum_total)
  have total: "unat start + data_sum False (xs @ integer_bytes ?v) = ?t + (65535 - ones_complement ?t)"
    using assms(1) v by (simp add: data_sum_append data_sum_integer16)
  have "ones_complement (?t + (65535 - ones_complement ?t)) = 65535" by (rule ones_complement_check)
  moreover have "unat start + data_sum False (xs @ integer_bytes ?v) < 2 ^ 32"
    using total fits by simp
  ultimately have "unat (checksum_value (checksum_add (InternetChecksum start) (xs @ integer_bytes ?v))) = 0"
    by (simp only: checksum_value_unat checksum_total total)
  then show ?thesis by (simp only: unat_eq_0)
qed

end
