(* ===== verification/Headers.thy ===== *)
theory Headers
  imports Checksum
begin

text \<open>
  The packets: \<open>EthernetHeader\<close>, \<open>EthernetFrame\<close>, \<open>ARPMessage\<close>,
  \<open>IPv4Header\<close> and \<open>IPv4Datagram\<close> (\<open>src/util/ethernet_header\<close>,
  \<open>ethernet_frame\<close>, \<open>arp_message\<close>, \<open>ipv4_header\<close>, \<open>ipv4_datagram\<close>), with their
  \<open>parse\<close> and \<open>serialize\<close>. A \<open>parse\<close> takes the object it overwrites and the parser and
  returns both; a field whose bytes are missing keeps its old value.
\<close>

section \<open>Ethernet\<close>

text \<open>An Ethernet address is an array of six bytes.\<close>

type_synonym ethernet_address = "byte list"

definition ETHERNET_BROADCAST :: ethernet_address where
  "ETHERNET_BROADCAST = [0xff, 0xff, 0xff, 0xff, 0xff, 0xff]"

record ethernet_header =
  eh_dst :: ethernet_address
  eh_src :: ethernet_address
  eh_type :: "16 word"

definition TYPE_IPv4 :: "16 word" where "TYPE_IPv4 = 0x800"
definition TYPE_ARP :: "16 word" where "TYPE_ARP = 0x806"

definition EthernetHeader :: ethernet_header where
  "EthernetHeader = \<lparr>eh_dst = replicate 6 0, eh_src = replicate 6 0, eh_type = 0\<rparr>"

fun parse_address :: "ethernet_address \<Rightarrow> parser \<Rightarrow> (ethernet_address \<times> parser) outcome" where
  "parse_address [] p = Inr ([], p)"
| "parse_address (b # bs) p =
     andthen (parser_integer b p) (\<lambda>(b', p').
     andthen (parse_address bs p') (\<lambda>(bs', p''). Inr (b' # bs', p'')))"

definition serialize_address :: "ethernet_address \<Rightarrow> serializer \<Rightarrow> serializer" where
  "serialize_address a s = foldl (\<lambda>s b. serializer_integer b s) s a"

definition ethernet_header_parse ::
  "ethernet_header \<Rightarrow> parser \<Rightarrow> (ethernet_header \<times> parser) outcome" where
  "ethernet_header_parse h p =
     andthen (parse_address (eh_dst h) p) (\<lambda>(d, p).
     andthen (parse_address (eh_src h) p) (\<lambda>(s, p).
     andthen (parser_integer (eh_type h) p) (\<lambda>(t, p).
       Inr (h\<lparr>eh_dst := d, eh_src := s, eh_type := t\<rparr>, p))))"

definition ethernet_header_serialize :: "ethernet_header \<Rightarrow> serializer \<Rightarrow> serializer" where
  "ethernet_header_serialize h s =
     serializer_integer (eh_type h) (serialize_address (eh_src h) (serialize_address (eh_dst h) s))"

record ethernet_frame =
  ef_header :: ethernet_header
  ef_payload :: "byte list list"

text \<open>The two constructors with arguments: a broadcast (an ARP request) and a unicast frame.\<close>

definition broadcast_frame :: "ethernet_address \<Rightarrow> 16 word \<Rightarrow> byte list list \<Rightarrow> ethernet_frame" where
  "broadcast_frame src ty payload =
     \<lparr>ef_header = \<lparr>eh_dst = ETHERNET_BROADCAST, eh_src = src, eh_type = ty\<rparr>, ef_payload = payload\<rparr>"

definition unicast_frame ::
  "ethernet_address \<Rightarrow> ethernet_address \<Rightarrow> 16 word \<Rightarrow> byte list list \<Rightarrow> ethernet_frame" where
  "unicast_frame dst src ty payload =
     \<lparr>ef_header = \<lparr>eh_dst = dst, eh_src = src, eh_type = ty\<rparr>, ef_payload = payload\<rparr>"

definition ethernet_frame_parse ::
  "ethernet_frame \<Rightarrow> parser \<Rightarrow> (ethernet_frame \<times> parser) outcome" where
  "ethernet_frame_parse f p =
     andthen (ethernet_header_parse (ef_header f) p) (\<lambda>(h, p).
     andthen (all_remaining p) (\<lambda>bs. Inr (f\<lparr>ef_header := h, ef_payload := bs\<rparr>, p)))"

definition ethernet_frame_serialize :: "ethernet_frame \<Rightarrow> serializer \<Rightarrow> serializer" where
  "ethernet_frame_serialize f s =
     serializer_buffers (ef_payload f) (ethernet_header_serialize (ef_header f) s)"

section \<open>ARP\<close>

record arp_message =
  arp_hardware_type :: "16 word"
  arp_protocol_type :: "16 word"
  arp_hardware_address_size :: "8 word"
  arp_protocol_address_size :: "8 word"
  arp_opcode :: "16 word"
  arp_sender_ethernet_address :: ethernet_address
  arp_sender_ip_address :: "32 word"
  arp_target_ethernet_address :: ethernet_address
  arp_target_ip_address :: "32 word"

definition TYPE_ETHERNET :: "16 word" where "TYPE_ETHERNET = 1"
definition OPCODE_REQUEST :: "16 word" where "OPCODE_REQUEST = 1"
definition OPCODE_REPLY :: "16 word" where "OPCODE_REPLY = 2"

definition ARPMessage_reply ::
  "16 word \<Rightarrow> ethernet_address \<Rightarrow> 32 word \<Rightarrow> ethernet_address \<Rightarrow> 32 word \<Rightarrow> arp_message" where
  "ARPMessage_reply op sender_eth sender_ip target_eth target_ip =
     \<lparr>arp_hardware_type = TYPE_ETHERNET, arp_protocol_type = TYPE_IPv4,
      arp_hardware_address_size = 6, arp_protocol_address_size = 4, arp_opcode = op,
      arp_sender_ethernet_address = sender_eth, arp_sender_ip_address = sender_ip,
      arp_target_ethernet_address = target_eth, arp_target_ip_address = target_ip\<rparr>"

definition ARPMessage_request ::
  "16 word \<Rightarrow> ethernet_address \<Rightarrow> 32 word \<Rightarrow> 32 word \<Rightarrow> arp_message" where
  "ARPMessage_request op sender_eth sender_ip target_ip =
     ARPMessage_reply op sender_eth sender_ip (replicate 6 0) target_ip"

definition ARPMessage :: arp_message where
  "ARPMessage = ARPMessage_reply 0 (replicate 6 0) 0 (replicate 6 0) 0"

definition arp_supported :: "arp_message \<Rightarrow> bool" where
  "arp_supported m \<longleftrightarrow> arp_hardware_type m = TYPE_ETHERNET \<and> arp_protocol_type m = TYPE_IPv4
     \<and> arp_hardware_address_size m = 6 \<and> arp_protocol_address_size m = 4
     \<and> (arp_opcode m = OPCODE_REQUEST \<or> arp_opcode m = OPCODE_REPLY)"

text \<open>The five fixed fields, the test, and then the addresses.\<close>

definition arp_parse_fields :: "arp_message \<Rightarrow> parser \<Rightarrow> (arp_message \<times> parser) outcome" where
  "arp_parse_fields m p =
     andthen (parser_integer (arp_hardware_type m) p) (\<lambda>(ht, p).
     andthen (parser_integer (arp_protocol_type m) p) (\<lambda>(pt, p).
     andthen (parser_integer (arp_hardware_address_size m) p) (\<lambda>(hs, p).
     andthen (parser_integer (arp_protocol_address_size m) p) (\<lambda>(ps, p).
     andthen (parser_integer (arp_opcode m) p) (\<lambda>(op, p).
       Inr (m\<lparr>arp_hardware_type := ht, arp_protocol_type := pt, arp_hardware_address_size := hs,
              arp_protocol_address_size := ps, arp_opcode := op\<rparr>, p))))))"

definition arp_parse_addresses :: "arp_message \<Rightarrow> parser \<Rightarrow> (arp_message \<times> parser) outcome" where
  "arp_parse_addresses m p =
     andthen (parse_address (arp_sender_ethernet_address m) p) (\<lambda>(se, p).
     andthen (parser_integer (arp_sender_ip_address m) p) (\<lambda>(si, p).
     andthen (parse_address (arp_target_ethernet_address m) p) (\<lambda>(te, p).
     andthen (parser_integer (arp_target_ip_address m) p) (\<lambda>(ti, p).
       Inr (m\<lparr>arp_sender_ethernet_address := se, arp_sender_ip_address := si,
              arp_target_ethernet_address := te, arp_target_ip_address := ti\<rparr>, p)))))"

definition arp_parse :: "arp_message \<Rightarrow> parser \<Rightarrow> (arp_message \<times> parser) outcome" where
  "arp_parse m p =
     andthen (arp_parse_fields m p) (\<lambda>(m, p).
       if \<not> arp_supported m then Inr (m, parser_set_error p) else arp_parse_addresses m p)"

definition arp_serialize :: "arp_message \<Rightarrow> serializer \<Rightarrow> serializer outcome" where
  "arp_serialize m s =
     andthen (check (arp_supported m) (Runtime_Error ''ARPMessage: unsupported field combination (must be Ethernet/IP, and request or reply)'')) (\<lambda>_.
     Inr (serializer_integer (arp_target_ip_address m)
         (serialize_address (arp_target_ethernet_address m)
         (serializer_integer (arp_sender_ip_address m)
         (serialize_address (arp_sender_ethernet_address m)
         (serializer_integer (arp_opcode m)
         (serializer_integer (arp_protocol_address_size m)
         (serializer_integer (arp_hardware_address_size m)
         (serializer_integer (arp_protocol_type m)
         (serializer_integer (arp_hardware_type m) s))))))))))"

section \<open>IPv4\<close>

record ipv4_header =
  ip_ver :: "8 word"
  ip_hlen :: "8 word"
  ip_tos :: "8 word"
  ip_len :: "16 word"
  ip_id :: "16 word"
  ip_df :: bool
  ip_mf :: bool
  ip_offset :: "16 word"
  ip_ttl :: "8 word"
  ip_proto :: "8 word"
  ip_cksum :: "16 word"
  ip_src :: "32 word"
  ip_dst :: "32 word"

definition IPv4_LENGTH :: nat where "IPv4_LENGTH = 20"

definition IPv4Header :: ipv4_header where
  "IPv4Header = \<lparr>ip_ver = 4, ip_hlen = 5, ip_tos = 0, ip_len = 0, ip_id = 0, ip_df = True, ip_mf = False,
     ip_offset = 0, ip_ttl = 128, ip_proto = 6, ip_cksum = 0, ip_src = 0, ip_dst = 0\<rparr>"

definition ipv4_first_byte :: "ipv4_header \<Rightarrow> 8 word" where
  "ipv4_first_byte h = ucast (push_bit 4 (ucast (ip_ver h) :: 32 word) OR (ucast (ip_hlen h) AND 0xf))"

definition ipv4_fo_val :: "ipv4_header \<Rightarrow> 16 word" where
  "ipv4_fo_val h = ucast (((if ip_df h then 0x4000 else 0) OR (if ip_mf h then 0x2000 else 0)
     OR (ucast (ip_offset h) AND 0x1fff)) :: 32 word)"

definition ipv4_header_serialize :: "ipv4_header \<Rightarrow> serializer \<Rightarrow> serializer outcome" where
  "ipv4_header_serialize h s =
     andthen (check (ip_ver h = 4) (Runtime_Error ''wrong IP version'')) (\<lambda>_.
     Inr (serializer_integer (ip_dst h)
         (serializer_integer (ip_src h)
         (serializer_integer (ip_cksum h)
         (serializer_integer (ip_proto h)
         (serializer_integer (ip_ttl h)
         (serializer_integer (ipv4_fo_val h)
         (serializer_integer (ip_id h)
         (serializer_integer (ip_len h)
         (serializer_integer (ip_tos h)
         (serializer_integer (ipv4_first_byte h) s)))))))))))"

definition compute_checksum :: "ipv4_header \<Rightarrow> ipv4_header outcome" where
  "compute_checksum h0 =
     (let h = h0\<lparr>ip_cksum := 0\<rparr>
      in andthen (ipv4_header_serialize h Serializer) (\<lambda>s.
         Inr (h\<lparr>ip_cksum := checksum_value (checksum_add_all (InternetChecksum 0) (serializer_output s))\<rparr>)))"

definition payload_length :: "ipv4_header \<Rightarrow> 16 word" where
  "payload_length h = ip_len h - 4 * ucast (ip_hlen h)"

definition pseudo_checksum :: "ipv4_header \<Rightarrow> 32 word" where
  "pseudo_checksum h =
     drop_bit 16 (ip_src h) + ucast (ucast (ip_src h) :: 16 word)
     + (drop_bit 16 (ip_dst h) + ucast (ucast (ip_dst h) :: 16 word))
     + ucast (ip_proto h) + ucast (payload_length h)"

definition ipv4_parse_fields :: "ipv4_header \<Rightarrow> parser \<Rightarrow> (ipv4_header \<times> parser) outcome" where
  "ipv4_parse_fields h p =
     andthen (parser_integer (0 :: 8 word) p) (\<lambda>(first_byte, p).
     andthen (parser_integer (ip_tos h) p) (\<lambda>(tos, p).
     andthen (parser_integer (ip_len h) p) (\<lambda>(len, p).
     andthen (parser_integer (ip_id h) p) (\<lambda>(id, p).
     andthen (parser_integer (0 :: 16 word) p) (\<lambda>(fo_val, p).
     andthen (parser_integer (ip_ttl h) p) (\<lambda>(ttl, p).
     andthen (parser_integer (ip_proto h) p) (\<lambda>(proto, p).
     andthen (parser_integer (ip_cksum h) p) (\<lambda>(cksum, p).
     andthen (parser_integer (ip_src h) p) (\<lambda>(src, p).
     andthen (parser_integer (ip_dst h) p) (\<lambda>(dst, p).
       Inr (\<lparr>ip_ver = drop_bit 4 first_byte, ip_hlen = first_byte AND 0x0f, ip_tos = tos, ip_len = len,
             ip_id = id, ip_df = (fo_val AND 0x4000 \<noteq> 0), ip_mf = (fo_val AND 0x2000 \<noteq> 0),
             ip_offset = fo_val AND 0x1fff, ip_ttl = ttl, ip_proto = proto, ip_cksum = cksum,
             ip_src = src, ip_dst = dst\<rparr>, p)))))))))))"

definition ipv4_header_parse :: "ipv4_header \<Rightarrow> parser \<Rightarrow> (ipv4_header \<times> parser) outcome" where
  "ipv4_header_parse h0 p0 =
     andthen (ipv4_parse_fields h0 p0) (\<lambda>(h, p).
     let p1 = (if ip_ver h \<noteq> 4 then parser_set_error p else p);
         p2 = (if ip_hlen h < 5 then parser_set_error p1 else p1)
     in andthen (parser_remove_prefix p2 (sub64 (unat (ip_hlen h) * 4) IPv4_LENGTH)) (\<lambda>p3.
        andthen (compute_checksum h) (\<lambda>h'.
        Inr (h', if ip_cksum h' \<noteq> ip_cksum h then parser_set_error p3 else p3))))"

record ipv4_datagram =
  dg_header :: ipv4_header
  dg_payload :: "byte list list"

definition IPv4Datagram :: ipv4_datagram where
  "IPv4Datagram = \<lparr>dg_header = IPv4Header, dg_payload = []\<rparr>"

definition ipv4_datagram_parse :: "ipv4_datagram \<Rightarrow> parser \<Rightarrow> (ipv4_datagram \<times> parser) outcome" where
  "ipv4_datagram_parse d p =
     andthen (ipv4_header_parse (dg_header d) p) (\<lambda>(h, p).
     andthen (all_remaining p) (\<lambda>bs. Inr (d\<lparr>dg_header := h, dg_payload := bs\<rparr>, p)))"

definition ipv4_datagram_serialize :: "ipv4_datagram \<Rightarrow> serializer \<Rightarrow> serializer outcome" where
  "ipv4_datagram_serialize d s =
     andthen (ipv4_header_serialize (dg_header d) s) (\<lambda>s. Inr (serializer_buffers (dg_payload d) s))"

section \<open>The two helpers of the parser\<close>

text \<open>
  \<open>serialize (obj)\<close> with the object's \<open>serialize\<close> as the argument, and
  \<open>parse (obj, buffers)\<close>, which returns the object it filled and whether it had no error.
\<close>

definition serialize :: "(serializer \<Rightarrow> serializer outcome) \<Rightarrow> byte list list outcome" where
  "serialize obj_serialize = andthen (obj_serialize Serializer) (\<lambda>s. Inr (serializer_output s))"

definition parse :: "('t \<Rightarrow> parser \<Rightarrow> ('t \<times> parser) outcome) \<Rightarrow> 't \<Rightarrow> byte list list \<Rightarrow> ('t \<times> bool) outcome" where
  "parse obj_parse obj buffers =
     andthen (obj_parse obj (Parser buffers)) (\<lambda>(obj', p). Inr (obj', \<not> p_error p))"

end
