(* ===== verification/Codec.thy ===== *)
theory Codec
  imports Headers
begin

text \<open>
  Encoders and decoders as composable pairs: \<open>reads f v bs\<close> says that the parsing step \<open>f\<close>
  turns the bytes \<open>bs\<close> into \<open>v\<close> and leaves what follows them. The rules for single integers
  and addresses are composed along the sequencing of the code, and the encoders are reduced to
  the bytes they append.
\<close>

section \<open>Decoding\<close>

definition reads :: "(parser \<Rightarrow> ('v \<times> parser) outcome) \<Rightarrow> 'v \<Rightarrow> byte list \<Rightarrow> bool" where
  "reads f v bs \<longleftrightarrow> (\<forall>p rest tail. good p (bs @ rest) tail \<longrightarrow> (\<exists>p'. f p = Inr (v, p') \<and> good p' rest tail))"

named_theorems reads_intros \<open>decoding steps\<close>

lemma readsD:
  assumes "reads f v bs" "good p (bs @ rest) tail"
  obtains p' where "f p = Inr (v, p')" "good p' rest tail"
  using assms unfolding reads_def by blast

lemma reads_return [reads_intros]: "v = w \<Longrightarrow> reads (\<lambda>p. Inr (v, p)) w []"
  by (simp add: reads_def)

lemma reads_bind [reads_intros]:
  assumes "reads f v bs" "reads (g v) w cs"
  shows "reads (\<lambda>p. andthen (f p) (\<lambda>(x, q). g x q)) w (bs @ cs)"
  unfolding reads_def
proof (intro allI impI)
  fix p rest tail
  assume "good p ((bs @ cs) @ rest) tail"
  then have "good p (bs @ (cs @ rest)) tail" by simp
  then obtain p1 where 1: "f p = Inr (v, p1)" "good p1 (cs @ rest) tail" by (rule readsD [OF assms(1)])
  obtain p2 where "g v p1 = Inr (w, p2)" "good p2 rest tail" by (rule readsD [OF assms(2) 1(2)])
  with 1 show "\<exists>p'. andthen (f p) (\<lambda>(x, q). g x q) = Inr (w, p') \<and> good p' rest tail" by simp
qed

lemma reads_integer [reads_intros]:
  "reads (parser_integer old8) (v8 :: 8 word) (integer_bytes v8)"
  "reads (parser_integer old16) (v16 :: 16 word) (integer_bytes v16)"
  "reads (parser_integer old32) (v32 :: 32 word) (integer_bytes v32)"
  by (auto simp: reads_def intro: parser_integer_8 parser_integer_16 parser_integer_32)

lemma reads_address [reads_intros]:
  "length old = length a \<Longrightarrow> reads (parse_address old) a a"
proof (induction old a rule: list_induct2)
  case Nil
  then show ?case by (simp add: reads_def)
next
  case (Cons x xs y ys)
  have "reads (\<lambda>p. andthen (parser_integer x p) (\<lambda>(b, q).
      andthen (parse_address xs q) (\<lambda>(bs, q). Inr (b # bs, q)))) (y # ys) (integer_bytes y @ (ys @ []))"
    by (rule reads_bind [OF reads_integer(1)], rule reads_bind [OF Cons.IH], rule reads_return) simp
  moreover have "integer_bytes y @ (ys @ []) = y # ys" by (simp add: integer_bytes_simps)
  moreover have "parse_address (x # xs) = (\<lambda>p. andthen (parser_integer x p) (\<lambda>(b, q).
      andthen (parse_address xs q) (\<lambda>(bs, q). Inr (b # bs, q))))"
    by (rule ext) simp
  ultimately show ?case by simp
qed

section \<open>Encoding\<close>

definition put :: "byte list \<Rightarrow> serializer \<Rightarrow> serializer" where
  "put bs s = s\<lparr>s_buffer := s_buffer s @ bs\<rparr>"

lemma put_put: "put bs (put cs s) = put (cs @ bs) s"
  by (simp add: put_def)

lemma serializer_integer_put: "serializer_integer v = put (integer_bytes v)"
  by (rule ext) (simp add: put_def serializer_integer_def)

lemma serialize_address_put: "serialize_address a s = put a s"
proof (induction a arbitrary: s)
  case Nil
  then show ?case by (simp add: serialize_address_def put_def)
next
  case (Cons b bs)
  have "serialize_address (b # bs) s = serialize_address bs (put [b] s)"
    by (simp add: serialize_address_def serializer_integer_put integer_bytes_simps)
  then show ?case using Cons.IH by (simp add: put_put)
qed

lemma put_output: "serializer_output (put bs Serializer) = [bs]"
  by (simp add: put_def serializer_output_def serializer_flush_def Serializer_def)

lemma buffers_output:
  "serializer_output (serializer_buffers bs s)
     = s_output s @ [s_buffer s] @ concat (map (\<lambda>b. [b, []]) bs)"
proof (induction bs arbitrary: s)
  case Nil
  then show ?case by (simp add: serializer_buffers_def serializer_output_def serializer_flush_def)
next
  case (Cons b bs)
  have "serializer_buffers (b # bs) s = serializer_buffers bs (serializer_buffer b s)"
    by (simp add: serializer_buffers_def)
  then show ?case using Cons.IH [of "serializer_buffer b s"]
    by (simp add: serializer_buffer_def serializer_flush_def Let_def)
qed

lemma concat_buffers: "concat (concat (map (\<lambda>b. [b, []]) bs)) = concat bs"
  by (induction bs) simp_all

lemma all_remaining_good:
  assumes "good p [] tail"
  shows "all_remaining p = Inr (if concat tail = [] then [] else tail)"
proof (cases "concat tail = []")
  case True
  then show ?thesis using assms
    by (simp add: all_remaining_def bl_dump_all_def bl_empty_def good_def)
next
  case False
  then obtain b bs where "tail = b # bs" by (cases tail) auto
  then show ?thesis using assms False
    by (simp add: all_remaining_def bl_dump_all_def bl_empty_def good_def)
qed

section \<open>The packets\<close>

definition arp_bytes :: "arp_message \<Rightarrow> byte list" where
  "arp_bytes m = integer_bytes (arp_hardware_type m) @ integer_bytes (arp_protocol_type m)
     @ integer_bytes (arp_hardware_address_size m) @ integer_bytes (arp_protocol_address_size m)
     @ integer_bytes (arp_opcode m) @ arp_sender_ethernet_address m @ integer_bytes (arp_sender_ip_address m)
     @ arp_target_ethernet_address m @ integer_bytes (arp_target_ip_address m)"

definition arp_shape :: "arp_message \<Rightarrow> bool" where
  "arp_shape m \<longleftrightarrow> length (arp_sender_ethernet_address m) = 6 \<and> length (arp_target_ethernet_address m) = 6"

lemma arp_serialize_bytes:
  "arp_supported m \<Longrightarrow> serialize (arp_serialize m) = Inr [arp_bytes m]"
  by (simp add: serialize_def arp_serialize_def serializer_integer_put serialize_address_put put_put
      put_output arp_bytes_def)

lemma arp_serialize_error:
  "\<not> arp_supported m \<Longrightarrow> \<exists>e. serialize (arp_serialize m) = Inl (Runtime_Error e)"
  by (simp add: serialize_def arp_serialize_def)

lemma length_arp_bytes: "arp_shape m \<Longrightarrow> length (arp_bytes m) = 28"
  by (simp add: arp_bytes_def arp_shape_def length_integer_bytes)

lemma reads_arp:
  assumes "arp_supported m" "arp_shape m" "arp_shape m0"
  shows "reads (arp_parse m0) m (arp_bytes m)"
proof -
  let ?f = "m0\<lparr>arp_hardware_type := arp_hardware_type m, arp_protocol_type := arp_protocol_type m,
    arp_hardware_address_size := arp_hardware_address_size m,
    arp_protocol_address_size := arp_protocol_address_size m, arp_opcode := arp_opcode m\<rparr>"
  let ?b1 = "integer_bytes (arp_hardware_type m) @ integer_bytes (arp_protocol_type m)
     @ integer_bytes (arp_hardware_address_size m) @ integer_bytes (arp_protocol_address_size m)
     @ integer_bytes (arp_opcode m) @ []"
  let ?b2 = "arp_sender_ethernet_address m @ integer_bytes (arp_sender_ip_address m)
     @ arp_target_ethernet_address m @ integer_bytes (arp_target_ip_address m) @ []"
  have 1: "reads (arp_parse_fields m0) ?f ?b1"
    unfolding arp_parse_fields_def by (rule reads_intros refl)+
  have 2: "reads (arp_parse_addresses ?f) m ?b2"
    unfolding arp_parse_addresses_def
    by (rule reads_intros | use assms(2,3) in \<open>simp add: arp_shape_def\<close>)+
  have sup: "arp_supported ?f" using assms(1) by (simp add: arp_supported_def)
  have "reads (arp_parse m0) m (?b1 @ ?b2)"
    unfolding arp_parse_def by (rule reads_bind [OF 1]) (use 2 sup in simp)
  then show ?thesis by (simp add: arp_bytes_def)
qed

section \<open>Ethernet frames\<close>

definition ethernet_bytes :: "ethernet_header \<Rightarrow> byte list" where
  "ethernet_bytes h = eh_dst h @ eh_src h @ integer_bytes (eh_type h)"

definition ethernet_shape :: "ethernet_header \<Rightarrow> bool" where
  "ethernet_shape h \<longleftrightarrow> length (eh_dst h) = 6 \<and> length (eh_src h) = 6"

lemma ethernet_header_serialize_bytes: "ethernet_header_serialize h s = put (ethernet_bytes h) s"
  by (simp add: ethernet_header_serialize_def serializer_integer_put serialize_address_put put_put ethernet_bytes_def)

lemma reads_ethernet_header:
  assumes "ethernet_shape h" "ethernet_shape h0"
  shows "reads (ethernet_header_parse h0) h (ethernet_bytes h)"
proof -
  have "reads (ethernet_header_parse h0) h (eh_dst h @ eh_src h @ integer_bytes (eh_type h) @ [])"
    unfolding ethernet_header_parse_def
    by (rule reads_intros | use assms in \<open>simp add: ethernet_shape_def\<close>)+
  then show ?thesis by (simp add: ethernet_bytes_def)
qed

lemma ethernet_frame_output:
  "serializer_output (ethernet_frame_serialize f Serializer)
     = ethernet_bytes (ef_header f) # concat (map (\<lambda>b. [b, []]) (ef_payload f))"
  by (simp add: ethernet_frame_serialize_def buffers_output ethernet_header_serialize_bytes put_def Serializer_def)

text \<open>
  What follows a decoded header is the payload: the same bytes, not necessarily in the same
  buffers.
\<close>

lemma ethernet_frame_decoded:
  assumes shape: "ethernet_shape (ef_header f)" "ethernet_shape (ef_header f0)"
    and len: "length (concat (ef_payload f)) + 14 < 2 ^ 64"
  obtains f' where "parse ethernet_frame_parse f0 (serializer_output (ethernet_frame_serialize f Serializer)) = Inr (f', True)"
    "ef_header f' = ef_header f" "concat (ef_payload f') = concat (ef_payload f)"
    "concat (ef_payload f) \<noteq> [] \<Longrightarrow> ef_payload f' = concat (map (\<lambda>b. [b, []]) (ef_payload f))"
proof -
  let ?tail = "concat (map (\<lambda>b. [b, []]) (ef_payload f))"
  have l: "length (ethernet_bytes (ef_header f)) = 14"
    using shape(1) by (simp add: ethernet_bytes_def ethernet_shape_def length_integer_bytes)
  then have "ethernet_bytes (ef_header f) \<noteq> []" by auto
  then have "good (Parser (ethernet_bytes (ef_header f) # ?tail)) (ethernet_bytes (ef_header f) @ []) ?tail"
    using len l by (simp add: good_Parser concat_buffers)
  then obtain p where p: "ethernet_header_parse (ef_header f0) (Parser (ethernet_bytes (ef_header f) # ?tail)) = Inr (ef_header f, p)"
    "good p [] ?tail" by (rule readsD [OF reads_ethernet_header [OF shape]])
  let ?bs = "if concat ?tail = [] then [] else ?tail"
  have "all_remaining p = Inr ?bs" by (rule all_remaining_good [OF p(2)])
  then show thesis using p
    by (intro that [of "f0\<lparr>ef_header := ef_header f, ef_payload := ?bs\<rparr>"])
      (auto simp: parse_def ethernet_frame_parse_def ethernet_frame_output concat_buffers good_def)
qed

section \<open>IPv4 headers\<close>

definition ipv4_bytes :: "ipv4_header \<Rightarrow> byte list" where
  "ipv4_bytes h = integer_bytes (ipv4_first_byte h) @ integer_bytes (ip_tos h) @ integer_bytes (ip_len h)
     @ integer_bytes (ip_id h) @ integer_bytes (ipv4_fo_val h) @ integer_bytes (ip_ttl h)
     @ integer_bytes (ip_proto h) @ integer_bytes (ip_cksum h) @ integer_bytes (ip_src h) @ integer_bytes (ip_dst h)"

text \<open>A header without options whose fields fit in their bits.\<close>

definition ipv4_shape :: "ipv4_header \<Rightarrow> bool" where
  "ipv4_shape h \<longleftrightarrow> ip_ver h = 4 \<and> ip_hlen h = 5 \<and> ip_offset h AND 0x1fff = ip_offset h"

lemma ipv4_header_serialize_bytes:
  "ip_ver h = 4 \<Longrightarrow> ipv4_header_serialize h s = Inr (put (ipv4_bytes h) s)"
  by (simp add: ipv4_header_serialize_def serializer_integer_put put_put ipv4_bytes_def)

lemma length_ipv4_bytes [simp]: "length (ipv4_bytes h) = 20"
  by (simp add: ipv4_bytes_def length_integer_bytes)

lemma first_byte_fields:
  assumes "ipv4_shape h"
  shows "drop_bit 4 (ipv4_first_byte h) = ip_ver h" "ipv4_first_byte h AND 0x0f = ip_hlen h"
proof -
  have "ipv4_first_byte h = 0x45" using assms by (simp add: ipv4_first_byte_def ipv4_shape_def)
  then show "drop_bit 4 (ipv4_first_byte h) = ip_ver h" "ipv4_first_byte h AND 0x0f = ip_hlen h"
    using assms by (simp_all add: ipv4_shape_def)
qed

lemma fo_val_fields:
  assumes "ipv4_shape h"
  shows "ipv4_fo_val h AND 0x4000 \<noteq> 0 \<longleftrightarrow> ip_df h" "ipv4_fo_val h AND 0x2000 \<noteq> 0 \<longleftrightarrow> ip_mf h"
    "ipv4_fo_val h AND 0x1fff = ip_offset h"
proof -
  have off: "ip_offset h AND 0x1fff = ip_offset h" using assms by (simp add: ipv4_shape_def)
  have fo: "ipv4_fo_val h = (if ip_df h then 0x4000 else 0) OR (if ip_mf h then 0x2000 else 0) OR (ip_offset h AND 0x1fff)"
    by (rule bit_word_eqI) (auto simp: ipv4_fo_val_def bit_simps)
  have 1: "(0x4000 :: 16 word) AND 0x2000 = 0" "(0x4000 :: 16 word) AND 0x1fff = 0"
    "(0x2000 :: 16 word) AND 0x4000 = 0" "(0x2000 :: 16 word) AND 0x1fff = 0"
    "(0x1fff :: 16 word) AND 0x4000 = 0" "(0x1fff :: 16 word) AND 0x2000 = 0" by simp_all
  show "ipv4_fo_val h AND 0x4000 \<noteq> 0 \<longleftrightarrow> ip_df h" "ipv4_fo_val h AND 0x2000 \<noteq> 0 \<longleftrightarrow> ip_mf h"
    by (auto simp: fo bit.conj_disj_distrib2 and.assoc 1)
  show "ipv4_fo_val h AND 0x1fff = ip_offset h"
    by (auto simp: fo bit.conj_disj_distrib2 and.assoc 1 off)
qed

lemma reads_ipv4_fields:
  assumes "ipv4_shape h"
  shows "reads (ipv4_parse_fields h0) h (ipv4_bytes h)"
proof -
  have "reads (ipv4_parse_fields h0) h (integer_bytes (ipv4_first_byte h) @ integer_bytes (ip_tos h) @ integer_bytes (ip_len h)
     @ integer_bytes (ip_id h) @ integer_bytes (ipv4_fo_val h) @ integer_bytes (ip_ttl h)
     @ integer_bytes (ip_proto h) @ integer_bytes (ip_cksum h) @ integer_bytes (ip_src h) @ integer_bytes (ip_dst h) @ [])"
    unfolding ipv4_parse_fields_def
    by (rule reads_intros | simp add: first_byte_fields [OF assms] fo_val_fields [OF assms])+
  then show ?thesis by (simp add: ipv4_bytes_def)
qed

end
