(* ===== verification/Packet_Properties.thy ===== *)
theory Packet_Properties
  imports Codec
begin

text \<open>
  The checksum of an IPv4 header, the round trips of the packet formats and the totality of
  their parsers.
\<close>

section \<open>The checksum of an IPv4 header\<close>

text \<open>\<open>header_sum\<close> is the sum of the header with a zero in the checksum field.\<close>

definition header_sum :: "ipv4_header \<Rightarrow> nat" where
  "header_sum h = data_sum False (ipv4_bytes (h\<lparr>ip_cksum := 0\<rparr>))"

definition right_checksum :: "ipv4_header \<Rightarrow> 16 word" where
  "right_checksum h = checksum_value (checksum_add (InternetChecksum 0) (ipv4_bytes (h\<lparr>ip_cksum := 0\<rparr>)))"

definition checksum_ok :: "ipv4_header \<Rightarrow> bool" where
  "checksum_ok h \<longleftrightarrow> ip_cksum h = right_checksum h"

lemma ipv4_bytes_cksum [simp]:
  "ipv4_first_byte (h\<lparr>ip_cksum := c\<rparr>) = ipv4_first_byte h" "ipv4_fo_val (h\<lparr>ip_cksum := c\<rparr>) = ipv4_fo_val h"
  "ipv4_first_byte (h\<lparr>ip_ttl := t\<rparr>) = ipv4_first_byte h" "ipv4_fo_val (h\<lparr>ip_ttl := t\<rparr>) = ipv4_fo_val h"
  by (simp_all add: ipv4_first_byte_def ipv4_fo_val_def)

lemma length_integer_bytes_even [simp]:
  "length (integer_bytes (v8 :: 8 word)) = 1" "length (integer_bytes (v16 :: 16 word)) = 2"
  "length (integer_bytes (v32 :: 32 word)) = 4"
  by (simp_all add: length_integer_bytes)

lemma data_sum_header: "data_sum False (ipv4_bytes h) = header_sum h + unat (ip_cksum h)"
  by (simp add: header_sum_def ipv4_bytes_def data_sum_append data_sum_integer16)

lemma header_sum_less: "header_sum h < 2 ^ 21"
  using data_sum_bound [of False "ipv4_bytes (h\<lparr>ip_cksum := 0\<rparr>)"] by (simp add: header_sum_def)

lemma right_checksum_value: "unat (right_checksum h) = 65535 - ones_complement (header_sum h)"
proof -
  have "unat (0 :: 32 word) + data_sum False (ipv4_bytes (h\<lparr>ip_cksum := 0\<rparr>)) < 2 ^ 32"
    using header_sum_less [of h] by (simp add: header_sum_def)
  then show ?thesis unfolding right_checksum_def header_sum_def
    by (simp only: checksum_value_unat checksum_total) simp
qed

lemma right_checksum_cksum [simp]: "right_checksum (h\<lparr>ip_cksum := c\<rparr>) = right_checksum h"
  by (simp add: right_checksum_def)

lemma compute_checksum_eq:
  "ip_ver h = 4 \<Longrightarrow> compute_checksum h = Inr (h\<lparr>ip_cksum := right_checksum h\<rparr>)"
  by (simp add: compute_checksum_def Let_def ipv4_header_serialize_bytes put_output
      checksum_add_all_concat right_checksum_def)

lemma compute_checksum_error:
  "ip_ver h \<noteq> 4 \<Longrightarrow> compute_checksum h = Inl (Runtime_Error ''wrong IP version'')"
  by (simp add: compute_checksum_def Let_def ipv4_header_serialize_def)

text \<open>A header is accepted exactly when the sum of its bytes, checksum included, is all ones.\<close>

lemma checksum_ok_verifies:
  assumes "checksum_ok h"
  shows "checksum_value (checksum_add (InternetChecksum 0) (ipv4_bytes h)) = 0"
proof -
  let ?c = "checksum_add (InternetChecksum 0) (ipv4_bytes h)"
  have t: "data_sum False (ipv4_bytes h) = header_sum h + (65535 - ones_complement (header_sum h))"
    using assms by (simp add: data_sum_header checksum_ok_def right_checksum_value)
  have "unat (0 :: 32 word) + data_sum False (ipv4_bytes h) < 2 ^ 32"
    using t header_sum_less [of h] by simp
  then have "unat (checksum_value ?c) = 65535 - ones_complement (data_sum False (ipv4_bytes h))"
    by (simp only: checksum_value_unat checksum_total) simp
  then have "unat (checksum_value ?c) = 0" by (simp add: t ones_complement_check)
  then show ?thesis by (simp only: unat_eq_0)
qed

text \<open>Changing the time to live alone always breaks the checksum.\<close>

lemma header_sum_ttl:
  "header_sum (h\<lparr>ip_ttl := t\<rparr>) + 256 * unat (ip_ttl h) = header_sum h + 256 * unat t"
  by (simp add: header_sum_def ipv4_bytes_def data_sum_append integer_bytes_simps)

lemma ttl_breaks_checksum:
  assumes "checksum_ok h" and "t \<noteq> ip_ttl h"
  shows "\<not> checksum_ok (h\<lparr>ip_ttl := t\<rparr>)"
proof
  assume "checksum_ok (h\<lparr>ip_ttl := t\<rparr>)"
  with assms(1) have "right_checksum (h\<lparr>ip_ttl := t\<rparr>) = right_checksum h" by (simp add: checksum_ok_def)
  then have "65535 - ones_complement (header_sum (h\<lparr>ip_ttl := t\<rparr>)) = 65535 - ones_complement (header_sum h)"
    by (metis right_checksum_value)
  then have "ones_complement (header_sum (h\<lparr>ip_ttl := t\<rparr>)) = ones_complement (header_sum h)"
    using ones_complement_le [of "header_sum (h\<lparr>ip_ttl := t\<rparr>)"] ones_complement_le [of "header_sum h"] by simp
  then have eq: "header_sum (h\<lparr>ip_ttl := t\<rparr>) mod 65535 = header_sum h mod 65535" by (metis ones_complement_mod)
  have "int (header_sum (h\<lparr>ip_ttl := t\<rparr>)) mod 65535 = int (header_sum h) mod 65535"
    using arg_cong [OF eq, of int] by (simp add: zmod_int)
  then have "(65535 :: int) dvd int (header_sum (h\<lparr>ip_ttl := t\<rparr>)) - int (header_sum h)"
    by (simp only: mod_eq_dvd_iff)
  then obtain k where k: "int (header_sum (h\<lparr>ip_ttl := t\<rparr>)) - int (header_sum h) = 65535 * k" by (rule dvdE)
  have "int (header_sum (h\<lparr>ip_ttl := t\<rparr>)) + 256 * int (unat (ip_ttl h)) = int (header_sum h) + 256 * int (unat t)"
    using header_sum_ttl [of t h] by linarith
  then have d: "65535 * k = 256 * int (unat t) - 256 * int (unat (ip_ttl h))" using k by linarith
  moreover have "int (unat t) < 256" "int (unat (ip_ttl h)) < 256" "0 \<le> int (unat t)" "0 \<le> int (unat (ip_ttl h))"
    using unsigned_less [of t] unsigned_less [of "ip_ttl h"] by simp_all
  ultimately have "k = 0" by linarith
  with d have "uint t = uint (ip_ttl h)" by simp
  with assms(2) show False by (metis word_uint_eq_iff)
qed

section \<open>Round trips\<close>

lemma reads_ipv4_header:
  assumes "ipv4_shape h" "good p (ipv4_bytes h @ rest) tail"
  obtains p' where "ipv4_header_parse h0 p = Inr (h\<lparr>ip_cksum := right_checksum h\<rparr>, p'\<lparr>p_error := \<not> checksum_ok h\<rparr>)"
    "good p' rest tail"
proof -
  obtain p1 where p1: "ipv4_parse_fields h0 p = Inr (h, p1)" "good p1 rest tail"
    by (rule readsD [OF reads_ipv4_fields [OF assms(1)] assms(2)])
  have ver: "ip_ver h = 4" "ip_hlen h = 5" using assms(1) by (simp_all add: ipv4_shape_def)
  have "parser_remove_prefix p1 (sub64 (unat (5 :: 8 word) * 4) IPv4_LENGTH) = Inr p1"
    by (simp add: IPv4_LENGTH_def wsub_def parser_remove_prefix_def bl_remove_prefix_def)
  moreover have "p_error p1 = False" using p1(2) by (simp add: good_def)
  then have "p1 = p1\<lparr>p_error := False\<rparr>" by simp
  ultimately have "ipv4_header_parse h0 p = Inr (h\<lparr>ip_cksum := right_checksum h\<rparr>, p1\<lparr>p_error := \<not> checksum_ok h\<rparr>)"
    using p1(1) ver by (auto simp: ipv4_header_parse_def Let_def compute_checksum_eq checksum_ok_def parser_set_error_def)
  then show thesis using p1(2) by (rule that)
qed

lemma all_remaining_error: "all_remaining (p\<lparr>p_error := e\<rparr>) = all_remaining p"
  by (simp add: all_remaining_def)

text \<open>A datagram is decoded from its header in front and any buffers behind it.\<close>

lemma ipv4_datagram_decoded:
  assumes "ipv4_shape h" and len: "length (concat tail) + 20 < 2 ^ 64"
  obtains d where "parse ipv4_datagram_parse d0 (ipv4_bytes h # tail) = Inr (d, checksum_ok h)"
    "dg_header d = h\<lparr>ip_cksum := right_checksum h\<rparr>" "concat (dg_payload d) = concat tail"
proof -
  have "ipv4_bytes h \<noteq> []" using length_ipv4_bytes [of h] by fastforce
  then have "good (Parser (ipv4_bytes h # tail)) (ipv4_bytes h @ []) tail"
    using len by (simp add: good_Parser)
  then obtain p where p: "ipv4_header_parse (dg_header d0) (Parser (ipv4_bytes h # tail)) =
      Inr (h\<lparr>ip_cksum := right_checksum h\<rparr>, p\<lparr>p_error := \<not> checksum_ok h\<rparr>)" "good p [] tail"
    by (rule reads_ipv4_header [OF assms(1)])
  let ?bs = "if concat tail = [] then [] else tail"
  have "all_remaining p = Inr ?bs" by (rule all_remaining_good [OF p(2)])
  then show thesis using p(1)
    by (intro that [of "d0\<lparr>dg_header := h\<lparr>ip_cksum := right_checksum h\<rparr>, dg_payload := ?bs\<rparr>"])
      (auto simp: parse_def ipv4_datagram_parse_def all_remaining_error)
qed

lemma ipv4_datagram_serialized:
  assumes "ip_ver (dg_header d) = 4"
  shows "serialize (ipv4_datagram_serialize d)
    = Inr (ipv4_bytes (dg_header d) # concat (map (\<lambda>b. [b, []]) (dg_payload d)))"
  using assms by (simp add: serialize_def ipv4_datagram_serialize_def ipv4_header_serialize_bytes buffers_output
      put_def Serializer_def)

lemma arp_decoded:
  assumes "arp_supported m" "arp_shape m" "arp_shape m0"
  shows "parse arp_parse m0 [arp_bytes m] = Inr (m, True)"
proof -
  have "arp_bytes m \<noteq> []" using length_arp_bytes [OF assms(2)] by auto
  then have "good (Parser [arp_bytes m]) (arp_bytes m @ []) []"
    using length_arp_bytes [OF assms(2)] by (simp add: good_Parser)
  then obtain p where "arp_parse m0 (Parser [arp_bytes m]) = Inr (m, p)" "good p [] []"
    by (rule readsD [OF reads_arp [OF assms]])
  then show ?thesis by (simp add: parse_def good_def)
qed

section \<open>Parsing what has no empty buffer\<close>

text \<open>
  \<open>safe f\<close>: on a list of buffers in its invariant the parsing step \<open>f\<close> returns, whatever
  the bytes are and whether or not there are enough of them.
\<close>

definition safe :: "(parser \<Rightarrow> ('v \<times> parser) outcome) \<Rightarrow> bool" where
  "safe f \<longleftrightarrow> (\<forall>p. sound p \<longrightarrow> (\<exists>v p'. f p = Inr (v, p') \<and> sound p'))"

lemma safeD:
  assumes "safe f" "sound p"
  obtains v p' where "f p = Inr (v, p')" "sound p'"
  using assms unfolding safe_def by blast

lemma safe_return: "safe (\<lambda>p. Inr (v, p))"
  by (simp add: safe_def)

lemma safe_bind:
  assumes "safe f" "\<And>v. safe (g v)"
  shows "safe (\<lambda>p. andthen (f p) (\<lambda>(x, q). g x q))"
  unfolding safe_def
proof (intro allI impI)
  fix p assume "sound p"
  with assms(1) obtain v p1 where 1: "f p = Inr (v, p1)" "sound p1" by (rule safeD)
  from assms(2) 1(2) obtain w p2 where "g v p1 = Inr (w, p2)" "sound p2" by (rule safeD)
  with 1 show "\<exists>w p'. andthen (f p) (\<lambda>(x, q). g x q) = Inr (w, p') \<and> sound p'" by simp
qed

lemma safe_any_integer:
  fixes old :: "'a::len word"
  assumes "8 \<le> LENGTH('a)"
  shows "safe (parser_integer old)"
  unfolding safe_def
proof (intro allI impI)
  fix p assume "sound p"
  then obtain v p' where "parser_integer old p = Inr (v, p')" "sound p'"
    by (rule parser_integer_sound [OF _ assms])
  then show "\<exists>v p'. parser_integer old p = Inr (v, p') \<and> sound p'" by blast
qed

lemma safe_integer:
  "safe (parser_integer (old8 :: 8 word))" "safe (parser_integer (old16 :: 16 word))"
  "safe (parser_integer (old32 :: 32 word))"
  by (simp_all add: safe_any_integer)

lemma safe_address: "safe (parse_address a)"
proof (induction a)
  case Nil
  then show ?case by (simp add: safe_def)
next
  case (Cons b a)
  have "parse_address (b # a) = (\<lambda>p. andthen (parser_integer b p) (\<lambda>(b', q).
      andthen (parse_address a q) (\<lambda>(bs', q). Inr (b' # bs', q))))" by (rule ext) simp
  then show ?case by (simp only:) (intro safe_bind safe_integer Cons.IH safe_return)
qed

lemmas safe_intros = safe_bind safe_integer safe_address safe_return

lemma safe_ethernet_header: "safe (ethernet_header_parse h)"
  unfolding ethernet_header_parse_def by (intro safe_intros)

lemma safe_arp: "safe (arp_parse m)"
proof -
  have 1: "safe (arp_parse_fields m)" unfolding arp_parse_fields_def by (intro safe_intros)
  have 2: "safe (arp_parse_addresses m')" for m' unfolding arp_parse_addresses_def by (intro safe_intros)
  have 3: "safe (\<lambda>p. Inr (m' :: arp_message, parser_set_error p))" for m'
    by (simp add: safe_def sound_def parser_set_error_def)
  have "safe (\<lambda>p. if \<not> arp_supported m' then Inr (m', parser_set_error p) else arp_parse_addresses m' p)" for m'
    using 2 3 by (cases "arp_supported m'") simp_all
  then show ?thesis unfolding arp_parse_def by (intro safe_bind 1)
qed

lemma safe_ipv4_fields: "safe (ipv4_parse_fields h)"
  unfolding ipv4_parse_fields_def by (intro safe_intros)

lemma sound_Parser: "length (concat bs) < 2 ^ 64 \<Longrightarrow> [] \<notin> set bs \<Longrightarrow> sound (Parser bs)"
  using BufferList_inv [of bs] by (simp add: sound_def Parser_def)

text \<open>The version comes from the first byte, and is zero when there is none.\<close>

definition version_of :: "byte list \<Rightarrow> 8 word" where
  "version_of bs = drop_bit 4 (case bs of [] \<Rightarrow> 0 | b # _ \<Rightarrow> b)"

lemma first_integer:
  assumes "sound p" "\<not> p_error p"
  shows "\<exists>p'. parser_integer (0 :: 8 word) p = Inr (case bl_content (p_input p) of [] \<Rightarrow> 0 | b # _ \<Rightarrow> b, p')"
proof (cases "bl_content (p_input p)")
  case Nil
  then show ?thesis using assms by (simp add: parser_integer_def check_size_def Let_def sound_def bl_inv_def)
next
  case (Cons b rest)
  have "bl_size (p_input p) = Suc (length rest)" using assms(1) Cons by (simp add: sound_def bl_inv_def)
  then have "check_size p 1 = p" by (simp add: check_size_def)
  moreover obtain l' where "next_byte p = Inr (b, p\<lparr>p_input := l'\<rparr>)"
    by (rule next_byte_spec [of p b rest]) (use assms(1) Cons in \<open>simp_all add: sound_def\<close>)
  ultimately show ?thesis using assms(2) Cons by (simp add: parser_integer_def Let_def)
qed

lemma ipv4_fields_version:
  assumes "sound p" "\<not> p_error p"
  obtains h' p' where "ipv4_parse_fields h p = Inr (h', p')" "sound p'" "ip_ver h' = version_of (bl_content (p_input p))"
proof -
  obtain h' p' where r: "ipv4_parse_fields h p = Inr (h', p')" "sound p'"
    by (rule safeD [OF safe_ipv4_fields assms(1)])
  obtain p1 where "parser_integer (0 :: 8 word) p = Inr (case bl_content (p_input p) of [] \<Rightarrow> 0 | b # _ \<Rightarrow> b, p1)"
    using first_integer [OF assms] by blast
  then have "ip_ver h' = version_of (bl_content (p_input p))"
    using r(1) by (auto simp: ipv4_parse_fields_def andthen_eq_Inr_iff version_of_def)
  with r show thesis by (rule that)
qed

lemma remove_prefix_sound:
  assumes "sound p"
  obtains p' where "parser_remove_prefix p n = Inr p'" "sound p'"
proof -
  obtain l' where "bl_remove_prefix (p_input p) n = Inr l'" "bl_inv l'"
    using bl_remove_prefix_spec [of "p_input p" n] assms unfolding sound_def by metis
  then show thesis using that by (simp add: parser_remove_prefix_def sound_def)
qed

lemma all_remaining_sound: "sound p \<Longrightarrow> \<exists>bs. all_remaining p = Inr bs"
  using all_remaining_spec [of p] by (metis sound_def)

lemma ipv4_header_parse_outcome:
  assumes "sound p" "\<not> p_error p"
  shows "if version_of (bl_content (p_input p)) = 4
    then \<exists>h' p'. ipv4_header_parse h p = Inr (h', p') \<and> sound p'
    else ipv4_header_parse h p = Inl (Runtime_Error ''wrong IP version'')"
proof -
  obtain h1 p1 where 1: "ipv4_parse_fields h p = Inr (h1, p1)" "sound p1"
    "ip_ver h1 = version_of (bl_content (p_input p))" by (rule ipv4_fields_version [OF assms])
  let ?p2 = "let p1' = (if ip_ver h1 \<noteq> 4 then parser_set_error p1 else p1)
    in if ip_hlen h1 < 5 then parser_set_error p1' else p1'"
  have "sound ?p2" using 1(2) by (simp add: Let_def sound_def parser_set_error_def)
  then obtain p3 where p3: "parser_remove_prefix ?p2 (sub64 (unat (ip_hlen h1) * 4) IPv4_LENGTH) = Inr p3" "sound p3"
    by (rule remove_prefix_sound)
  have run: "ipv4_header_parse h p = andthen (compute_checksum h1) (\<lambda>h'.
      Inr (h', if ip_cksum h' \<noteq> ip_cksum h1 then parser_set_error p3 else p3))"
    using p3(1) by (simp add: ipv4_header_parse_def 1(1) Let_def del: if_split)
  show ?thesis
  proof (cases "ip_ver h1 = 4")
    case True
    then show ?thesis using run p3(2) 1(3) by (simp add: compute_checksum_eq sound_def parser_set_error_def)
  next
    case False
    then show ?thesis using run 1(3) by (simp add: compute_checksum_error)
  qed
qed

lemma parse_empty_front:
  assumes "eh_dst (ef_header f) \<noteq> []" "0 < length (concat bs)" "length (concat bs) < 2 ^ 64"
  shows "parse ethernet_frame_parse f ([] # bs) = Inl Undefined"
proof -
  obtain b a where d: "eh_dst (ef_header f) = b # a" using assms(1) by (cases "eh_dst (ef_header f)") auto
  have "length (concat ([] # bs)) < 2 ^ 64" using assms(3) by simp
  then have i: "p_input (Parser ([] # bs)) = \<lparr>bl_size = length (concat bs), bl_buffers = [] # bs, bl_skip = 0\<rparr>"
    "\<not> p_error (Parser ([] # bs))" by (simp_all add: Parser_def BufferList_eq)
  then have "check_size (Parser ([] # bs)) 1 = Parser ([] # bs)" using assms(2) by (simp add: check_size_def)
  then have "parser_integer b (Parser ([] # bs)) = Inl Undefined"
    using i by (simp add: parser_integer_def Let_def next_byte_def bl_peek_def vec_at_def)
  then show ?thesis by (simp add: parse_def ethernet_frame_parse_def ethernet_header_parse_def d)
qed

lemma datagram_parse_outcome:
  assumes "[] \<notin> set bs" "length (concat bs) < 2 ^ 64"
  shows "if version_of (concat bs) = 4 then \<exists>r. parse ipv4_datagram_parse d bs = Inr r
    else parse ipv4_datagram_parse d bs = Inl (Runtime_Error ''wrong IP version'')"
proof -
  have s: "sound (Parser bs)" "\<not> p_error (Parser bs)" "bl_content (p_input (Parser bs)) = concat bs"
    using sound_Parser [OF assms(2,1)] BufferList_inv [OF assms(2,1)] by (simp_all add: Parser_def)
  show ?thesis
  proof (cases "version_of (concat bs) = 4")
    case True
    then obtain h p where p: "ipv4_header_parse (dg_header d) (Parser bs) = Inr (h, p)" "sound p"
      using ipv4_header_parse_outcome [OF s(1,2), of "dg_header d"] s(3) by auto
    then show ?thesis using all_remaining_sound [OF p(2)] True by (auto simp: parse_def ipv4_datagram_parse_def)
  next
    case False
    then show ?thesis using ipv4_header_parse_outcome [OF s(1,2), of "dg_header d"] s(3)
      by (simp add: parse_def ipv4_datagram_parse_def)
  qed
qed

section \<open>Properties\<close>

text \<open>
  \<open>C30\<close>: the Internet checksum of a list of buffers is the one's complement of the one's
  complement sum of its bytes as big-endian 16-bit numbers, however they are split into buffers,
  as long as that sum, the start value included, stays 65536 below \<open>2 ^ 32\<close>, the width of the
  accumulator; and data of even length followed by its own checksum then verifies: its checksum is
  zero.
\<close>

theorem checksum_is_ones_complement:
  assumes "unat start + data_sum False (concat bs) + 65535 < 2 ^ 32"
  shows "unat (checksum_value (checksum_add_all (InternetChecksum start) bs))
      = 65535 - ones_complement (unat start + data_sum False (concat bs))
    \<and> (even (length (concat bs)) \<longrightarrow> checksum_value (checksum_add_all (InternetChecksum start)
         (bs @ [integer_bytes (checksum_value (checksum_add_all (InternetChecksum start) bs))])) = 0)"
  using checksum_of_data [of start bs] checksum_verifies [of "concat bs" start] assms
  by (simp add: checksum_add_all_concat)

theorem checksum_is_ones_complement_witness:
  "unat (checksum_value (checksum_add_all (InternetChecksum 0) [[0x45], [0, 0x12]])) = 43263"
  using checksum_is_ones_complement [of 0 "[[0x45], [0, 0x12]]"] by (simp add: ones_complement_def)

text \<open>
  \<open>C31\<close>: an ARP message that \<open>serialize\<close> accepts is 28 bytes long on the wire and parsing them
  gives the message back without an error; one that is not supported is refused by an
  exception.
\<close>

theorem arp_roundtrip:
  assumes "arp_shape m" and "arp_shape m0"
  shows "if arp_supported m
    then \<exists>bs. serialize (arp_serialize m) = Inr bs \<and> length (concat bs) = 28 \<and> parse arp_parse m0 bs = Inr (m, True)
    else \<exists>e. serialize (arp_serialize m) = Inl (Runtime_Error e)"
  using assms arp_decoded [of m m0] arp_serialize_error [of m] by (simp add: arp_serialize_bytes length_arp_bytes)

theorem arp_roundtrip_witness:
  "\<exists>bs. serialize (arp_serialize (ARPMessage_request OPCODE_REQUEST [1, 2, 3, 4, 5, 6] 7 8)) = Inr bs
     \<and> length (concat bs) = 28
     \<and> parse arp_parse ARPMessage bs = Inr (ARPMessage_request OPCODE_REQUEST [1, 2, 3, 4, 5, 6] 7 8, True)"
  using arp_roundtrip [of "ARPMessage_request OPCODE_REQUEST [1, 2, 3, 4, 5, 6] 7 8" ARPMessage]
  by (simp add: arp_shape_def ARPMessage_request_def ARPMessage_reply_def ARPMessage_def arp_supported_def)

text \<open>
  \<open>C19\<close>: a datagram without options, serialized into the payload of an Ethernet frame that is
  serialized in turn, comes back: parsing gives the same frame header, the same datagram header
  with the right checksum in it, and the same payload bytes; it reports an error exactly when the
  checksum sent was wrong.
\<close>

theorem datagram_in_frame_roundtrip:
  assumes "ipv4_shape (dg_header d)" and "ethernet_shape eh" and "ethernet_shape (ef_header f0)"
    and "length (concat (dg_payload d)) + 34 < 2 ^ 64"
  shows "\<exists>bs f d'. serialize (ipv4_datagram_serialize d) = Inr bs
    \<and> parse ethernet_frame_parse f0
        (serializer_output (ethernet_frame_serialize \<lparr>ef_header = eh, ef_payload = bs\<rparr> Serializer)) = Inr (f, True)
    \<and> ef_header f = eh
    \<and> parse ipv4_datagram_parse d0 (ef_payload f) = Inr (d', checksum_ok (dg_header d))
    \<and> dg_header d' = (dg_header d)\<lparr>ip_cksum := right_checksum (dg_header d)\<rparr>
    \<and> concat (dg_payload d') = concat (dg_payload d)"
proof -
  let ?h = "dg_header d" and ?tail = "concat (map (\<lambda>b. [b, []]) (dg_payload d))"
  let ?bs = "ipv4_bytes ?h # ?tail"
  let ?f = "\<lparr>ef_header = eh, ef_payload = ?bs\<rparr>"
  have ser: "serialize (ipv4_datagram_serialize d) = Inr ?bs"
    by (rule ipv4_datagram_serialized) (use assms(1) in \<open>simp add: ipv4_shape_def\<close>)
  have len: "length (concat (ef_payload ?f)) + 14 < 2 ^ 64" using assms(4) by (simp add: concat_buffers)
  have ne: "concat (ef_payload ?f) \<noteq> []" using length_ipv4_bytes [of ?h] by (auto simp del: length_ipv4_bytes)
  obtain f where f: "parse ethernet_frame_parse f0 (serializer_output (ethernet_frame_serialize ?f Serializer)) = Inr (f, True)"
    "ef_header f = eh" "ef_payload f = ipv4_bytes ?h # [] # concat (map (\<lambda>b. [b, []]) ?tail)"
    by (rule ethernet_frame_decoded [of ?f f0]) (use assms(2,3) len ne in simp_all)
  have len2: "length (concat ([] # concat (map (\<lambda>b. [b, []]) ?tail))) + 20 < 2 ^ 64"
    using assms(4) by (simp add: concat_buffers)
  obtain d' where "parse ipv4_datagram_parse d0 (ipv4_bytes ?h # [] # concat (map (\<lambda>b. [b, []]) ?tail)) = Inr (d', checksum_ok ?h)"
    "dg_header d' = ?h\<lparr>ip_cksum := right_checksum ?h\<rparr>"
    "concat (dg_payload d') = concat ([] # concat (map (\<lambda>b. [b, []]) ?tail))"
    by (rule ipv4_datagram_decoded [OF assms(1) len2])
  then show ?thesis using ser f by (auto simp: concat_buffers)
qed

theorem datagram_in_frame_roundtrip_witness:
  "\<exists>bs f d'. serialize (ipv4_datagram_serialize \<lparr>dg_header = IPv4Header\<lparr>ip_len := 22, ip_ttl := 9\<rparr>, dg_payload = [[1], [2]]\<rparr>) = Inr bs
    \<and> parse ethernet_frame_parse \<lparr>ef_header = EthernetHeader, ef_payload = []\<rparr>
        (serializer_output (ethernet_frame_serialize \<lparr>ef_header = EthernetHeader\<lparr>eh_type := TYPE_IPv4\<rparr>, ef_payload = bs\<rparr> Serializer)) = Inr (f, True)
    \<and> parse ipv4_datagram_parse IPv4Datagram (ef_payload f) = Inr (d', checksum_ok (IPv4Header\<lparr>ip_len := 22, ip_ttl := 9\<rparr>))
    \<and> concat (dg_payload d') = [1, 2]"
  using datagram_in_frame_roundtrip [of "\<lparr>dg_header = IPv4Header\<lparr>ip_len := 22, ip_ttl := 9\<rparr>, dg_payload = [[1], [2]]\<rparr>"
      "EthernetHeader\<lparr>eh_type := TYPE_IPv4\<rparr>" "\<lparr>ef_header = EthernetHeader, ef_payload = []\<rparr>" IPv4Datagram]
  by (auto simp: ipv4_shape_def IPv4Header_def ethernet_shape_def EthernetHeader_def)

text \<open>
  \<open>C20\<close>: on a list of buffers none of which is empty no parser of a packet has undefined
  behaviour or loops, whatever the bytes are and however few. Only the datagram parser can fail:
  it throws exactly when the version in the first byte is not four, where it was meant to report a
  parse error.
\<close>

theorem parsers_are_total:
  assumes "[] \<notin> set bs" and "length (concat bs) < 2 ^ 64"
  shows "(\<exists>r. parse arp_parse m bs = Inr r) \<and> (\<exists>r. parse ethernet_frame_parse f bs = Inr r)
    \<and> (if version_of (concat bs) = 4 then \<exists>r. parse ipv4_datagram_parse d bs = Inr r
       else parse ipv4_datagram_parse d bs = Inl (Runtime_Error ''wrong IP version''))"
proof -
  have s: "sound (Parser bs)" "\<not> p_error (Parser bs)" "bl_content (p_input (Parser bs)) = concat bs"
    using sound_Parser [OF assms(2,1)] BufferList_inv [OF assms(2,1)] by (simp_all add: Parser_def)
  have "\<exists>r. parse arp_parse m bs = Inr r"
    by (rule safeD [OF safe_arp [of m] s(1)]) (simp add: parse_def)
  moreover have "\<exists>r. parse ethernet_frame_parse f bs = Inr r"
  proof -
    obtain h p where p: "ethernet_header_parse (ef_header f) (Parser bs) = Inr (h, p)" "sound p"
      by (rule safeD [OF safe_ethernet_header s(1)])
    then show ?thesis using all_remaining_sound [OF p(2)] by (auto simp: parse_def ethernet_frame_parse_def)
  qed
  moreover note datagram_parse_outcome [OF assms, of d]
  ultimately show ?thesis by blast
qed

theorem parsers_are_total_witness:
  "parse ipv4_datagram_parse IPv4Datagram [[0x60, 0], [0]] = Inl (Runtime_Error ''wrong IP version'')
    \<and> (\<exists>r. parse arp_parse ARPMessage [[0x60, 0], [0]] = Inr r)"
  using parsers_are_total [of "[[0x60, 0], [0]]" ARPMessage _ IPv4Datagram] by (simp add: version_of_def)

end
