(* ===== verification/Network_Interface.thy ===== *)
theory Network_Interface
  imports Headers Address
begin

text \<open>
  \<open>src/src/network_interface.hh\<close> and \<open>network_interface.cc\<close>: the interface between IP and
  Ethernet. The two timeout queues are \<open>std::deque\<close>s into which the ARP table points. A pointer
  is the number of elements pushed before its target: it stays valid until that element is
  popped, and reading through it afterwards is undefined.
\<close>

section \<open>A deque one can point into\<close>

record 'n deque =
  dq_popped :: nat
  dq_items :: "'n list"

definition dq_new :: "'n deque" where
  "dq_new = \<lparr>dq_popped = 0, dq_items = []\<rparr>"

definition dq_emplace_back :: "'n deque \<Rightarrow> 'n \<Rightarrow> 'n deque" where
  "dq_emplace_back q x = q\<lparr>dq_items := dq_items q @ [x]\<rparr>"

definition dq_back_ptr :: "'n deque \<Rightarrow> nat" where
  "dq_back_ptr q = dq_popped q + (length (dq_items q) - 1)"

definition dq_deref :: "'n deque \<Rightarrow> nat \<Rightarrow> 'n outcome" where
  "dq_deref q ptr = (if ptr < dq_popped q then Inl Undefined else vec_at (dq_items q) (ptr - dq_popped q))"

section \<open>State\<close>

record arp_mapping_node =
  mn_ipv4 :: "32 word"
  mn_eth_addr :: ethernet_address
  mn_timestamp :: nat

record arp_request_time_node =
  rn_ipv4 :: "32 word"
  rn_timestamp :: nat

record arp_table_entry =
  te_mapping :: "nat option"
  te_request :: "nat option"
  te_pending :: "ipv4_datagram list"

definition ArpTableEntry :: arp_table_entry where
  "ArpTableEntry = \<lparr>te_mapping = None, te_request = None, te_pending = []\<rparr>"

record network_interface =
  ni_ethernet_address :: ethernet_address
  ni_ip_address :: address
  ni_ipv4 :: "32 word"
  ni_frames :: "ethernet_frame list"
  ni_mappings :: "arp_mapping_node deque"
  ni_requests :: "arp_request_time_node deque"
  ni_table :: "32 word \<rightharpoonup> arp_table_entry"
  ni_timestamp :: nat

definition ArpTableEntryTimeoutMs :: nat where "ArpTableEntryTimeoutMs = 30000"
definition ArpRequestWaitingMs :: nat where "ArpRequestWaitingMs = 5000"

definition NetworkInterface :: "ethernet_address \<Rightarrow> address \<Rightarrow> network_interface outcome" where
  "NetworkInterface eth ip =
     andthen (ipv4_numeric ip) (\<lambda>ipv4.
     Inr \<lparr>ni_ethernet_address = eth, ni_ip_address = ip, ni_ipv4 = ipv4, ni_frames = [],
          ni_mappings = dq_new, ni_requests = dq_new, ni_table = Map.empty, ni_timestamp = 0\<rparr>)"

text \<open>\<open>arp_table_[ip]\<close>: the entry is created when it is not there.\<close>

definition table_at :: "(32 word \<rightharpoonup> arp_table_entry) \<Rightarrow> 32 word \<Rightarrow> arp_table_entry" where
  "table_at t ip = (case t ip of None \<Rightarrow> ArpTableEntry | Some e \<Rightarrow> e)"

definition emplace_frame :: "ethernet_frame \<Rightarrow> network_interface \<Rightarrow> network_interface" where
  "emplace_frame f ni = ni\<lparr>ni_frames := ni_frames ni @ [f]\<rparr>"

section \<open>Operations\<close>

definition send_datagram :: "network_interface \<Rightarrow> ipv4_datagram \<Rightarrow> address \<Rightarrow> network_interface outcome" where
  "send_datagram ni dgram next_hop =
     andthen (ipv4_numeric next_hop) (\<lambda>dst_ip.
     let entry = table_at (ni_table ni) dst_ip;
         ni = ni\<lparr>ni_table := (ni_table ni)(dst_ip \<mapsto> entry)\<rparr>
     in case te_mapping entry of
          None \<Rightarrow>
            (case te_request entry of
               None \<Rightarrow>
                 andthen (serialize (arp_serialize
                   (ARPMessage_request OPCODE_REQUEST (ni_ethernet_address ni) (ni_ipv4 ni) dst_ip))) (\<lambda>payload.
                 let requests = dq_emplace_back (ni_requests ni) \<lparr>rn_ipv4 = dst_ip, rn_timestamp = ni_timestamp ni\<rparr>;
                     entry' = entry\<lparr>te_pending := te_pending entry @ [dgram], te_request := Some (dq_back_ptr requests)\<rparr>
                 in Inr ((emplace_frame (broadcast_frame (ni_ethernet_address ni) TYPE_ARP payload) ni)
                      \<lparr>ni_requests := requests, ni_table := (ni_table ni)(dst_ip \<mapsto> entry')\<rparr>))
             | Some _ \<Rightarrow> Inr ni)
        | Some ptr \<Rightarrow>
            andthen (dq_deref (ni_mappings ni) ptr) (\<lambda>node.
            andthen (serialize (ipv4_datagram_serialize dgram)) (\<lambda>payload.
            Inr (emplace_frame (unicast_frame (mn_eth_addr node) (ni_ethernet_address ni) TYPE_IPv4 payload) ni))))"

fun flush_pending :: "ethernet_address \<Rightarrow> ipv4_datagram list \<Rightarrow> network_interface \<Rightarrow> network_interface outcome" where
  "flush_pending other_eth [] ni = Inr ni"
| "flush_pending other_eth (d # ds) ni =
     andthen (serialize (ipv4_datagram_serialize d)) (\<lambda>payload.
     flush_pending other_eth ds
       (emplace_frame (unicast_frame other_eth (ni_ethernet_address ni) TYPE_IPv4 payload) ni))"

definition learn_mapping :: "32 word \<Rightarrow> ethernet_address \<Rightarrow> network_interface \<Rightarrow> network_interface outcome" where
  "learn_mapping other_ip other_eth ni =
     (let entry = table_at (ni_table ni) other_ip
      in case te_mapping entry of
           None \<Rightarrow>
             let mappings = dq_emplace_back (ni_mappings ni)
                   \<lparr>mn_ipv4 = other_ip, mn_eth_addr = other_eth, mn_timestamp = ni_timestamp ni\<rparr>;
                 entry' = entry\<lparr>te_mapping := Some (dq_back_ptr mappings), te_pending := []\<rparr>
             in flush_pending other_eth (te_pending entry)
                  (ni\<lparr>ni_mappings := mappings, ni_table := (ni_table ni)(other_ip \<mapsto> entry')\<rparr>)
         | Some _ \<Rightarrow> Inr (ni\<lparr>ni_table := (ni_table ni)(other_ip \<mapsto> entry)\<rparr>))"

definition answer_request :: "arp_message \<Rightarrow> network_interface \<Rightarrow> network_interface outcome" where
  "answer_request m ni =
     (if arp_opcode m = OPCODE_REQUEST then
        andthen (serialize (arp_serialize (ARPMessage_reply OPCODE_REPLY (ni_ethernet_address ni) (ni_ipv4 ni)
          (arp_sender_ethernet_address m) (arp_sender_ip_address m)))) (\<lambda>payload.
        Inr (emplace_frame (unicast_frame (arp_sender_ethernet_address m) (ni_ethernet_address ni) TYPE_ARP payload) ni))
      else Inr ni)"

definition recv_frame ::
  "network_interface \<Rightarrow> ethernet_frame \<Rightarrow> (ipv4_datagram option \<times> network_interface) outcome" where
  "recv_frame ni frame =
     (let header = ef_header frame
      in if eh_dst header \<noteq> ni_ethernet_address ni \<and> eh_dst header \<noteq> ETHERNET_BROADCAST then Inr (None, ni)
         else if eh_type header = TYPE_IPv4 then
           andthen (parse ipv4_datagram_parse IPv4Datagram (ef_payload frame)) (\<lambda>(ret, ok). Inr (Some ret, ni))
         else if eh_type header = TYPE_ARP then
           andthen (parse arp_parse ARPMessage (ef_payload frame)) (\<lambda>(arp_msg, ok).
             if arp_target_ip_address arp_msg \<noteq> ni_ipv4 ni then Inr (None, ni)
             else andthen (learn_mapping (arp_sender_ip_address arp_msg) (arp_sender_ethernet_address arp_msg) ni) (\<lambda>ni.
                  andthen (answer_request arp_msg ni) (\<lambda>ni. Inr (None, ni))))
         else Inl (Runtime_Error ''[NetworkInterface::recv_frame] Invalid Ethernet Type''))"

text \<open>The two loops of \<open>tick\<close>: \<open>popped\<close> and the items are those of the queue.\<close>

fun expire_mappings ::
  "nat \<Rightarrow> nat \<Rightarrow> arp_mapping_node list \<Rightarrow> (32 word \<rightharpoonup> arp_table_entry) \<Rightarrow>
   arp_mapping_node deque \<times> (32 word \<rightharpoonup> arp_table_entry)" where
  "expire_mappings now popped [] t = (\<lparr>dq_popped = popped, dq_items = []\<rparr>, t)"
| "expire_mappings now popped (n # ns) t =
     (if now < add64 (mn_timestamp n) ArpTableEntryTimeoutMs then (\<lparr>dq_popped = popped, dq_items = n # ns\<rparr>, t)
      else expire_mappings now (popped + 1) ns (t(mn_ipv4 n \<mapsto> (table_at t (mn_ipv4 n))\<lparr>te_mapping := None\<rparr>)))"

fun expire_requests ::
  "nat \<Rightarrow> nat \<Rightarrow> arp_request_time_node list \<Rightarrow> (32 word \<rightharpoonup> arp_table_entry) \<Rightarrow>
   arp_request_time_node deque \<times> (32 word \<rightharpoonup> arp_table_entry)" where
  "expire_requests now popped [] t = (\<lparr>dq_popped = popped, dq_items = []\<rparr>, t)"
| "expire_requests now popped (n # ns) t =
     (if now < add64 (rn_timestamp n) ArpRequestWaitingMs then (\<lparr>dq_popped = popped, dq_items = n # ns\<rparr>, t)
      else expire_requests now (popped + 1) ns (t(rn_ipv4 n \<mapsto> (table_at t (rn_ipv4 n))\<lparr>te_request := None\<rparr>)))"

definition interface_tick :: "network_interface \<Rightarrow> nat \<Rightarrow> network_interface" where
  "interface_tick ni ms_since_last_tick =
     (let now = add64 (ni_timestamp ni) ms_since_last_tick;
          (mappings, t) = expire_mappings now (dq_popped (ni_mappings ni)) (dq_items (ni_mappings ni)) (ni_table ni);
          (requests, t) = expire_requests now (dq_popped (ni_requests ni)) (dq_items (ni_requests ni)) t
      in ni\<lparr>ni_timestamp := now, ni_mappings := mappings, ni_requests := requests, ni_table := t\<rparr>)"

definition interface_maybe_send :: "network_interface \<Rightarrow> ethernet_frame option \<times> network_interface" where
  "interface_maybe_send ni =
     (case ni_frames ni of
        [] \<Rightarrow> (None, ni)
      | f # fs \<Rightarrow> (Some f, ni\<lparr>ni_frames := fs\<rparr>))"

definition getMacAddress :: "network_interface \<Rightarrow> ethernet_address" where
  "getMacAddress ni = ni_ethernet_address ni"

definition getIpv4 :: "network_interface \<Rightarrow> 32 word" where
  "getIpv4 ni = ni_ipv4 ni"

end
