(* ===== verification/Interface_Refinement.thy ===== *)
theory Interface_Refinement
  imports Network_Interface Codec
begin

text \<open>
  What the network interface promises: an abstract ARP cache, in which every IP address has at
  most one learned Ethernet address and one outstanding request, both with the time they date
  from, and a list of datagrams that wait. The pointers of the code into its two timeout queues
  implement it: no pointer dangles, and every element of a queue is the target of exactly one
  entry of the table.
\<close>

section \<open>Pointers into a queue\<close>

definition pointers :: "(arp_table_entry \<Rightarrow> nat option) \<Rightarrow> (32 word \<rightharpoonup> arp_table_entry) \<Rightarrow> 32 word \<Rightarrow> nat option" where
  "pointers ptr_of t ip = ptr_of (table_at t ip)"

definition points :: "('n \<Rightarrow> 32 word) \<Rightarrow> 'n deque \<Rightarrow> (32 word \<Rightarrow> nat option) \<Rightarrow> bool" where
  "points key q ptr \<longleftrightarrow>
     (\<forall>ip p. ptr ip = Some p \<longrightarrow> dq_popped q \<le> p \<and> p < dq_popped q + length (dq_items q)
        \<and> key (dq_items q ! (p - dq_popped q)) = ip)
   \<and> (\<forall>i < length (dq_items q). ptr (key (dq_items q ! i)) = Some (dq_popped q + i))"

definition looked :: "'n deque \<Rightarrow> (32 word \<Rightarrow> nat option) \<Rightarrow> 32 word \<Rightarrow> 'n option" where
  "looked q ptr ip = map_option (\<lambda>p. dq_items q ! (p - dq_popped q)) (ptr ip)"

lemma table_at_upd [simp]: "table_at (t(ip \<mapsto> e)) x = (if x = ip then e else table_at t x)"
  by (simp add: table_at_def)

lemma pointers_upd: "pointers f (t(ip \<mapsto> e)) = (pointers f t)(ip := f e)"
  by (rule ext) (simp add: pointers_def)

lemma pointers_same [simp]: "f e = pointers f t ip \<Longrightarrow> (pointers f t)(ip := f e) = pointers f t"
  by (rule ext) simp

lemma points_deref:
  assumes "points key q ptr" "ptr ip = Some p"
  shows "dq_deref q p = Inr (the (looked q ptr ip))" "key (the (looked q ptr ip)) = ip"
    "the (looked q ptr ip) \<in> set (dq_items q)"
proof -
  have b: "dq_popped q \<le> p" "p < dq_popped q + length (dq_items q)" "key (dq_items q ! (p - dq_popped q)) = ip"
    using assms by (auto simp: points_def)
  have l: "the (looked q ptr ip) = dq_items q ! (p - dq_popped q)" using assms(2) by (simp add: looked_def)
  have i: "p - dq_popped q < length (dq_items q)" using b by linarith
  show "dq_deref q p = Inr (the (looked q ptr ip))" using b i l by (simp add: dq_deref_def)
  show "key (the (looked q ptr ip)) = ip" using b l by simp
  show "the (looked q ptr ip) \<in> set (dq_items q)" using i l by simp
qed

lemma looked_None: "looked q ptr ip = None \<longleftrightarrow> ptr ip = None"
  by (simp add: looked_def)

lemma deque_eta [simp]: "\<lparr>dq_popped = dq_popped q, dq_items = dq_items q\<rparr> = (q :: 'n deque)"
  by simp

lemma points_new: "points key dq_new (\<lambda>_. None)"
  by (simp add: points_def dq_new_def)

lemma points_push:
  assumes p: "points key q ptr" and new: "ptr (key n) = None"
  defines "q' \<equiv> dq_emplace_back q n"
  shows "points key q' (ptr(key n := Some (dq_back_ptr q')))"
    "looked q' (ptr(key n := Some (dq_back_ptr q'))) = (looked q ptr)(key n := Some n)"
proof -
  have bk: "dq_back_ptr q' = dq_popped q + length (dq_items q)" "dq_popped q' = dq_popped q"
    "dq_items q' = dq_items q @ [n]" by (simp_all add: q'_def dq_back_ptr_def dq_emplace_back_def)
  have other: "key (dq_items q ! i) \<noteq> key n" if "i < length (dq_items q)" for i
    using p new that by (auto simp: points_def)
  have in_q: "p - dq_popped q < length (dq_items q)" "dq_popped q \<le> p" "key (dq_items q ! (p - dq_popped q)) = ip"
    if "ptr ip = Some p" for ip p using p that unfolding points_def by (metis less_diff_conv2 add.commute)+
  show "points key q' (ptr(key n := Some (dq_back_ptr q')))"
    unfolding points_def
  proof (intro conjI allI impI)
    fix ip k assume a: "(ptr(key n := Some (dq_back_ptr q'))) ip = Some k"
    show "dq_popped q' \<le> k" "k < dq_popped q' + length (dq_items q')" "key (dq_items q' ! (k - dq_popped q')) = ip"
      using a in_q [of ip k] by (auto simp: bk nth_append split: if_splits)
  next
    fix i assume "i < length (dq_items q')"
    then consider "i < length (dq_items q)" | "i = length (dq_items q)" by (auto simp: bk less_Suc_eq)
    then show "(ptr(key n := Some (dq_back_ptr q'))) (key (dq_items q' ! i)) = Some (dq_popped q' + i)"
    proof cases
      case 1
      then show ?thesis using other [OF 1] p by (simp add: bk nth_append points_def)
    next
      case 2
      then show ?thesis by (simp add: bk)
    qed
  qed
  show "looked q' (ptr(key n := Some (dq_back_ptr q'))) = (looked q ptr)(key n := Some n)"
  proof
    fix ip
    show "looked q' (ptr(key n := Some (dq_back_ptr q'))) ip = ((looked q ptr)(key n := Some n)) ip"
    proof (cases "ip = key n")
      case True
      then show ?thesis by (simp add: looked_def bk)
    next
      case False
      then show ?thesis using in_q by (cases "ptr ip") (auto simp: looked_def bk nth_append)
    qed
  qed
qed

lemma points_pop:
  assumes p: "points key \<lparr>dq_popped = k, dq_items = n # ns\<rparr> ptr"
  shows "points key \<lparr>dq_popped = k + 1, dq_items = ns\<rparr> (ptr(key n := None))"
    "looked \<lparr>dq_popped = k + 1, dq_items = ns\<rparr> (ptr(key n := None))
      = (looked \<lparr>dq_popped = k, dq_items = n # ns\<rparr> ptr)(key n := None)"
    "looked \<lparr>dq_popped = k, dq_items = n # ns\<rparr> ptr (key n) = Some n"
proof -
  have front: "ptr (key n) = Some k" using p unfolding points_def by fastforce
  have items: "ptr (key (ns ! i)) = Some (Suc (k + i))" if "i < length ns" for i
  proof -
    have "Suc i < length (n # ns)" using that by simp
    then have "ptr (key ((n # ns) ! Suc i)) = Some (k + Suc i)" using p unfolding points_def by (metis deque.select_convs)
    then show ?thesis by simp
  qed
  have other: "key (ns ! i) \<noteq> key n" if "i < length ns" for i using items [OF that] front by auto
  have inside: "k < x \<and> x - Suc k < length ns \<and> key (ns ! (x - Suc k)) = ip \<and> (n # ns) ! (x - k) = ns ! (x - Suc k)"
    if "ptr ip = Some x" "ip \<noteq> key n" for ip x
  proof -
    have b: "k \<le> x" "x < k + length (n # ns)" "key ((n # ns) ! (x - k)) = ip"
      using p that(1) unfolding points_def by (metis deque.select_convs)+
    have "x \<noteq> k" using b(3) that(2) by auto
    then obtain j where j: "x = Suc (k + j)" using b(1) by (metis le_neq_implies_less less_imp_Suc_add)
    then have "x - k = Suc j" "x - Suc k = j" by simp_all
    then show ?thesis using b(2,3) j by simp
  qed
  show "points key \<lparr>dq_popped = k + 1, dq_items = ns\<rparr> (ptr(key n := None))"
    unfolding points_def
  proof (intro conjI allI impI)
    fix ip x assume "(ptr(key n := None)) ip = Some x"
    then have a: "ptr ip = Some x" "ip \<noteq> key n" by (auto split: if_splits)
    show "dq_popped \<lparr>dq_popped = k + 1, dq_items = ns\<rparr> \<le> x"
      "x < dq_popped \<lparr>dq_popped = k + 1, dq_items = ns\<rparr> + length (dq_items \<lparr>dq_popped = k + 1, dq_items = ns\<rparr>)"
      "key (dq_items \<lparr>dq_popped = k + 1, dq_items = ns\<rparr> ! (x - dq_popped \<lparr>dq_popped = k + 1, dq_items = ns\<rparr>)) = ip"
      using inside [OF a] by auto
  next
    fix i assume "i < length (dq_items \<lparr>dq_popped = k + 1, dq_items = ns\<rparr>)"
    then have "i < length ns" by simp
    then show "(ptr(key n := None)) (key (dq_items \<lparr>dq_popped = k + 1, dq_items = ns\<rparr> ! i))
        = Some (dq_popped \<lparr>dq_popped = k + 1, dq_items = ns\<rparr> + i)"
      using other items by simp
  qed
  show "looked \<lparr>dq_popped = k + 1, dq_items = ns\<rparr> (ptr(key n := None))
      = (looked \<lparr>dq_popped = k, dq_items = n # ns\<rparr> ptr)(key n := None)"
  proof
    fix ip
    show "looked \<lparr>dq_popped = k + 1, dq_items = ns\<rparr> (ptr(key n := None)) ip
      = ((looked \<lparr>dq_popped = k, dq_items = n # ns\<rparr> ptr)(key n := None)) ip"
      using inside [of ip] by (cases "ptr ip"; cases "ip = key n") (auto simp: looked_def)
  qed
  show "looked \<lparr>dq_popped = k, dq_items = n # ns\<rparr> ptr (key n) = Some n" using front by (simp add: looked_def)
qed

section \<open>Queues that expire\<close>

text \<open>
  The contract of the two loops of \<open>tick\<close>: they drop the elements at the front that are older
  than the limit and clear the pointers to them. \<open>alive\<close> is what remains of an element at
  a time.
\<close>

definition alive :: "('n \<Rightarrow> nat) \<Rightarrow> nat \<Rightarrow> nat \<Rightarrow> 'n option \<Rightarrow> 'n option" where
  "alive stamp limit now x = (case x of None \<Rightarrow> None | Some n \<Rightarrow> if stamp n + limit \<le> now then None else Some n)"

locale expiring_queue =
  fixes key :: "'n \<Rightarrow> 32 word" and stamp :: "'n \<Rightarrow> nat" and limit :: nat
    and expire :: "nat \<Rightarrow> nat \<Rightarrow> 'n list \<Rightarrow> (32 word \<rightharpoonup> arp_table_entry) \<Rightarrow> 'n deque \<times> (32 word \<rightharpoonup> arp_table_entry)"
    and ptr_of :: "arp_table_entry \<Rightarrow> nat option" and clear :: "arp_table_entry \<Rightarrow> arp_table_entry"
  assumes expire_Nil: "expire now k [] t = (\<lparr>dq_popped = k, dq_items = []\<rparr>, t)"
    and expire_Cons: "expire now k (n # ns) t =
      (if now < add64 (stamp n) limit then (\<lparr>dq_popped = k, dq_items = n # ns\<rparr>, t)
       else expire now (k + 1) ns (t(key n \<mapsto> clear (table_at t (key n)))))"
    and ptr_clear: "ptr_of (clear e) = None" and clear_clear: "clear (clear e) = clear e"
begin

lemma expire_spec:
  assumes "points key \<lparr>dq_popped = k, dq_items = ns\<rparr> (pointers ptr_of t)" "sorted (map stamp ns)"
    "\<forall>n \<in> set ns. stamp n + limit < 2 ^ 64"
  obtains q t' where "expire now k ns t = (q, t')" "points key q (pointers ptr_of t')"
    "looked q (pointers ptr_of t') = (\<lambda>ip. alive stamp limit now (looked \<lparr>dq_popped = k, dq_items = ns\<rparr> (pointers ptr_of t) ip))"
    "sorted (map stamp (dq_items q))" "set (dq_items q) \<subseteq> set ns"
    "\<forall>ip. table_at t' ip \<in> {table_at t ip, clear (table_at t ip)}"
  using assms
proof (induction ns arbitrary: k t thesis)
  case Nil
  have "pointers ptr_of t ip = None" for ip
    using Nil.prems(2) by (cases "pointers ptr_of t ip") (fastforce simp: points_def)+
  then have "looked \<lparr>dq_popped = k, dq_items = []\<rparr> (pointers ptr_of t) = (\<lambda>ip. alive stamp limit now
      (looked \<lparr>dq_popped = k, dq_items = []\<rparr> (pointers ptr_of t) ip))"
    by (intro ext) (simp add: looked_def alive_def)
  then show ?case using Nil.prems(2) by (intro Nil.prems(1) [OF expire_Nil]) simp_all
next
  case (Cons n ns)
  let ?q = "\<lparr>dq_popped = k, dq_items = n # ns\<rparr>"
  have limit: "add64 (stamp n) limit = stamp n + limit" using Cons.prems(4) by (simp add: wadd_nowrap)
  show ?case
  proof (cases "now < stamp n + limit")
    case True
    have "alive stamp limit now (looked ?q (pointers ptr_of t) ip) = looked ?q (pointers ptr_of t) ip" for ip
    proof (cases "pointers ptr_of t ip")
      case (Some x)
      have "the (looked ?q (pointers ptr_of t) ip) \<in> set (dq_items ?q)"
        by (rule points_deref(3) [OF Cons.prems(2) Some])
      then have "stamp n \<le> stamp (the (looked ?q (pointers ptr_of t) ip))" using Cons.prems(3) by auto
      then show ?thesis using True Some by (auto simp: alive_def looked_def)
    qed (simp add: looked_def alive_def)
    then show ?thesis using True Cons.prems(2,3) limit by (intro Cons.prems(1) [of ?q t]) (simp_all add: expire_Cons)
  next
    case False
    let ?t = "t(key n \<mapsto> clear (table_at t (key n)))"
    have ptr: "pointers ptr_of ?t = (pointers ptr_of t)(key n := None)" by (simp add: pointers_upd ptr_clear)
    note pop = points_pop [OF Cons.prems(2)]
    have points: "points key \<lparr>dq_popped = k + 1, dq_items = ns\<rparr> (pointers ptr_of ?t)" unfolding ptr by (rule pop(1))
    have tail: "sorted (map stamp ns)" "\<forall>n \<in> set ns. stamp n + limit < 2 ^ 64" using Cons.prems(3,4) by simp_all
    obtain q t' where r: "expire now (k + 1) ns ?t = (q, t')" "points key q (pointers ptr_of t')"
      "looked q (pointers ptr_of t') = (\<lambda>ip. alive stamp limit now (looked \<lparr>dq_popped = k + 1, dq_items = ns\<rparr> (pointers ptr_of ?t) ip))"
      "sorted (map stamp (dq_items q))" "set (dq_items q) \<subseteq> set ns"
      "\<forall>ip. table_at t' ip \<in> {table_at ?t ip, clear (table_at ?t ip)}"
      by (rule Cons.IH [OF _ points tail(1,2)])
    have "alive stamp limit now (looked \<lparr>dq_popped = k + 1, dq_items = ns\<rparr> (pointers ptr_of ?t) ip)
        = alive stamp limit now (looked ?q (pointers ptr_of t) ip)" for ip
      using pop(2,3) ptr False by (simp add: alive_def)
    then have l: "looked q (pointers ptr_of t') = (\<lambda>ip. alive stamp limit now (looked ?q (pointers ptr_of t) ip))"
      using r(3) by simp
    have e: "table_at t' ip \<in> {table_at t ip, clear (table_at t ip)}" for ip
      using spec [OF r(6), of ip] by (auto simp: clear_clear split: if_splits)
    have "expire now k (n # ns) t = (q, t')" using False limit r(1) by (simp add: expire_Cons)
    then show ?thesis using r(5) by (intro Cons.prems(1) [OF _ r(2) l r(4)] allI e) auto
  qed
qed

end

interpretation mapping_queue: expiring_queue mn_ipv4 mn_timestamp ArpTableEntryTimeoutMs expire_mappings
    te_mapping "\<lambda>e. e\<lparr>te_mapping := None\<rparr>"
  by unfold_locales simp_all

interpretation request_queue: expiring_queue rn_ipv4 rn_timestamp ArpRequestWaitingMs expire_requests
    te_request "\<lambda>e. e\<lparr>te_request := None\<rparr>"
  by unfold_locales simp_all

section \<open>The abstract ARP cache\<close>

record arp_cache =
  ac_now :: nat
  ac_learned :: "32 word \<Rightarrow> (ethernet_address \<times> nat) option"
  ac_requested :: "32 word \<Rightarrow> nat option"
  ac_pending :: "32 word \<Rightarrow> ipv4_datagram list"
  ac_frames :: "ethernet_frame list"

definition datagram_buffers :: "ipv4_datagram \<Rightarrow> byte list list" where
  "datagram_buffers d = ipv4_bytes (dg_header d) # concat (map (\<lambda>b. [b, []]) (dg_payload d))"

definition datagram_frame :: "ethernet_address \<Rightarrow> ethernet_address \<Rightarrow> ipv4_datagram \<Rightarrow> ethernet_frame" where
  "datagram_frame dst src d = unicast_frame dst src TYPE_IPv4 (datagram_buffers d)"

definition request_frame :: "ethernet_address \<Rightarrow> 32 word \<Rightarrow> 32 word \<Rightarrow> ethernet_frame" where
  "request_frame src ipv4 ip = broadcast_frame src TYPE_ARP [arp_bytes (ARPMessage_request OPCODE_REQUEST src ipv4 ip)]"

definition cache_send :: "ethernet_address \<Rightarrow> 32 word \<Rightarrow> arp_cache \<Rightarrow> ipv4_datagram \<Rightarrow> 32 word \<Rightarrow> arp_cache" where
  "cache_send eth ipv4 c d ip =
     (case ac_learned c ip of
        Some (mac, _) \<Rightarrow> c\<lparr>ac_frames := ac_frames c @ [datagram_frame mac eth d]\<rparr>
      | None \<Rightarrow>
          if ac_requested c ip = None
          then c\<lparr>ac_frames := ac_frames c @ [request_frame eth ipv4 ip],
                 ac_requested := (ac_requested c)(ip := Some (ac_now c)),
                 ac_pending := (ac_pending c)(ip := ac_pending c ip @ [d])\<rparr>
          else c)"

definition cache_learn :: "ethernet_address \<Rightarrow> arp_cache \<Rightarrow> 32 word \<Rightarrow> ethernet_address \<Rightarrow> arp_cache" where
  "cache_learn eth c ip mac =
     (if ac_learned c ip = None
      then c\<lparr>ac_learned := (ac_learned c)(ip := Some (mac, ac_now c)),
             ac_pending := (ac_pending c)(ip := []),
             ac_frames := ac_frames c @ map (datagram_frame mac eth) (ac_pending c ip)\<rparr>
      else c)"

definition cache_answer :: "ethernet_address \<Rightarrow> 32 word \<Rightarrow> arp_cache \<Rightarrow> arp_message \<Rightarrow> arp_cache" where
  "cache_answer eth ipv4 c m =
     (if arp_opcode m = OPCODE_REQUEST
      then c\<lparr>ac_frames := ac_frames c @ [unicast_frame (arp_sender_ethernet_address m) eth TYPE_ARP
             [arp_bytes (ARPMessage_reply OPCODE_REPLY eth ipv4 (arp_sender_ethernet_address m) (arp_sender_ip_address m))]]\<rparr>
      else c)"

definition cache_receive_arp :: "ethernet_address \<Rightarrow> 32 word \<Rightarrow> arp_cache \<Rightarrow> arp_message \<Rightarrow> arp_cache" where
  "cache_receive_arp eth ipv4 c m =
     (if arp_target_ip_address m \<noteq> ipv4 then c
      else cache_answer eth ipv4 (cache_learn eth c (arp_sender_ip_address m) (arp_sender_ethernet_address m)) m)"

definition cache_tick :: "arp_cache \<Rightarrow> nat \<Rightarrow> arp_cache" where
  "cache_tick c ms =
     (let now = ac_now c + ms
      in c\<lparr>ac_now := now,
           ac_learned := (\<lambda>ip. alive snd 30000 now (ac_learned c ip)),
           ac_requested := (\<lambda>ip. alive (\<lambda>t. t) 5000 now (ac_requested c ip))\<rparr>)"

section \<open>Abstraction and invariant\<close>

abbreviation "mapping_ptr ni \<equiv> pointers te_mapping (ni_table ni)"
abbreviation "request_ptr ni \<equiv> pointers te_request (ni_table ni)"
abbreviation "pending ni ip \<equiv> te_pending (table_at (ni_table ni) ip)"

definition interface_abs :: "network_interface \<Rightarrow> arp_cache" where
  "interface_abs ni =
     \<lparr>ac_now = ni_timestamp ni,
      ac_learned = (\<lambda>ip. map_option (\<lambda>n. (mn_eth_addr n, mn_timestamp n)) (looked (ni_mappings ni) (mapping_ptr ni) ip)),
      ac_requested = (\<lambda>ip. map_option rn_timestamp (looked (ni_requests ni) (request_ptr ni) ip)),
      ac_pending = (\<lambda>ip. pending ni ip),
      ac_frames = ni_frames ni\<rparr>"

definition interface_inv :: "network_interface \<Rightarrow> bool" where
  "interface_inv ni \<longleftrightarrow>
     points mn_ipv4 (ni_mappings ni) (mapping_ptr ni) \<and> points rn_ipv4 (ni_requests ni) (request_ptr ni)
   \<and> sorted (map mn_timestamp (dq_items (ni_mappings ni))) \<and> sorted (map rn_timestamp (dq_items (ni_requests ni)))
   \<and> (\<forall>n \<in> set (dq_items (ni_mappings ni)). mn_timestamp n \<le> ni_timestamp ni)
   \<and> (\<forall>n \<in> set (dq_items (ni_requests ni)). rn_timestamp n \<le> ni_timestamp ni)
   \<and> (\<forall>ip. mapping_ptr ni ip \<noteq> None \<longrightarrow> pending ni ip = [])
   \<and> (\<forall>ip. \<forall>d \<in> set (pending ni ip). ip_ver (dg_header d) = 4)"

lemma entry_refresh [simp]: "table_at (t(ip \<mapsto> table_at t ip)) = table_at t"
  by (rule ext) simp

lemma pointers_refresh [simp]: "pointers f (t(ip \<mapsto> table_at t ip)) = pointers f t"
  by (rule ext) (simp add: pointers_def)

text \<open>Creating an entry, or queueing a frame, changes nothing else.\<close>

lemma refresh_abs:
  "interface_abs (ni\<lparr>ni_table := (ni_table ni)(ip \<mapsto> table_at (ni_table ni) ip)\<rparr>) = interface_abs ni"
  "interface_inv (ni\<lparr>ni_table := (ni_table ni)(ip \<mapsto> table_at (ni_table ni) ip)\<rparr>) = interface_inv ni"
  by (simp_all add: interface_abs_def interface_inv_def del: fun_upd_apply)

lemma emplace_frame_abs:
  "interface_abs (emplace_frame f ni) = (interface_abs ni)\<lparr>ac_frames := ni_frames ni @ [f]\<rparr>"
  "interface_inv (emplace_frame f ni) = interface_inv ni"
  by (simp_all add: emplace_frame_def interface_abs_def interface_inv_def)

lemma datagram_serialized:
  "ip_ver (dg_header d) = 4 \<Longrightarrow> serialize (ipv4_datagram_serialize d) = Inr (datagram_buffers d)"
  by (simp add: serialize_def ipv4_datagram_serialize_def ipv4_header_serialize_bytes buffers_output
      put_def Serializer_def datagram_buffers_def)

lemma arp_messages_supported:
  "arp_supported (ARPMessage_request OPCODE_REQUEST eth ipv4 ip)"
  "arp_supported (ARPMessage_reply OPCODE_REPLY eth ipv4 mac ip)"
  by (simp_all add: arp_supported_def ARPMessage_request_def ARPMessage_reply_def)

section \<open>Sending\<close>

lemma send_known:
  assumes inv: "interface_inv ni" and ver: "ip_ver (dg_header d) = 4" and m: "mapping_ptr ni ip = Some p"
  obtains ni' where "send_datagram ni d (ipv4_address ip) = Inr ni'" "interface_inv ni'"
    "interface_abs ni' = cache_send (ni_ethernet_address ni) (ni_ipv4 ni) (interface_abs ni) d ip"
proof -
  let ?ni = "ni\<lparr>ni_table := (ni_table ni)(ip \<mapsto> table_at (ni_table ni) ip)\<rparr>"
  obtain n where l: "looked (ni_mappings ni) (mapping_ptr ni) ip = Some n" using m by (auto simp: looked_def)
  let ?f = "unicast_frame (mn_eth_addr n) (ni_ethernet_address ni) TYPE_IPv4 (datagram_buffers d)"
  have te: "te_mapping (table_at (ni_table ni) ip) = Some p" using m by (simp add: pointers_def)
  have "points mn_ipv4 (ni_mappings ni) (mapping_ptr ni)" using inv by (simp add: interface_inv_def)
  then have deref: "dq_deref (ni_mappings ni) p = Inr n" using points_deref(1) m l by fastforce
  have "send_datagram ni d (ipv4_address ip) = Inr (emplace_frame ?f ?ni)"
    by (simp add: send_datagram_def ipv4_numeric_address Let_def te deref datagram_serialized [OF ver])
  moreover have "interface_inv (emplace_frame ?f ?ni)" using inv by (simp only: emplace_frame_abs refresh_abs)
  moreover have "ac_learned (interface_abs ni) ip = Some (mn_eth_addr n, mn_timestamp n)"
    by (simp add: interface_abs_def l)
  then have "interface_abs (emplace_frame ?f ?ni) = cache_send (ni_ethernet_address ni) (ni_ipv4 ni) (interface_abs ni) d ip"
    by (simp only: emplace_frame_abs refresh_abs cache_send_def) (simp add: interface_abs_def datagram_frame_def)
  ultimately show thesis by (rule that)
qed

lemma send_waiting:
  assumes inv: "interface_inv ni" and m: "mapping_ptr ni ip = None" and r: "request_ptr ni ip = Some p"
  obtains ni' where "send_datagram ni d (ipv4_address ip) = Inr ni'" "interface_inv ni'"
    "interface_abs ni' = cache_send (ni_ethernet_address ni) (ni_ipv4 ni) (interface_abs ni) d ip"
proof -
  let ?ni = "ni\<lparr>ni_table := (ni_table ni)(ip \<mapsto> table_at (ni_table ni) ip)\<rparr>"
  have "te_mapping (table_at (ni_table ni) ip) = None" "te_request (table_at (ni_table ni) ip) = Some p"
    using m r by (simp_all add: pointers_def)
  then have "send_datagram ni d (ipv4_address ip) = Inr ?ni"
    by (simp add: send_datagram_def ipv4_numeric_address Let_def)
  moreover have "ac_learned (interface_abs ni) ip = None" "ac_requested (interface_abs ni) ip \<noteq> None"
    using m r by (simp_all add: interface_abs_def looked_def)
  then have "cache_send (ni_ethernet_address ni) (ni_ipv4 ni) (interface_abs ni) d ip = interface_abs ni"
    by (auto simp: cache_send_def)
  ultimately show thesis using inv by (intro that [of ?ni]) (simp_all only: refresh_abs)
qed

lemma send_asking:
  assumes inv: "interface_inv ni" and ver: "ip_ver (dg_header d) = 4"
    and m: "mapping_ptr ni ip = None" and r: "request_ptr ni ip = None"
  obtains ni' where "send_datagram ni d (ipv4_address ip) = Inr ni'" "interface_inv ni'"
    "interface_abs ni' = cache_send (ni_ethernet_address ni) (ni_ipv4 ni) (interface_abs ni) d ip"
proof -
  let ?e = "table_at (ni_table ni) ip" and ?n = "\<lparr>rn_ipv4 = ip, rn_timestamp = ni_timestamp ni\<rparr>"
  let ?q = "dq_emplace_back (ni_requests ni) ?n"
  let ?e' = "?e\<lparr>te_pending := te_pending ?e @ [d], te_request := Some (dq_back_ptr ?q)\<rparr>"
  let ?f = "request_frame (ni_ethernet_address ni) (ni_ipv4 ni) ip"
  let ?t = "(ni_table ni)(ip \<mapsto> ?e)"
  let ?ni = "(emplace_frame ?f (ni\<lparr>ni_table := ?t\<rparr>))\<lparr>ni_requests := ?q, ni_table := ?t(ip \<mapsto> ?e')\<rparr>"
  have te: "te_mapping ?e = None" "te_request ?e = None" using m r by (simp_all add: pointers_def)
  have run: "send_datagram ni d (ipv4_address ip) = Inr ?ni"
    by (simp add: send_datagram_def ipv4_numeric_address Let_def te arp_serialize_bytes arp_messages_supported
        request_frame_def del: fun_upd_upd)
  have mp: "mapping_ptr ?ni = mapping_ptr ni" by (rule ext) (simp add: pointers_def te)
  have rp: "request_ptr ?ni = (request_ptr ni)(ip := Some (dq_back_ptr ?q))" by (rule ext) (simp add: pointers_def)
  have pend: "pending ?ni x = (if x = ip then pending ni ip @ [d] else pending ni x)" for x by simp
  have keep: "ni_mappings ?ni = ni_mappings ni" "ni_requests ?ni = ?q" "ni_timestamp ?ni = ni_timestamp ni"
    "ni_frames ?ni = ni_frames ni @ [?f]" by (simp_all add: emplace_frame_def)
  have push: "points rn_ipv4 ?q ((request_ptr ni)(ip := Some (dq_back_ptr ?q)))"
    "looked ?q ((request_ptr ni)(ip := Some (dq_back_ptr ?q))) = (looked (ni_requests ni) (request_ptr ni))(ip := Some ?n)"
    using points_push [of rn_ipv4 "ni_requests ni" "request_ptr ni" ?n] inv r by (simp_all add: interface_inv_def)
  have items: "dq_items ?q = dq_items (ni_requests ni) @ [?n]" by (simp add: dq_emplace_back_def)
  have "interface_inv ?ni"
    unfolding interface_inv_def mp rp keep pend
    using inv push(1) m ver by (auto simp: interface_inv_def items sorted_append)
  moreover have "interface_abs ?ni = cache_send (ni_ethernet_address ni) (ni_ipv4 ni) (interface_abs ni) d ip"
  proof -
    have "ac_learned (interface_abs ni) ip = None" "ac_requested (interface_abs ni) ip = None"
      using m r by (simp_all add: interface_abs_def looked_def)
    then have "cache_send (ni_ethernet_address ni) (ni_ipv4 ni) (interface_abs ni) d ip =
        (interface_abs ni)\<lparr>ac_frames := ac_frames (interface_abs ni) @ [?f],
          ac_requested := (ac_requested (interface_abs ni))(ip := Some (ac_now (interface_abs ni))),
          ac_pending := (ac_pending (interface_abs ni))(ip := ac_pending (interface_abs ni) ip @ [d])\<rparr>"
      by (simp add: cache_send_def)
    moreover have "interface_abs ?ni = \<dots>"
      unfolding interface_abs_def mp rp keep pend push(2) by (simp add: fun_eq_iff)
    ultimately show ?thesis by simp
  qed
  ultimately show thesis using run by (intro that [of ?ni])
qed

lemma send_refines:
  assumes "interface_inv ni" "ip_ver (dg_header d) = 4"
  obtains ni' where "send_datagram ni d (ipv4_address ip) = Inr ni'" "interface_inv ni'"
    "interface_abs ni' = cache_send (ni_ethernet_address ni) (ni_ipv4 ni) (interface_abs ni) d ip"
proof (cases "mapping_ptr ni ip")
  case (Some p)
  show thesis by (rule send_known [OF assms Some]) (rule that)
next
  case None
  show thesis
  proof (cases "request_ptr ni ip")
    case (Some p)
    show thesis by (rule send_waiting [OF assms(1) None Some]) (rule that)
  next
    case no: None
    show thesis by (rule send_asking [OF assms None no]) (rule that)
  qed
qed

text \<open>Whatever the version: a datagram of another one is refused when it would be sent at once.\<close>

lemma send_outcome:
  assumes inv: "interface_inv ni"
  shows "(\<exists>ni'. send_datagram ni d (ipv4_address ip) = Inr ni')
    \<or> ip_ver (dg_header d) \<noteq> 4 \<and> send_datagram ni d (ipv4_address ip) = Inl (Runtime_Error ''wrong IP version'')"
proof (cases "ip_ver (dg_header d) = 4")
  case True
  show ?thesis by (rule send_refines [OF inv True, of ip]) blast
next
  case ver: False
  show ?thesis
  proof (cases "mapping_ptr ni ip")
    case (Some p)
    obtain n where l: "looked (ni_mappings ni) (mapping_ptr ni) ip = Some n" using Some by (auto simp: looked_def)
    have te: "te_mapping (table_at (ni_table ni) ip) = Some p" using Some by (simp add: pointers_def)
    have "points mn_ipv4 (ni_mappings ni) (mapping_ptr ni)" using inv by (simp add: interface_inv_def)
    then have "dq_deref (ni_mappings ni) p = Inr n" using points_deref(1) Some l by fastforce
    then show ?thesis using ver
      by (simp add: send_datagram_def ipv4_numeric_address Let_def te serialize_def ipv4_datagram_serialize_def
          ipv4_header_serialize_def)
  next
    case None
    then have te: "te_mapping (table_at (ni_table ni) ip) = None" by (simp add: pointers_def)
    then show ?thesis using arp_messages_supported
      by (simp add: send_datagram_def ipv4_numeric_address Let_def te arp_serialize_bytes split: option.split)
  qed
qed

section \<open>Receiving\<close>

lemma flush_pending_eq:
  assumes "\<forall>d \<in> set ds. ip_ver (dg_header d) = 4"
  shows "flush_pending mac ds ni = Inr (ni\<lparr>ni_frames := ni_frames ni @ map (datagram_frame mac (ni_ethernet_address ni)) ds\<rparr>)"
  using assms
  by (induction ds arbitrary: ni) (simp_all add: datagram_serialized emplace_frame_def datagram_frame_def)

lemma learn_refines:
  assumes inv: "interface_inv ni"
  obtains ni' where "learn_mapping ip mac ni = Inr ni'" "interface_inv ni'"
    "interface_abs ni' = cache_learn (ni_ethernet_address ni) (interface_abs ni) ip mac"
    "ni_ethernet_address ni' = ni_ethernet_address ni" "ni_ipv4 ni' = ni_ipv4 ni"
proof (cases "mapping_ptr ni ip")
  case (Some p)
  let ?ni = "ni\<lparr>ni_table := (ni_table ni)(ip \<mapsto> table_at (ni_table ni) ip)\<rparr>"
  have "learn_mapping ip mac ni = Inr ?ni" using Some by (simp add: learn_mapping_def pointers_def)
  moreover have "cache_learn (ni_ethernet_address ni) (interface_abs ni) ip mac = interface_abs ni"
    using Some by (simp add: cache_learn_def interface_abs_def looked_def)
  ultimately show thesis using inv by (intro that [of ?ni]) (simp_all only: refresh_abs, simp_all)
next
  case None
  let ?e = "table_at (ni_table ni) ip"
  let ?n = "\<lparr>mn_ipv4 = ip, mn_eth_addr = mac, mn_timestamp = ni_timestamp ni\<rparr>"
  let ?q = "dq_emplace_back (ni_mappings ni) ?n"
  let ?e' = "?e\<lparr>te_mapping := Some (dq_back_ptr ?q), te_pending := []\<rparr>"
  let ?fs = "ni_frames ni @ map (datagram_frame mac (ni_ethernet_address ni)) (pending ni ip)"
  let ?ni = "ni\<lparr>ni_mappings := ?q, ni_table := (ni_table ni)(ip \<mapsto> ?e'), ni_frames := ?fs\<rparr>"
  have te: "te_mapping ?e = None" using None by (simp add: pointers_def)
  have ver: "\<forall>d \<in> set (pending ni ip). ip_ver (dg_header d) = 4" using inv by (simp add: interface_inv_def)
  have run: "learn_mapping ip mac ni = Inr ?ni"
    by (simp add: learn_mapping_def te Let_def flush_pending_eq [OF ver])
  have mp: "mapping_ptr ?ni = (mapping_ptr ni)(ip := Some (dq_back_ptr ?q))" by (rule ext) (simp add: pointers_def)
  have rp: "request_ptr ?ni = request_ptr ni" by (rule ext) (simp add: pointers_def)
  have pend: "pending ?ni x = (if x = ip then [] else pending ni x)" for x by simp
  have keep: "ni_mappings ?ni = ?q" "ni_requests ?ni = ni_requests ni" "ni_timestamp ?ni = ni_timestamp ni"
    "ni_frames ?ni = ?fs" by simp_all
  have push: "points mn_ipv4 ?q ((mapping_ptr ni)(ip := Some (dq_back_ptr ?q)))"
    "looked ?q ((mapping_ptr ni)(ip := Some (dq_back_ptr ?q))) = (looked (ni_mappings ni) (mapping_ptr ni))(ip := Some ?n)"
    using points_push [of mn_ipv4 "ni_mappings ni" "mapping_ptr ni" ?n] inv None by (simp_all add: interface_inv_def)
  have items: "dq_items ?q = dq_items (ni_mappings ni) @ [?n]" by (simp add: dq_emplace_back_def)
  have "interface_inv ?ni"
    unfolding interface_inv_def mp rp keep pend
    using inv push(1) by (auto simp: interface_inv_def items sorted_append)
  moreover have "interface_abs ?ni = cache_learn (ni_ethernet_address ni) (interface_abs ni) ip mac"
  proof -
    have "ac_learned (interface_abs ni) ip = None" using None by (simp add: interface_abs_def looked_def)
    then have "cache_learn (ni_ethernet_address ni) (interface_abs ni) ip mac =
        (interface_abs ni)\<lparr>ac_learned := (ac_learned (interface_abs ni))(ip := Some (mac, ac_now (interface_abs ni))),
          ac_pending := (ac_pending (interface_abs ni))(ip := []),
          ac_frames := ac_frames (interface_abs ni) @ map (datagram_frame mac (ni_ethernet_address ni)) (ac_pending (interface_abs ni) ip)\<rparr>"
      by (simp add: cache_learn_def)
    moreover have "interface_abs ?ni = \<dots>"
      unfolding interface_abs_def mp rp keep pend push(2) by (simp add: fun_eq_iff)
    ultimately show ?thesis by simp
  qed
  ultimately show thesis using run by (intro that [of ?ni]) simp_all
qed

lemma answer_refines:
  assumes "interface_inv ni"
  obtains ni' where "answer_request m ni = Inr ni'" "interface_inv ni'"
    "interface_abs ni' = cache_answer (ni_ethernet_address ni) (ni_ipv4 ni) (interface_abs ni) m"
proof (cases "arp_opcode m = OPCODE_REQUEST")
  case True
  let ?f = "unicast_frame (arp_sender_ethernet_address m) (ni_ethernet_address ni) TYPE_ARP
    [arp_bytes (ARPMessage_reply OPCODE_REPLY (ni_ethernet_address ni) (ni_ipv4 ni) (arp_sender_ethernet_address m) (arp_sender_ip_address m))]"
  have "answer_request m ni = Inr (emplace_frame ?f ni)"
    using True by (simp add: answer_request_def arp_serialize_bytes arp_messages_supported)
  then show thesis using assms True
    by (intro that [of "emplace_frame ?f ni"]) (simp_all add: emplace_frame_abs cache_answer_def, simp add: interface_abs_def)
next
  case False
  then show thesis using assms by (intro that [of ni]) (simp_all add: answer_request_def cache_answer_def)
qed

definition for_me :: "network_interface \<Rightarrow> ethernet_frame \<Rightarrow> bool" where
  "for_me ni f \<longleftrightarrow> eh_dst (ef_header f) = ni_ethernet_address ni \<or> eh_dst (ef_header f) = ETHERNET_BROADCAST"

lemma recv_arp_refines:
  assumes inv: "interface_inv ni" and f: "for_me ni f" "eh_type (ef_header f) = TYPE_ARP"
    and m: "parse arp_parse ARPMessage (ef_payload f) = Inr (m, ok)"
  obtains ni' where "recv_frame ni f = Inr (None, ni')" "interface_inv ni'"
    "interface_abs ni' = cache_receive_arp (ni_ethernet_address ni) (ni_ipv4 ni) (interface_abs ni) m"
proof (cases "arp_target_ip_address m = ni_ipv4 ni")
  case True
  obtain n1 where n1: "learn_mapping (arp_sender_ip_address m) (arp_sender_ethernet_address m) ni = Inr n1" "interface_inv n1"
    "interface_abs n1 = cache_learn (ni_ethernet_address ni) (interface_abs ni) (arp_sender_ip_address m) (arp_sender_ethernet_address m)"
    "ni_ethernet_address n1 = ni_ethernet_address ni" "ni_ipv4 n1 = ni_ipv4 ni" by (rule learn_refines [OF inv])
  obtain n2 where n2: "answer_request m n1 = Inr n2" "interface_inv n2"
    "interface_abs n2 = cache_answer (ni_ethernet_address n1) (ni_ipv4 n1) (interface_abs n1) m"
    by (rule answer_refines [OF n1(2)])
  have "recv_frame ni f = Inr (None, n2)"
    using f m n1(1) n2(1) True by (auto simp: recv_frame_def Let_def for_me_def TYPE_ARP_def TYPE_IPv4_def)
  then show thesis using n1 n2 True by (intro that [of n2]) (simp_all add: cache_receive_arp_def)
next
  case False
  then have "recv_frame ni f = Inr (None, ni)"
    using f m by (auto simp: recv_frame_def Let_def for_me_def TYPE_ARP_def TYPE_IPv4_def)
  then show thesis using inv False by (intro that [of ni]) (simp_all add: cache_receive_arp_def)
qed

text \<open>Every other frame leaves the interface as it is.\<close>

lemma recv_other:
  assumes "recv_frame ni f = Inr (r, ni')" "\<not> (for_me ni f \<and> eh_type (ef_header f) = TYPE_ARP)"
  shows "ni' = ni"
  using assms by (auto simp: recv_frame_def Let_def for_me_def andthen_eq_Inr_iff split: if_splits)

section \<open>Time\<close>

lemma alive_map_option:
  "map_option f (alive stamp limit now x) = alive stamp' limit now (map_option f x)" if "\<And>n. stamp' (f n) = stamp n"
  using that by (auto simp: alive_def split: option.split)

lemma tick_refines:
  assumes inv: "interface_inv ni" and time: "ni_timestamp ni + ms + 30000 < 2 ^ 64"
  shows "interface_inv (interface_tick ni ms)" "interface_abs (interface_tick ni ms) = cache_tick (interface_abs ni) ms"
    "ni_ethernet_address (interface_tick ni ms) = ni_ethernet_address ni" "ni_ipv4 (interface_tick ni ms) = ni_ipv4 ni"
proof -
  let ?now = "ni_timestamp ni + ms"
  have now: "add64 (ni_timestamp ni) ms = ?now" using time by (simp add: wadd_nowrap)
  have m: "points mn_ipv4 \<lparr>dq_popped = dq_popped (ni_mappings ni), dq_items = dq_items (ni_mappings ni)\<rparr> (mapping_ptr ni)"
    "sorted (map mn_timestamp (dq_items (ni_mappings ni)))"
    "\<forall>n \<in> set (dq_items (ni_mappings ni)). mn_timestamp n + ArpTableEntryTimeoutMs < 2 ^ 64"
    using inv time by (simp_all add: interface_inv_def ArpTableEntryTimeoutMs_def) fastforce
  obtain q t where q: "expire_mappings ?now (dq_popped (ni_mappings ni)) (dq_items (ni_mappings ni)) (ni_table ni) = (q, t)"
    "points mn_ipv4 q (pointers te_mapping t)"
    "looked q (pointers te_mapping t) = (\<lambda>ip. alive mn_timestamp ArpTableEntryTimeoutMs ?now (looked (ni_mappings ni) (mapping_ptr ni) ip))"
    "sorted (map mn_timestamp (dq_items q))" "set (dq_items q) \<subseteq> set (dq_items (ni_mappings ni))"
    "\<forall>ip. table_at t ip \<in> {table_at (ni_table ni) ip, (table_at (ni_table ni) ip)\<lparr>te_mapping := None\<rparr>}"
    by (rule mapping_queue.expire_spec [OF m(1,2,3), of ?now]) simp
  have keep: "te_request (table_at t ip) = te_request (table_at (ni_table ni) ip)" "te_pending (table_at t ip) = pending ni ip" for ip
    using spec [OF q(6), of ip] by auto
  have rp: "pointers te_request t = request_ptr ni" by (rule ext) (simp add: pointers_def keep)
  have n: "points rn_ipv4 \<lparr>dq_popped = dq_popped (ni_requests ni), dq_items = dq_items (ni_requests ni)\<rparr> (pointers te_request t)"
    "sorted (map rn_timestamp (dq_items (ni_requests ni)))"
    "\<forall>n \<in> set (dq_items (ni_requests ni)). rn_timestamp n + ArpRequestWaitingMs < 2 ^ 64"
    using inv time by (simp_all add: interface_inv_def ArpRequestWaitingMs_def rp) fastforce
  obtain r u where r: "expire_requests ?now (dq_popped (ni_requests ni)) (dq_items (ni_requests ni)) t = (r, u)"
    "points rn_ipv4 r (pointers te_request u)"
    "looked r (pointers te_request u) = (\<lambda>ip. alive rn_timestamp ArpRequestWaitingMs ?now (looked (ni_requests ni) (request_ptr ni) ip))"
    "sorted (map rn_timestamp (dq_items r))" "set (dq_items r) \<subseteq> set (dq_items (ni_requests ni))"
    "\<forall>ip. table_at u ip \<in> {table_at t ip, (table_at t ip)\<lparr>te_request := None\<rparr>}"
    by (rule request_queue.expire_spec [OF n(1,2,3), of ?now]) (simp add: rp)
  have keep': "te_mapping (table_at u ip) = te_mapping (table_at t ip)" "te_pending (table_at u ip) = pending ni ip" for ip
    using spec [OF r(6), of ip] keep(2) [of ip] by auto
  have mp: "pointers te_mapping u = pointers te_mapping t" by (rule ext) (simp add: pointers_def keep')
  note pend = keep'(2)
  have run: "interface_tick ni ms = ni\<lparr>ni_timestamp := ?now, ni_mappings := q, ni_requests := r, ni_table := u\<rparr>"
    by (simp add: interface_tick_def now Let_def q(1) r(1))
  have alive: "pointers te_mapping t ip \<noteq> None \<Longrightarrow> mapping_ptr ni ip \<noteq> None" for ip
    using fun_cong [OF q(3), of ip] by (auto simp: alive_def looked_def split: option.splits)
  have old: "\<forall>n \<in> set (dq_items q). mn_timestamp n \<le> ?now" "\<forall>n \<in> set (dq_items r). rn_timestamp n \<le> ?now"
    using inv q(5) r(5) by (force simp: interface_inv_def)+
  show "interface_inv (interface_tick ni ms)"
    using inv q(2,4) r(2,4) old alive by (simp add: run interface_inv_def mp pend)
  show "interface_abs (interface_tick ni ms) = cache_tick (interface_abs ni) ms"
    by (simp add: run interface_abs_def cache_tick_def Let_def mp pend q(3) r(3) fun_eq_iff
        ArpTableEntryTimeoutMs_def ArpRequestWaitingMs_def alive_map_option [of snd] alive_map_option [of "\<lambda>t. t"])
  show "ni_ethernet_address (interface_tick ni ms) = ni_ethernet_address ni" "ni_ipv4 (interface_tick ni ms) = ni_ipv4 ni"
    by (simp_all add: run)
qed

lemma maybe_send_refines:
  assumes "interface_inv ni" "interface_maybe_send ni = (r, ni')"
  shows "interface_inv ni'" "interface_abs ni' = (interface_abs ni)\<lparr>ac_frames := tl (ac_frames (interface_abs ni))\<rparr>"
  using assms by (auto simp: interface_maybe_send_def interface_inv_def interface_abs_def split: list.splits)

end
