(* ===== verification/Interface_Properties.thy ===== *)
theory Interface_Properties
  imports Interface_Refinement Packet_Properties
begin

text \<open>
  Every state a network interface can reach, whatever is sent, whatever frames arrive and
  however time passes, and what holds in all of them.
\<close>

section \<open>Reachable states\<close>

text \<open>The ARP requests for \<open>ip\<close> that a step has queued, with the time they are queued at.\<close>

definition is_request :: "ethernet_frame \<Rightarrow> bool" where
  "is_request f \<longleftrightarrow> eh_dst (ef_header f) = ETHERNET_BROADCAST \<and> eh_type (ef_header f) = TYPE_ARP"

definition new_requests :: "network_interface \<Rightarrow> network_interface \<Rightarrow> 32 word \<Rightarrow> (32 word \<times> nat) list" where
  "new_requests ni ni' ip =
     map (\<lambda>_. (ip, ni_timestamp ni)) (filter is_request (drop (length (ni_frames ni)) (ni_frames ni')))"

inductive interfacing :: "ethernet_address \<Rightarrow> 32 word \<Rightarrow> network_interface \<times> (32 word \<times> nat) list \<Rightarrow> bool"
  for eth ip where
  construct: "NetworkInterface eth (ipv4_address ip) = Inr ni \<Longrightarrow> interfacing eth ip (ni, [])"
| send: "interfacing eth ip (ni, log) \<Longrightarrow> ip_ver (dg_header d) = 4 \<Longrightarrow>
    send_datagram ni d (ipv4_address hop) = Inr ni' \<Longrightarrow> interfacing eth ip (ni', log @ new_requests ni ni' hop)"
| receive: "interfacing eth ip (ni, log) \<Longrightarrow> recv_frame ni f = Inr (r, ni') \<Longrightarrow> interfacing eth ip (ni', log)"
| wait: "interfacing eth ip (ni, log) \<Longrightarrow> ni_timestamp ni + ms + 30000 < 2 ^ 64 \<Longrightarrow>
    interfacing eth ip (interface_tick ni ms, log)"
| transmit: "interfacing eth ip (ni, log) \<Longrightarrow> interface_maybe_send ni = (r, ni') \<Longrightarrow> interfacing eth ip (ni', log)"

inductive_cases interfacing_cases: "interfacing eth ip (ni, log)"

lemma construct_eq:
  "NetworkInterface eth (ipv4_address ip) = Inr \<lparr>ni_ethernet_address = eth, ni_ip_address = ipv4_address ip,
     ni_ipv4 = ip, ni_frames = [], ni_mappings = dq_new, ni_requests = dq_new, ni_table = Map.empty, ni_timestamp = 0\<rparr>"
  by (simp add: NetworkInterface_def ipv4_numeric_address)

lemma construct_inv:
  assumes "NetworkInterface eth (ipv4_address ip) = Inr ni"
  shows "interface_inv ni" "ni_ethernet_address ni = eth" "ni_ipv4 ni = ip"
    "interface_abs ni = \<lparr>ac_now = 0, ac_learned = (\<lambda>_. None), ac_requested = (\<lambda>_. None), ac_pending = (\<lambda>_. []), ac_frames = []\<rparr>"
proof -
  have p: "pointers f Map.empty = (\<lambda>_. f ArpTableEntry)" for f by (rule ext) (simp add: pointers_def table_at_def)
  have e: "te_mapping ArpTableEntry = None" "te_request ArpTableEntry = None" "te_pending ArpTableEntry = []"
    by (simp_all add: ArpTableEntry_def)
  have ni: "ni = \<lparr>ni_ethernet_address = eth, ni_ip_address = ipv4_address ip,
     ni_ipv4 = ip, ni_frames = [], ni_mappings = dq_new, ni_requests = dq_new, ni_table = Map.empty, ni_timestamp = 0\<rparr>"
    using assms by (simp add: construct_eq)
  show "interface_inv ni" by (simp add: ni interface_inv_def p e points_new) (simp add: dq_new_def table_at_def e)
  show "ni_ethernet_address ni = eth" "ni_ipv4 ni = ip" by (simp_all add: ni)
  show "interface_abs ni = \<lparr>ac_now = 0, ac_learned = (\<lambda>_. None), ac_requested = (\<lambda>_. None), ac_pending = (\<lambda>_. []), ac_frames = []\<rparr>"
    by (simp add: ni interface_abs_def p e looked_def table_at_def)
qed

section \<open>The log of requests\<close>

definition spaced :: "(32 word \<times> nat) list \<Rightarrow> bool" where
  "spaced log \<longleftrightarrow> sorted_wrt (\<lambda>a b. fst a = fst b \<longrightarrow> snd a + 5000 \<le> snd b) log"

definition log_ok :: "arp_cache \<Rightarrow> (32 word \<times> nat) list \<Rightarrow> bool" where
  "log_ok c log \<longleftrightarrow> spaced log \<and> (\<forall>x t. (x, t) \<in> set log \<longrightarrow> t + 5000 \<le> ac_now c \<or> ac_requested c x = Some t)"

lemma abs_fields: "ac_now (interface_abs ni) = ni_timestamp ni" "ac_frames (interface_abs ni) = ni_frames ni"
  by (simp_all add: interface_abs_def)

lemma log_ok_send:
  assumes "log_ok (interface_abs ni) log" "interface_abs ni' = cache_send eth ip (interface_abs ni) d hop"
  shows "log_ok (interface_abs ni') (log @ new_requests ni ni' hop)"
proof -
  let ?c = "interface_abs ni"
  have frames: "ni_frames ni' = ac_frames (cache_send eth ip ?c d hop)" using assms(2) abs_fields(2) by metis
  show ?thesis
  proof (cases "ac_learned ?c hop = None \<and> ac_requested ?c hop = None")
    case True
    then have c: "cache_send eth ip ?c d hop = ?c\<lparr>ac_frames := ac_frames ?c @ [request_frame eth ip hop],
        ac_requested := (ac_requested ?c)(hop := Some (ac_now ?c)),
        ac_pending := (ac_pending ?c)(hop := ac_pending ?c hop @ [d])\<rparr>" by (simp add: cache_send_def)
    have "new_requests ni ni' hop = [(hop, ac_now ?c)]"
      by (simp add: new_requests_def frames c abs_fields is_request_def request_frame_def broadcast_frame_def)
    moreover have "t + 5000 \<le> ac_now ?c" if "(hop, t) \<in> set log" for t
      using assms(1) that True unfolding log_ok_def by (metis option.distinct(1))
    ultimately show ?thesis using assms(1) unfolding assms(2) c
      by (auto simp: log_ok_def spaced_def sorted_wrt_append)
  next
    case False
    then have c: "ac_now (cache_send eth ip ?c d hop) = ac_now ?c"
      "ac_requested (cache_send eth ip ?c d hop) = ac_requested ?c"
      "filter is_request (drop (length (ni_frames ni)) (ac_frames (cache_send eth ip ?c d hop))) = []"
      by (auto simp: cache_send_def abs_fields is_request_def datagram_frame_def unicast_frame_def TYPE_IPv4_def
          TYPE_ARP_def split: option.split)
    then have "new_requests ni ni' hop = []" by (simp add: new_requests_def frames)
    then show ?thesis using assms(1) c(1,2) unfolding assms(2) by (simp add: log_ok_def)
  qed
qed

lemma log_ok_tick:
  assumes "log_ok c log"
  shows "log_ok (cache_tick c ms) log"
proof -
  have "t + 5000 \<le> ac_now c + ms \<or> alive (\<lambda>t. t) 5000 (ac_now c + ms) (ac_requested c x) = Some t"
    if "(x, t) \<in> set log" for x t
  proof -
    from assms that consider "t + 5000 \<le> ac_now c" | "ac_requested c x = Some t" unfolding log_ok_def by blast
    then show ?thesis by cases (auto simp: alive_def)
  qed
  with assms show ?thesis by (simp add: log_ok_def cache_tick_def Let_def)
qed

lemma log_ok_other:
  "log_ok c log \<Longrightarrow> ac_now c' = ac_now c \<Longrightarrow> ac_requested c' = ac_requested c \<Longrightarrow> log_ok c' log"
  by (simp add: log_ok_def)

lemma receive_arp_keeps:
  "ac_now (cache_receive_arp eth ip c m) = ac_now c" "ac_requested (cache_receive_arp eth ip c m) = ac_requested c"
  by (simp_all add: cache_receive_arp_def cache_answer_def cache_learn_def)

section \<open>The invariant\<close>

lemma send_own:
  assumes "send_datagram ni d a = Inr ni'"
  shows "ni_ethernet_address ni' = ni_ethernet_address ni \<and> ni_ipv4 ni' = ni_ipv4 ni"
  using assms
  by (auto simp: send_datagram_def Let_def andthen_eq_Inr_iff emplace_frame_def split: option.splits)

lemma flush_own:
  "flush_pending mac ds ni = Inr ni' \<Longrightarrow> ni_ethernet_address ni' = ni_ethernet_address ni \<and> ni_ipv4 ni' = ni_ipv4 ni"
  by (induction mac ds ni rule: flush_pending.induct) (auto simp: andthen_eq_Inr_iff emplace_frame_def)

lemma recv_own:
  assumes "recv_frame ni f = Inr (r, ni')"
  shows "ni_ethernet_address ni' = ni_ethernet_address ni \<and> ni_ipv4 ni' = ni_ipv4 ni"
proof -
  have l: "ni_ethernet_address n' = ni_ethernet_address n \<and> ni_ipv4 n' = ni_ipv4 n"
    if "learn_mapping x mac n = Inr n'" for x mac n n'
    using that by (auto simp: learn_mapping_def Let_def split: option.splits dest!: flush_own)
  have a: "ni_ethernet_address n' = ni_ethernet_address n \<and> ni_ipv4 n' = ni_ipv4 n"
    if "answer_request m n = Inr n'" for m n n'
    using that by (auto simp: answer_request_def andthen_eq_Inr_iff emplace_frame_def split: if_splits)
  show ?thesis using assms
    by (auto simp: recv_frame_def Let_def andthen_eq_Inr_iff split: if_splits dest!: l a)
qed

lemma interfacing_inv:
  assumes "interfacing eth ip (ni, log)"
  shows "interface_inv ni \<and> ni_ethernet_address ni = eth \<and> ni_ipv4 ni = ip \<and> log_ok (interface_abs ni) log"
  using assms
proof (induction "(ni, log)" arbitrary: ni log rule: interfacing.induct)
  case (construct ni)
  then show ?case using construct_inv [OF construct] by (simp add: log_ok_def spaced_def)
next
  case (send ni log d hop ni')
  then have inv: "interface_inv ni" "ni_ethernet_address ni = eth" "ni_ipv4 ni = ip" "log_ok (interface_abs ni) log" by auto
  obtain ni2 where "send_datagram ni d (ipv4_address hop) = Inr ni2" "interface_inv ni2"
    "interface_abs ni2 = cache_send (ni_ethernet_address ni) (ni_ipv4 ni) (interface_abs ni) d hop"
    by (rule send_refines [OF inv(1) send.hyps(3)])
  then show ?case using log_ok_send [OF inv(4)] send_own [OF send.hyps(4)] send.hyps(4) inv by auto
next
  case (receive ni log f r ni')
  then have inv: "interface_inv ni" "ni_ethernet_address ni = eth" "ni_ipv4 ni = ip" "log_ok (interface_abs ni) log" by auto
  show ?case
  proof (cases "for_me ni f \<and> eh_type (ef_header f) = TYPE_ARP")
    case True
    then obtain m ok where m: "parse arp_parse ARPMessage (ef_payload f) = Inr (m, ok)"
      using receive.hyps(3) by (auto simp: recv_frame_def Let_def for_me_def TYPE_ARP_def TYPE_IPv4_def andthen_eq_Inr_iff)
    obtain ni2 where n: "recv_frame ni f = Inr (None, ni2)" "interface_inv ni2"
      "interface_abs ni2 = cache_receive_arp (ni_ethernet_address ni) (ni_ipv4 ni) (interface_abs ni) m"
      by (rule recv_arp_refines [OF inv(1) _ _ m]) (use True in simp_all)
    then have "log_ok (interface_abs ni2) log" using log_ok_other [OF inv(4)] by (simp add: receive_arp_keeps)
    then show ?thesis using n receive.hyps(3) recv_own [OF receive.hyps(3)] inv by simp
  next
    case False
    then show ?thesis using recv_other [OF receive.hyps(3) False] inv by simp
  qed
next
  case (wait ni log ms)
  then have inv: "interface_inv ni" "ni_ethernet_address ni = eth" "ni_ipv4 ni = ip" "log_ok (interface_abs ni) log" by auto
  then show ?case using tick_refines [OF inv(1) wait.hyps(3)] log_ok_tick [OF inv(4)] by simp
next
  case (transmit ni log r ni')
  then have inv: "interface_inv ni" "ni_ethernet_address ni = eth" "ni_ipv4 ni = ip" "log_ok (interface_abs ni) log" by auto
  have "log_ok (interface_abs ni') log"
    using maybe_send_refines(2) [OF inv(1) transmit.hyps(3)] by (intro log_ok_other [OF inv(4)]) simp_all
  moreover have "ni_ethernet_address ni' = eth \<and> ni_ipv4 ni' = ip"
    using transmit.hyps(3) inv(2,3) by (auto simp: interface_maybe_send_def split: list.splits)
  ultimately show ?case using maybe_send_refines(1) [OF inv(1) transmit.hyps(3)] by simp
qed

lemma corrupted_delivery:
  assumes "for_me ni f" and "eh_type (ef_header f) = TYPE_IPv4" and "ef_payload f = ipv4_bytes h # tail"
    and "ipv4_shape h" and "length (concat tail) + 20 < 2 ^ 64"
  shows "\<exists>d. recv_frame ni f = Inr (Some d, ni) \<and> dg_header d = h\<lparr>ip_cksum := right_checksum h\<rparr>
    \<and> checksum_ok (dg_header d) \<and> concat (dg_payload d) = concat tail"
proof -
  obtain d where d: "parse ipv4_datagram_parse IPv4Datagram (ipv4_bytes h # tail) = Inr (d, checksum_ok h)"
    "dg_header d = h\<lparr>ip_cksum := right_checksum h\<rparr>" "concat (dg_payload d) = concat tail"
    by (rule ipv4_datagram_decoded [OF assms(4,5)])
  have "recv_frame ni f = Inr (Some d, ni)"
    using assms(1-3) d(1) by (auto simp: recv_frame_def Let_def for_me_def)
  then show ?thesis using d by (auto simp: checksum_ok_def)
qed

section \<open>Properties\<close>

text \<open>
  \<open>C10\<close>: the network interface does not follow a pointer to a popped element. In every state that
  is reached by sending IPv4 datagrams, receiving frames, waiting and transmitting, sending any
  datagram to an IPv4 hop succeeds, or throws because its version is not four, and receiving any
  frame whose payload has no empty buffer and less than \<open>2 ^ 64\<close> bytes succeeds or throws: no
  pointer into the timeout queues is dereferenced after its element was popped. (On an empty first
  buffer the parsers themselves have undefined behaviour: \<open>parse_empty_front\<close>.)
\<close>

theorem interface_never_dangles:
  assumes "interfacing eth ip (ni, log)"
  shows "(\<forall>d hop. (\<exists>ni'. send_datagram ni d (ipv4_address hop) = Inr ni')
         \<or> ip_ver (dg_header d) \<noteq> 4 \<and> send_datagram ni d (ipv4_address hop) = Inl (Runtime_Error ''wrong IP version''))
    \<and> (\<forall>f. [] \<notin> set (ef_payload f) \<longrightarrow> length (concat (ef_payload f)) < 2 ^ 64 \<longrightarrow>
         (\<exists>r. recv_frame ni f = Inr r) \<or> (\<exists>e. recv_frame ni f = Inl (Runtime_Error e)))"
proof (intro conjI allI impI)
  have inv: "interface_inv ni" using interfacing_inv [OF assms] by simp
  fix d :: ipv4_datagram and hop
  show "(\<exists>ni'. send_datagram ni d (ipv4_address hop) = Inr ni')
      \<or> ip_ver (dg_header d) \<noteq> 4 \<and> send_datagram ni d (ipv4_address hop) = Inl (Runtime_Error ''wrong IP version'')"
    by (rule send_outcome [OF inv])
next
  have inv: "interface_inv ni" using interfacing_inv [OF assms] by simp
  fix f :: ethernet_frame
  assume f: "[] \<notin> set (ef_payload f)" "length (concat (ef_payload f)) < 2 ^ 64"
  note s = sound_Parser [OF f(2,1)]
  consider "\<not> for_me ni f" | "for_me ni f" "eh_type (ef_header f) = TYPE_IPv4" | "for_me ni f" "eh_type (ef_header f) = TYPE_ARP"
    | "for_me ni f" "eh_type (ef_header f) \<noteq> TYPE_IPv4" "eh_type (ef_header f) \<noteq> TYPE_ARP" by blast
  then show "(\<exists>r. recv_frame ni f = Inr r) \<or> (\<exists>e. recv_frame ni f = Inl (Runtime_Error e))"
  proof cases
    case 2
    have "(\<exists>r. parse ipv4_datagram_parse IPv4Datagram (ef_payload f) = Inr r)
        \<or> parse ipv4_datagram_parse IPv4Datagram (ef_payload f) = Inl (Runtime_Error ''wrong IP version'')"
      using datagram_parse_outcome [OF f, of IPv4Datagram] by metis
    then show ?thesis using 2 by (auto simp: recv_frame_def Let_def for_me_def)
  next
    case 3
    obtain m p where "arp_parse ARPMessage (Parser (ef_payload f)) = Inr (m, p)" by (rule safeD [OF safe_arp s])
    then have m: "parse arp_parse ARPMessage (ef_payload f) = Inr (m, \<not> p_error p)" by (simp add: parse_def)
    obtain ni' where "recv_frame ni f = Inr (None, ni')" by (rule recv_arp_refines [OF inv 3 m])
    then show ?thesis by blast
  qed (auto simp: recv_frame_def Let_def for_me_def)
qed

theorem interface_never_dangles_witness:
  "\<exists>ni ni'. NetworkInterface [2, 0, 0, 0, 0, 1] (ipv4_address 7) = Inr ni
     \<and> send_datagram ni IPv4Datagram (ipv4_address 9) = Inr ni'"
proof -
  obtain ni where ni: "NetworkInterface [2, 0, 0, 0, 0, 1] (ipv4_address 7) = Inr ni" by (simp add: construct_eq)
  have "ip_ver (dg_header IPv4Datagram) = 4" by (simp add: IPv4Datagram_def IPv4Header_def)
  then show ?thesis using interface_never_dangles [OF interfacing.construct [OF ni]] ni by blast
qed

text \<open>
  \<open>C9\<close>: the interface implements the abstract ARP cache. In every reachable state a datagram
  is sent at once to the learned Ethernet address of its hop; without one, it waits behind a
  broadcast request, unless a request is outstanding already. An ARP message for the interface
  teaches it the sender's address, which releases everything that waits, and a request is
  answered; time expires mappings after 30 seconds and requests after 5.
\<close>

theorem interface_implements_cache:
  assumes "interfacing eth ip (ni, log)"
  shows "(\<forall>d hop. ip_ver (dg_header d) = 4 \<longrightarrow> (\<exists>ni'. send_datagram ni d (ipv4_address hop) = Inr ni'
        \<and> interface_abs ni' = cache_send eth ip (interface_abs ni) d hop))
    \<and> (\<forall>f m ok. for_me ni f \<longrightarrow> eh_type (ef_header f) = TYPE_ARP \<longrightarrow>
         parse arp_parse ARPMessage (ef_payload f) = Inr (m, ok) \<longrightarrow>
         (\<exists>ni'. recv_frame ni f = Inr (None, ni') \<and> interface_abs ni' = cache_receive_arp eth ip (interface_abs ni) m))
    \<and> (\<forall>ms. ni_timestamp ni + ms + 30000 < 2 ^ 64 \<longrightarrow>
         interface_abs (interface_tick ni ms) = cache_tick (interface_abs ni) ms)
    \<and> interface_maybe_send ni = (case ac_frames (interface_abs ni) of [] \<Rightarrow> (None, ni) | f # fs \<Rightarrow> (Some f, ni\<lparr>ni_frames := fs\<rparr>))"
proof (intro conjI allI impI)
  have inv: "interface_inv ni" and own: "ni_ethernet_address ni = eth" "ni_ipv4 ni = ip"
    using interfacing_inv [OF assms] by simp_all
  show "\<exists>ni'. send_datagram ni d (ipv4_address hop) = Inr ni' \<and> interface_abs ni' = cache_send eth ip (interface_abs ni) d hop"
    if "ip_ver (dg_header d) = 4" for d hop
    using send_refines [OF inv that, of hop] own by metis
  show "\<exists>ni'. recv_frame ni f = Inr (None, ni') \<and> interface_abs ni' = cache_receive_arp eth ip (interface_abs ni) m"
    if "for_me ni f" "eh_type (ef_header f) = TYPE_ARP" "parse arp_parse ARPMessage (ef_payload f) = Inr (m, ok)" for f m ok
    using recv_arp_refines [OF inv that] own by metis
  show "interface_abs (interface_tick ni ms) = cache_tick (interface_abs ni) ms"
    if "ni_timestamp ni + ms + 30000 < 2 ^ 64" for ms
    by (rule tick_refines(2) [OF inv that])
  show "interface_maybe_send ni = (case ac_frames (interface_abs ni) of [] \<Rightarrow> (None, ni) | f # fs \<Rightarrow> (Some f, ni\<lparr>ni_frames := fs\<rparr>))"
    by (simp add: interface_maybe_send_def abs_fields)
qed

theorem interface_implements_cache_witness:
  "\<exists>ni ni'. NetworkInterface [2, 0, 0, 0, 0, 1] (ipv4_address 7) = Inr ni
     \<and> send_datagram ni IPv4Datagram (ipv4_address 9) = Inr ni'
     \<and> interface_abs ni' = cache_send [2, 0, 0, 0, 0, 1] 7 (interface_abs ni) IPv4Datagram 9"
proof -
  obtain ni where ni: "NetworkInterface [2, 0, 0, 0, 0, 1] (ipv4_address 7) = Inr ni" by (simp add: construct_eq)
  have "ip_ver (dg_header IPv4Datagram) = 4" by (simp add: IPv4Datagram_def IPv4Header_def)
  then show ?thesis using interface_implements_cache [OF interfacing.construct [OF ni]] ni by blast
qed

text \<open>
  \<open>C29\<close>: whatever happens, two ARP requests for the same address are at least five seconds
  apart.
\<close>

theorem requests_are_spaced:
  assumes "interfacing eth ip (ni, log)" and "i < j" and "j < length log" and "fst (log ! i) = fst (log ! j)"
  shows "snd (log ! i) + 5000 \<le> snd (log ! j)"
proof -
  have "spaced log" using interfacing_inv [OF assms(1)] by (simp add: log_ok_def)
  then show ?thesis using assms(2-4) by (simp add: spaced_def sorted_wrt_iff_nth_less)
qed

theorem requests_are_spaced_witness:
  "\<exists>ni log. interfacing [2, 0, 0, 0, 0, 1] 7 (ni, log) \<and> length log = 2 \<and> snd (log ! 0) + 5000 \<le> snd (log ! 1)"
proof -
  let ?eth = "[2, 0, 0, 0, 0, 1] :: byte list"
  have ver: "ip_ver (dg_header IPv4Datagram) = 4" by (simp add: IPv4Datagram_def IPv4Header_def)
  obtain n0 where n0: "NetworkInterface ?eth (ipv4_address 7) = Inr n0" by (simp add: construct_eq)
  note c0 = construct_inv [OF n0]
  obtain n1 where n1: "send_datagram n0 IPv4Datagram (ipv4_address 9) = Inr n1" "interface_inv n1"
    "interface_abs n1 = cache_send (ni_ethernet_address n0) (ni_ipv4 n0) (interface_abs n0) IPv4Datagram 9"
    by (rule send_refines [OF c0(1) ver])
  let ?l1 = "new_requests n0 n1 9"
  have r1: "interfacing ?eth 7 (n1, [] @ ?l1)" by (rule interfacing.send [OF interfacing.construct [OF n0] ver n1(1)])
  have time: "ni_timestamp n1 = 0" using n1(3) c0 abs_fields(1) [of n1] by (simp add: cache_send_def)
  then have t: "ni_timestamp n1 + 5000 + 30000 < 2 ^ 64" by simp
  note r2 = interfacing.wait [OF r1 t] and tick = tick_refines [OF n1(2) t]
  let ?n2 = "interface_tick n1 5000"
  obtain n3 where n3: "send_datagram ?n2 IPv4Datagram (ipv4_address 9) = Inr n3"
    "interface_abs n3 = cache_send (ni_ethernet_address ?n2) (ni_ipv4 ?n2) (interface_abs ?n2) IPv4Datagram 9"
    by (rule send_refines [OF tick(1) ver])
  let ?log = "([] @ ?l1) @ new_requests ?n2 n3 9"
  have r3: "interfacing ?eth 7 (n3, ?log)" by (rule interfacing.send [OF r2 ver n3(1)])
  have frames: "is_request (request_frame e i x)" for e i x
    by (simp add: is_request_def request_frame_def broadcast_frame_def)
  have a1: "ac_frames (interface_abs n1) = [request_frame ?eth 7 9]" "ac_requested (interface_abs n1) 9 = Some 0"
    "ac_learned (interface_abs n1) 9 = None" "ac_now (interface_abs n1) = 0"
    using n1(3) c0 by (simp_all add: cache_send_def)
  have f1: "ni_frames n0 = []" "ni_frames n1 = [request_frame ?eth 7 9]" using a1(1) c0(4) abs_fields(2) by (metis arp_cache.select_convs(5))+
  have l1: "?l1 = [(9, 0)]" using f1 c0(4) abs_fields(1) [of n0] by (simp add: new_requests_def frames)
  have a2: "ac_learned (interface_abs ?n2) 9 = None" "ac_requested (interface_abs ?n2) 9 = None" "ac_now (interface_abs ?n2) = 5000"
    "ac_frames (interface_abs ?n2) = [request_frame ?eth 7 9]"
    using a1 by (simp_all add: tick(2) cache_tick_def Let_def alive_def)
  have f3: "ni_frames n3 = ni_frames ?n2 @ [request_frame (ni_ethernet_address ?n2) (ni_ipv4 ?n2) 9]"
    using n3(2) a2 abs_fields(2) [of n3] abs_fields(2) [of ?n2] by (simp add: cache_send_def)
  have l2: "new_requests ?n2 n3 9 = [(9, 5000)]"
    using f3 a2(3) abs_fields(1) [of ?n2] by (simp add: new_requests_def frames)
  have "snd (?log ! 0) + 5000 \<le> snd (?log ! 1)"
    by (rule requests_are_spaced [OF r3]) (simp_all add: l1 l2)
  then show ?thesis using r3 l1 l2 by (intro exI [of _ n3] exI [of _ ?log]) simp
qed

text \<open>
  \<open>C38\<close>: a second datagram for a hop whose address is being asked for is dropped. Neither is it
  sent when the reply arrives nor does it wait: after the reply the only frames are the request and
  the first datagram.
\<close>

theorem second_datagram_is_lost:
  assumes "NetworkInterface eth (ipv4_address ip) = Inr ni" and "length eth = 6" and "length mac = 6"
    and "ip_ver (dg_header d1) = 4" and "ip_ver (dg_header d2) = 4"
  shows "\<exists>ni1 ni2 ni3. send_datagram ni d1 (ipv4_address hop) = Inr ni1
    \<and> send_datagram ni1 d2 (ipv4_address hop) = Inr ni2
    \<and> recv_frame ni2 (unicast_frame eth mac TYPE_ARP [arp_bytes (ARPMessage_reply OPCODE_REPLY mac hop eth ip)]) = Inr (None, ni3)
    \<and> ni_frames ni3 = [request_frame eth ip hop, datagram_frame mac eth d1]
    \<and> (\<forall>x. pending ni3 x = [])"
proof -
  let ?m = "ARPMessage_reply OPCODE_REPLY mac hop eth ip"
  let ?f = "unicast_frame eth mac TYPE_ARP [arp_bytes ?m]"
  note c0 = construct_inv [OF assms(1)]
  obtain n1 where n1: "send_datagram ni d1 (ipv4_address hop) = Inr n1" "interface_inv n1"
    "interface_abs n1 = cache_send (ni_ethernet_address ni) (ni_ipv4 ni) (interface_abs ni) d1 hop"
    by (rule send_refines [OF c0(1) assms(4)])
  obtain n2 where n2: "send_datagram n1 d2 (ipv4_address hop) = Inr n2" "interface_inv n2"
    "interface_abs n2 = cache_send (ni_ethernet_address n1) (ni_ipv4 n1) (interface_abs n1) d2 hop"
    by (rule send_refines [OF n1(2) assms(5)])
  have own: "ni_ethernet_address n2 = eth" "ni_ipv4 n2 = ip"
    using send_own [OF n1(1)] send_own [OF n2(1)] c0 by simp_all
  have "arp_shape ?m" "arp_shape ARPMessage"
    using assms(2,3) by (simp_all add: arp_shape_def ARPMessage_reply_def ARPMessage_def)
  then have m: "parse arp_parse ARPMessage (ef_payload ?f) = Inr (?m, True)"
    by (simp add: unicast_frame_def arp_decoded arp_messages_supported)
  obtain n3 where n3: "recv_frame n2 ?f = Inr (None, n3)"
    "interface_abs n3 = cache_receive_arp (ni_ethernet_address n2) (ni_ipv4 n2) (interface_abs n2) ?m"
    by (rule recv_arp_refines [OF n2(2) _ _ m]) (simp_all add: for_me_def own unicast_frame_def)
  have a1: "interface_abs n1 = \<lparr>ac_now = 0, ac_learned = (\<lambda>_. None), ac_requested = (\<lambda>_. None)(hop := Some 0),
      ac_pending = (\<lambda>_. [])(hop := [d1]), ac_frames = [request_frame eth ip hop]\<rparr>"
    by (simp add: n1(3) c0 cache_send_def)
  have a2: "interface_abs n2 = interface_abs n1" by (simp add: n2(3) a1 cache_send_def)
  have a3: "interface_abs n3 = \<lparr>ac_now = 0, ac_learned = (\<lambda>_. None)(hop := Some (mac, 0)), ac_requested = (\<lambda>_. None)(hop := Some 0),
      ac_pending = (\<lambda>_. []), ac_frames = [request_frame eth ip hop, datagram_frame mac eth d1]\<rparr>"
    by (simp add: n3(2) a2 a1 own cache_receive_arp_def cache_learn_def cache_answer_def ARPMessage_reply_def
        OPCODE_REPLY_def OPCODE_REQUEST_def fun_eq_iff)
  then have "ni_frames n3 = [request_frame eth ip hop, datagram_frame mac eth d1]" "\<forall>x. pending n3 x = []"
    by (simp_all add: interface_abs_def fun_eq_iff)
  then show ?thesis using n1(1) n2(1) n3(1) by blast
qed

theorem second_datagram_is_lost_witness:
  "\<exists>ni ni1 ni2 ni3. NetworkInterface (replicate 6 1) (ipv4_address 7) = Inr ni
    \<and> send_datagram ni IPv4Datagram (ipv4_address 9) = Inr ni1
    \<and> send_datagram ni1 (IPv4Datagram\<lparr>dg_payload := [[1]]\<rparr>) (ipv4_address 9) = Inr ni2
    \<and> recv_frame ni2 (unicast_frame (replicate 6 1) (replicate 6 2) TYPE_ARP
         [arp_bytes (ARPMessage_reply OPCODE_REPLY (replicate 6 2) 9 (replicate 6 1) 7)]) = Inr (None, ni3)
    \<and> ni_frames ni3 = [request_frame (replicate 6 1) 7 9, datagram_frame (replicate 6 2) (replicate 6 1) IPv4Datagram]"
proof -
  obtain ni where ni: "NetworkInterface (replicate 6 1) (ipv4_address 7) = Inr ni" by (simp add: construct_eq)
  have "ip_ver (dg_header IPv4Datagram) = 4" "ip_ver (dg_header (IPv4Datagram\<lparr>dg_payload := [[1]]\<rparr>)) = 4"
    by (simp_all add: IPv4Datagram_def IPv4Header_def)
  then show ?thesis
    using second_datagram_is_lost [OF ni, of "replicate 6 2" IPv4Datagram "IPv4Datagram\<lparr>dg_payload := [[1]]\<rparr>" 9] ni
    by (metis length_replicate)
qed

text \<open>
  A datagram for the interface is handed up whatever its checksum is: the parser's error
  is ignored, and the header handed up carries the right checksum in place of the one received.
\<close>

theorem corrupted_datagram_is_delivered:
  assumes "for_me ni f" and "eh_type (ef_header f) = TYPE_IPv4" and "ef_payload f = ipv4_bytes h # tail"
    and "ipv4_shape h" and "length (concat tail) + 20 < 2 ^ 64"
  shows "\<exists>d. recv_frame ni f = Inr (Some d, ni) \<and> dg_header d = h\<lparr>ip_cksum := right_checksum h\<rparr>
    \<and> checksum_ok (dg_header d) \<and> concat (dg_payload d) = concat tail"
  by (rule corrupted_delivery [OF assms])

theorem corrupted_datagram_is_delivered_witness:
  "\<exists>ni d. NetworkInterface (replicate 6 1) (ipv4_address 7) = Inr ni
    \<and> recv_frame ni (unicast_frame (replicate 6 1) (replicate 6 2) TYPE_IPv4 [ipv4_bytes (IPv4Header\<lparr>ip_cksum := 12345\<rparr>), [1, 2]])
        = Inr (Some d, ni) \<and> checksum_ok (dg_header d)"
proof -
  let ?h = "IPv4Header\<lparr>ip_cksum := 12345\<rparr>"
  let ?f = "unicast_frame (replicate 6 1) (replicate 6 2) TYPE_IPv4 [ipv4_bytes ?h, [1, 2]]"
  obtain ni where ni: "NetworkInterface (replicate 6 1) (ipv4_address 7) = Inr ni" by (simp add: construct_eq)
  have "for_me ni ?f" using construct_inv(2) [OF ni] by (simp add: for_me_def unicast_frame_def)
  moreover have "eh_type (ef_header ?f) = TYPE_IPv4" "ef_payload ?f = ipv4_bytes ?h # [[1, 2]]"
    by (simp_all add: unicast_frame_def)
  moreover have "ipv4_shape ?h" "length (concat [[1, 2] :: byte list]) + 20 < 2 ^ 64"
    by (simp_all add: ipv4_shape_def IPv4Header_def)
  ultimately show ?thesis using ni corrupted_datagram_is_delivered by blast
qed

end
