(* ===== verification/Interface_Types.thy ===== *)
theory Interface_Types
  imports Interface_Properties
begin

text \<open>
  The types the C++ compiler checks and the lists of the model do not: an Ethernet address is an
  array of six bytes. They are an invariant of the interface of \<open>src/src/network_interface.cc\<close>,
  whatever frames arrive, and with them every frame it queues is well formed.
\<close>

section \<open>Well-formed frames\<close>

definition arp_frame_typed :: "ethernet_address \<Rightarrow> 32 word \<Rightarrow> ethernet_frame \<Rightarrow> bool" where
  "arp_frame_typed eth ip f \<longleftrightarrow> eh_type (ef_header f) = TYPE_ARP
     \<and> (\<exists>m. ef_payload f = [arp_bytes m] \<and> arp_supported m \<and> arp_shape m
          \<and> arp_sender_ethernet_address m = eth \<and> arp_sender_ip_address m = ip)"

definition frame_typed :: "ethernet_address \<Rightarrow> 32 word \<Rightarrow> ethernet_frame \<Rightarrow> bool" where
  "frame_typed eth ip f \<longleftrightarrow> eh_src (ef_header f) = eth \<and> length (eh_dst (ef_header f)) = 6
     \<and> (arp_frame_typed eth ip f
        \<or> eh_type (ef_header f) = TYPE_IPv4 \<and> (\<exists>d. ef_payload f = datagram_buffers d))"

definition cache_typed :: "ethernet_address \<Rightarrow> 32 word \<Rightarrow> arp_cache \<Rightarrow> bool" where
  "cache_typed eth ip c \<longleftrightarrow> (\<forall>x mac t. ac_learned c x = Some (mac, t) \<longrightarrow> length mac = 6)
     \<and> (\<forall>f \<in> set (ac_frames c). frame_typed eth ip f)"

lemma typed_datagram [simp]: "length mac = 6 \<Longrightarrow> frame_typed eth ip (datagram_frame mac eth d)"
  by (auto simp: frame_typed_def datagram_frame_def unicast_frame_def)

lemma request_fields:
  "arp_supported (ARPMessage_request OPCODE_REQUEST eth own ip)"
  "arp_sender_ethernet_address (ARPMessage_request opcode eth own ip) = eth"
  "arp_sender_ip_address (ARPMessage_request opcode eth own ip) = own"
  "arp_target_ip_address (ARPMessage_request opcode eth own ip) = ip"
  "length eth = 6 \<Longrightarrow> arp_shape (ARPMessage_request opcode eth own ip)"
  using arp_messages_supported by (simp_all add: ARPMessage_request_def ARPMessage_reply_def arp_shape_def)

lemma reply_fields:
  "arp_supported (ARPMessage_reply OPCODE_REPLY eth own mac ip)"
  "arp_sender_ethernet_address (ARPMessage_reply opcode eth own mac ip) = eth"
  "arp_sender_ip_address (ARPMessage_reply opcode eth own mac ip) = own"
  "arp_target_ip_address (ARPMessage_reply opcode eth own mac ip) = ip"
  "length eth = 6 \<Longrightarrow> length mac = 6 \<Longrightarrow> arp_shape (ARPMessage_reply opcode eth own mac ip)"
  using arp_messages_supported by (simp_all add: ARPMessage_reply_def arp_shape_def)

lemma default_shape: "arp_shape ARPMessage"
  unfolding ARPMessage_def by (rule reply_fields(5)) simp_all

lemma typed_request:
  assumes "length eth = 6"
  shows "frame_typed eth own (request_frame eth own ip)"
proof -
  have "arp_frame_typed eth own (request_frame eth own ip)" unfolding arp_frame_typed_def
    by (intro conjI exI [of _ "ARPMessage_request OPCODE_REQUEST eth own ip"])
      (use assms in \<open>simp_all add: request_frame_def broadcast_frame_def request_fields\<close>)
  then show ?thesis
    by (simp add: frame_typed_def) (simp add: request_frame_def broadcast_frame_def ETHERNET_BROADCAST_def)
qed

lemma typed_reply:
  assumes "length eth = 6" and "length mac = 6"
  shows "frame_typed eth own (unicast_frame mac eth TYPE_ARP [arp_bytes (ARPMessage_reply OPCODE_REPLY eth own mac ip)])"
proof -
  have "arp_frame_typed eth own (unicast_frame mac eth TYPE_ARP [arp_bytes (ARPMessage_reply OPCODE_REPLY eth own mac ip)])"
    unfolding arp_frame_typed_def
    by (intro conjI exI [of _ "ARPMessage_reply OPCODE_REPLY eth own mac ip"])
      (use assms in \<open>simp_all add: unicast_frame_def reply_fields\<close>)
  then show ?thesis using assms(2) by (simp add: frame_typed_def unicast_frame_def)
qed

section \<open>Whatever is parsed, the addresses have six bytes\<close>

lemma parse_address_length: "parse_address a p = Inr (a', p') \<Longrightarrow> length a' = length a"
  by (induction a p arbitrary: a' p' rule: parse_address.induct) (auto simp: andthen_eq_Inr_iff)

lemma arp_parse_shape:
  assumes "parse arp_parse m0 bs = Inr (m, ok)" and "arp_shape m0"
  shows "arp_shape m"
proof -
  have fields: "arp_shape m'" if "arp_parse_fields m p = Inr (m', p')" "arp_shape m" for m p m' p'
    using that by (auto simp: arp_parse_fields_def andthen_eq_Inr_iff arp_shape_def)
  have addresses: "arp_shape m'" if "arp_parse_addresses m p = Inr (m', p')" "arp_shape m" for m p m' p'
    using that by (auto simp: arp_parse_addresses_def andthen_eq_Inr_iff arp_shape_def dest!: parse_address_length)
  show ?thesis
    using assms by (auto simp: parse_def arp_parse_def andthen_eq_Inr_iff split: if_splits dest: fields addresses)
qed

section \<open>Every operation keeps the types\<close>

lemma typed_send:
  assumes "cache_typed eth ip c" and "length eth = 6"
  shows "cache_typed eth ip (cache_send eth ip c d hop)"
  using assms typed_request [OF assms(2), of ip hop]
  by (auto simp: cache_typed_def cache_send_def split: option.splits)

lemma typed_receive_arp:
  assumes "cache_typed eth ip c" and "length eth = 6" and "arp_shape m"
  shows "cache_typed eth ip (cache_receive_arp eth ip c m)"
proof -
  have len: "length (arp_sender_ethernet_address m) = 6" using assms(3) by (simp add: arp_shape_def)
  have "cache_typed eth ip (cache_learn eth c (arp_sender_ip_address m) (arp_sender_ethernet_address m))"
    using assms(1) len by (auto simp: cache_typed_def cache_learn_def)
  then have "cache_typed eth ip
      (cache_answer eth ip (cache_learn eth c (arp_sender_ip_address m) (arp_sender_ethernet_address m)) m)"
    using typed_reply [OF assms(2) len] by (auto simp: cache_typed_def cache_answer_def)
  then show ?thesis using assms(1) by (simp add: cache_receive_arp_def)
qed

lemma typed_tick: "cache_typed eth ip c \<Longrightarrow> cache_typed eth ip (cache_tick c ms)"
  by (auto simp: cache_typed_def cache_tick_def Let_def alive_def split: option.splits if_splits)

lemma recv_typed:
  assumes inv: "interface_inv ni" and r: "recv_frame ni f = Inr (r, ni')"
    and t: "cache_typed (ni_ethernet_address ni) (ni_ipv4 ni) (interface_abs ni)" "length (ni_ethernet_address ni) = 6"
  shows "cache_typed (ni_ethernet_address ni) (ni_ipv4 ni) (interface_abs ni')"
proof (cases "for_me ni f \<and> eh_type (ef_header f) = TYPE_ARP")
  case True
  then obtain m ok where m: "parse arp_parse ARPMessage (ef_payload f) = Inr (m, ok)"
    using r by (auto simp: recv_frame_def Let_def for_me_def TYPE_ARP_def TYPE_IPv4_def andthen_eq_Inr_iff)
  obtain ni2 where "recv_frame ni f = Inr (None, ni2)"
    "interface_abs ni2 = cache_receive_arp (ni_ethernet_address ni) (ni_ipv4 ni) (interface_abs ni) m"
    by (rule recv_arp_refines [OF inv _ _ m]) (use True in simp_all)
  then show ?thesis
    using typed_receive_arp [OF t arp_parse_shape [OF m default_shape]] r by simp
next
  case False
  then show ?thesis using recv_other [OF r False] t by simp
qed

lemma interfacing_typed:
  assumes "interfacing eth ip (ni, log)" and "length eth = 6"
  shows "cache_typed eth ip (interface_abs ni)"
  using assms
proof (induction "(ni, log)" arbitrary: ni log rule: interfacing.induct)
  case (construct ni)
  then show ?case using construct_inv [OF construct.hyps] by (simp add: cache_typed_def)
next
  case (send ni log d hop ni')
  then have inv: "interface_inv ni" "ni_ethernet_address ni = eth" "ni_ipv4 ni = ip" using interfacing_inv by blast+
  obtain ni2 where "send_datagram ni d (ipv4_address hop) = Inr ni2"
    "interface_abs ni2 = cache_send (ni_ethernet_address ni) (ni_ipv4 ni) (interface_abs ni) d hop"
    by (rule send_refines [OF inv(1) send.hyps(3)])
  then show ?case using typed_send send inv by simp
next
  case (receive ni log f r ni')
  then have inv: "interface_inv ni" "ni_ethernet_address ni = eth" "ni_ipv4 ni = ip" using interfacing_inv by blast+
  then show ?case using recv_typed [OF inv(1) receive.hyps(3)] receive by simp
next
  case (wait ni log ms)
  then have inv: "interface_inv ni" using interfacing_inv by blast
  show ?case using tick_refines [OF inv wait.hyps(3)] typed_tick wait by simp
next
  case (transmit ni log r ni')
  then have inv: "interface_inv ni" using interfacing_inv by blast
  have "cache_typed eth ip (interface_abs ni)" using transmit by simp
  then show ?case using maybe_send_refines(2) [OF inv transmit.hyps(3)]
    by (cases "ac_frames (interface_abs ni)") (simp_all add: cache_typed_def)
qed

section \<open>Property\<close>

text \<open>
  \<open>C14\<close>: in every reachable state every frame an interface has queued bears its own address, a
  destination of six bytes, and either a datagram or one ARP message of 28 bytes that a peer
  parses without error and that names the interface as its sender.
\<close>

theorem queued_frames_are_well_formed:
  assumes "interfacing eth ip (ni, log)" and "length eth = 6" and "f \<in> set (ni_frames ni)"
  shows "eh_src (ef_header f) = eth \<and> length (eh_dst (ef_header f)) = 6
    \<and> (eh_type (ef_header f) = TYPE_ARP \<and> length (concat (ef_payload f)) = 28
         \<and> (\<exists>m. parse arp_parse ARPMessage (ef_payload f) = Inr (m, True)
              \<and> arp_sender_ethernet_address m = eth \<and> arp_sender_ip_address m = ip)
       \<or> eh_type (ef_header f) = TYPE_IPv4 \<and> (\<exists>d. ef_payload f = datagram_buffers d))"
proof -
  have f: "frame_typed eth ip f"
    using interfacing_typed [OF assms(1,2)] assms(3) by (simp add: cache_typed_def abs_fields)
  have "length (concat (ef_payload f)) = 28 \<and> (\<exists>m. parse arp_parse ARPMessage (ef_payload f) = Inr (m, True)
      \<and> arp_sender_ethernet_address m = eth \<and> arp_sender_ip_address m = ip)" if "arp_frame_typed eth ip f"
  proof -
    from that obtain m where m: "ef_payload f = [arp_bytes m]" "arp_supported m" "arp_shape m"
      "arp_sender_ethernet_address m = eth" "arp_sender_ip_address m = ip" by (auto simp: arp_frame_typed_def)
    have "parse arp_parse ARPMessage (ef_payload f) = Inr (m, True)"
      using m by (simp add: arp_decoded default_shape)
    then show ?thesis using m by (auto simp: length_arp_bytes)
  qed
  then show ?thesis using f by (auto simp: frame_typed_def arp_frame_typed_def)
qed

theorem queued_frames_are_well_formed_witness:
  "\<exists>n0 n1 f. NetworkInterface [2, 0, 0, 0, 0, 1] (ipv4_address 7) = Inr n0
     \<and> send_datagram n0 IPv4Datagram (ipv4_address 9) = Inr n1
     \<and> f \<in> set (ni_frames n1) \<and> eh_src (ef_header f) = [2, 0, 0, 0, 0, 1] \<and> length (eh_dst (ef_header f)) = 6"
proof -
  let ?eth = "[2, 0, 0, 0, 0, 1] :: byte list"
  have ver: "ip_ver (dg_header IPv4Datagram) = 4" by (simp add: IPv4Datagram_def IPv4Header_def)
  obtain n0 where n0: "NetworkInterface ?eth (ipv4_address 7) = Inr n0" by (simp add: construct_eq)
  note c0 = construct_inv [OF n0]
  obtain n1 where n1: "send_datagram n0 IPv4Datagram (ipv4_address 9) = Inr n1" "interface_inv n1"
    "interface_abs n1 = cache_send (ni_ethernet_address n0) (ni_ipv4 n0) (interface_abs n0) IPv4Datagram 9"
    by (rule send_refines [OF c0(1) ver])
  have r1: "interfacing ?eth 7 (n1, [] @ new_requests n0 n1 9)"
    by (rule interfacing.send [OF interfacing.construct [OF n0] ver n1(1)])
  have q: "request_frame ?eth 7 9 \<in> set (ni_frames n1)"
    using abs_fields(2) [of n1, symmetric] by (simp add: n1(3) c0 cache_send_def)
  have "length ?eth = 6" by simp
  from queued_frames_are_well_formed [OF r1 this q] q n0 n1(1) show ?thesis by blast
qed

end
