(* ===== verification/Ethernet_Segment.thy ===== *)
theory Ethernet_Segment
  imports Interface_Types
begin

text \<open>
  Network interfaces (\<open>src/src/network_interface.cc\<close>) that share an Ethernet segment. A frame
  that one of them transmits stays on the wire: it reaches any of the hosts any number of times,
  late, out of order or never. The invariant says that only genuine frames are on the wire, and
  from it follow what the hosts learn of each other and what they hand up.
\<close>

section \<open>Hosts on a segment\<close>

text \<open>The Ethernet and IP address of every host.\<close>

type_synonym owner = "ethernet_address \<times> 32 word"

definition distinct_owners :: "owner list \<Rightarrow> bool" where
  "distinct_owners os \<longleftrightarrow> distinct (map fst os) \<and> distinct (map snd os)
     \<and> (\<forall>x \<in> set os. length (fst x) = 6 \<and> fst x \<noteq> ETHERNET_BROADCAST)"

text \<open>
  \<open>seg_sent\<close> and \<open>seg_delivered\<close> are the history: the datagrams given to \<open>send_datagram\<close> with
  the address of their next hop, and those returned by \<open>recv_frame\<close> with the number of the host.
\<close>

record segment =
  seg_hosts :: "network_interface list"
  seg_wire :: "ethernet_frame list"
  seg_sent :: "(32 word \<times> ipv4_datagram) list"
  seg_delivered :: "(nat \<times> ipv4_datagram) list"

text \<open>A datagram without options in its header that fits in a frame's byte count.\<close>

definition sendable :: "ipv4_datagram \<Rightarrow> bool" where
  "sendable d \<longleftrightarrow> ipv4_shape (dg_header d) \<and> length (concat (dg_payload d)) + 20 < 2 ^ 64"

abbreviation set_host :: "segment \<Rightarrow> nat \<Rightarrow> network_interface \<Rightarrow> segment" where
  "set_host s i ni \<equiv> s\<lparr>seg_hosts := (seg_hosts s)[i := ni]\<rparr>"

inductive on_segment :: "owner list \<Rightarrow> segment \<Rightarrow> bool" for os where
  start: "length hs = length os \<Longrightarrow>
    \<forall>i < length os. NetworkInterface (fst (os ! i)) (ipv4_address (snd (os ! i))) = Inr (hs ! i) \<Longrightarrow>
    on_segment os \<lparr>seg_hosts = hs, seg_wire = [], seg_sent = [], seg_delivered = []\<rparr>"
| send: "on_segment os s \<Longrightarrow> i < length os \<Longrightarrow> sendable d \<Longrightarrow>
    send_datagram (seg_hosts s ! i) d (ipv4_address hop) = Inr ni \<Longrightarrow>
    on_segment os ((set_host s i ni)\<lparr>seg_sent := seg_sent s @ [(hop, d)]\<rparr>)"
| transmit: "on_segment os s \<Longrightarrow> i < length os \<Longrightarrow> interface_maybe_send (seg_hosts s ! i) = (Some f, ni) \<Longrightarrow>
    on_segment os ((set_host s i ni)\<lparr>seg_wire := seg_wire s @ [f]\<rparr>)"
| receive: "on_segment os s \<Longrightarrow> i < length os \<Longrightarrow> f \<in> set (seg_wire s) \<Longrightarrow>
    recv_frame (seg_hosts s ! i) f = Inr (r, ni) \<Longrightarrow>
    on_segment os ((set_host s i ni)\<lparr>seg_delivered := seg_delivered s @ (case r of None \<Rightarrow> [] | Some d \<Rightarrow> [(i, d)])\<rparr>)"
| wait: "on_segment os s \<Longrightarrow> i < length os \<Longrightarrow> ni_timestamp (seg_hosts s ! i) + ms + 30000 < 2 ^ 64 \<Longrightarrow>
    on_segment os (set_host s i (interface_tick (seg_hosts s ! i) ms))"

section \<open>Genuine frames\<close>

text \<open>
  A frame is genuine when it carries a datagram to the owner of the hop it was sent to, or an
  ARP message whose sender is one of the hosts.
\<close>

definition carries_datagram :: "owner list \<Rightarrow> (32 word \<times> ipv4_datagram) list \<Rightarrow> ethernet_frame \<Rightarrow> bool" where
  "carries_datagram os sent f \<longleftrightarrow>
     (\<exists>x \<in> set os. \<exists>d src. (snd x, d) \<in> set sent \<and> sendable d \<and> f = datagram_frame (fst x) src d)"

definition carries_arp :: "owner list \<Rightarrow> ethernet_frame \<Rightarrow> bool" where
  "carries_arp os f \<longleftrightarrow> eh_type (ef_header f) = TYPE_ARP
     \<and> (\<exists>m. ef_payload f = [arp_bytes m] \<and> arp_supported m \<and> arp_shape m
          \<and> (arp_sender_ethernet_address m, arp_sender_ip_address m) \<in> set os)"

definition genuine :: "owner list \<Rightarrow> (32 word \<times> ipv4_datagram) list \<Rightarrow> ethernet_frame \<Rightarrow> bool" where
  "genuine os sent f \<longleftrightarrow> carries_datagram os sent f \<or> carries_arp os f"

definition cache_genuine :: "owner list \<Rightarrow> (32 word \<times> ipv4_datagram) list \<Rightarrow> arp_cache \<Rightarrow> bool" where
  "cache_genuine os sent c \<longleftrightarrow>
     (\<forall>ip mac t. ac_learned c ip = Some (mac, t) \<longrightarrow> (mac, ip) \<in> set os)
   \<and> (\<forall>ip. \<forall>d \<in> set (ac_pending c ip). (ip, d) \<in> set sent \<and> sendable d)
   \<and> (\<forall>f \<in> set (ac_frames c). genuine os sent f)"

lemma cache_genuine_mono: "cache_genuine os sent c \<Longrightarrow> cache_genuine os (sent @ later) c"
  unfolding cache_genuine_def genuine_def carries_datagram_def by auto blast

lemma genuine_datagram:
  "(mac, ip) \<in> set os \<Longrightarrow> (ip, d) \<in> set sent \<Longrightarrow> sendable d \<Longrightarrow> genuine os sent (datagram_frame mac src d)"
  unfolding genuine_def carries_datagram_def by force

lemma genuine_request:
  assumes "(eth, own) \<in> set os" and "length eth = 6"
  shows "genuine os sent (request_frame eth own ip)"
proof -
  have "carries_arp os (request_frame eth own ip)"
    unfolding carries_arp_def
    by (intro conjI exI [of _ "ARPMessage_request OPCODE_REQUEST eth own ip"])
      (use assms in \<open>simp_all add: request_frame_def broadcast_frame_def request_fields\<close>)
  then show ?thesis by (simp add: genuine_def)
qed

lemma genuine_reply:
  assumes "(eth, own) \<in> set os" and "length eth = 6" and "length mac = 6"
  shows "genuine os sent (unicast_frame mac eth TYPE_ARP [arp_bytes (ARPMessage_reply OPCODE_REPLY eth own mac ip)])"
proof -
  have "carries_arp os (unicast_frame mac eth TYPE_ARP [arp_bytes (ARPMessage_reply OPCODE_REPLY eth own mac ip)])"
    unfolding carries_arp_def
    by (intro conjI exI [of _ "ARPMessage_reply OPCODE_REPLY eth own mac ip"])
      (use assms in \<open>simp_all add: unicast_frame_def reply_fields\<close>)
  then show ?thesis by (simp add: genuine_def)
qed

section \<open>Every operation of the cache keeps to genuine frames\<close>

lemma genuine_send:
  assumes "cache_genuine os sent c" and "(eth, own) \<in> set os" and "length eth = 6" and "sendable d"
  shows "cache_genuine os (sent @ [(ip, d)]) (cache_send eth own c d ip)"
proof -
  let ?s = "sent @ [(ip, d)]"
  have c: "cache_genuine os ?s c" by (rule cache_genuine_mono [OF assms(1)])
  show ?thesis
  proof (cases "ac_learned c ip")
    case None
    then show ?thesis
      using c assms(4) genuine_request [OF assms(2,3), of ?s ip]
      by (auto simp: cache_send_def cache_genuine_def)
  next
    case (Some x)
    obtain mac t where x: "x = (mac, t)" by (cases x)
    then have "(mac, ip) \<in> set os" using c Some by (simp add: cache_genuine_def)
    then have "genuine os ?s (datagram_frame mac eth d)" by (rule genuine_datagram) (simp_all add: assms(4))
    then show ?thesis using c Some x by (simp add: cache_send_def cache_genuine_def)
  qed
qed

lemma genuine_receive_arp:
  assumes "cache_genuine os sent c" and "(eth, own) \<in> set os" and "length eth = 6" and "arp_shape m"
    and "(arp_sender_ethernet_address m, arp_sender_ip_address m) \<in> set os"
  shows "cache_genuine os sent (cache_receive_arp eth own c m)"
proof -
  let ?ip = "arp_sender_ip_address m" and ?mac = "arp_sender_ethernet_address m"
  have len: "length ?mac = 6" using assms(4) by (simp add: arp_shape_def)
  have "genuine os sent (datagram_frame ?mac eth d)" if "d \<in> set (ac_pending c ?ip)" for d
    using assms(1,5) that by (intro genuine_datagram [of _ ?ip]) (auto simp: cache_genuine_def)
  then have "cache_genuine os sent (cache_learn eth c ?ip ?mac)"
    using assms(1,5) by (auto simp: cache_learn_def cache_genuine_def)
  then have "cache_genuine os sent (cache_answer eth own (cache_learn eth c ?ip ?mac) m)"
    using genuine_reply [OF assms(2,3) len] by (auto simp: cache_answer_def cache_genuine_def)
  then show ?thesis using assms(1) by (simp add: cache_receive_arp_def)
qed

lemma genuine_tick: "cache_genuine os sent c \<Longrightarrow> cache_genuine os sent (cache_tick c ms)"
  by (auto simp: cache_genuine_def cache_tick_def Let_def alive_def split: option.splits if_splits)

lemma genuine_transmit:
  "cache_genuine os sent c \<Longrightarrow> cache_genuine os sent (c\<lparr>ac_frames := tl (ac_frames c)\<rparr>)"
  by (cases "ac_frames c") (simp_all add: cache_genuine_def)

section \<open>Receiving a genuine frame\<close>

text \<open>What arrives is what was sent, with the right checksum in its header.\<close>

definition arrived :: "ipv4_datagram \<Rightarrow> ipv4_datagram \<Rightarrow> bool" where
  "arrived d d' \<longleftrightarrow> dg_header d' = (dg_header d)\<lparr>ip_cksum := right_checksum (dg_header d)\<rparr>
     \<and> concat (dg_payload d') = concat (dg_payload d)"

definition host_ok :: "owner list \<Rightarrow> (32 word \<times> ipv4_datagram) list \<Rightarrow> owner \<Rightarrow> network_interface \<Rightarrow> bool" where
  "host_ok os sent x ni \<longleftrightarrow> interface_inv ni \<and> ni_ethernet_address ni = fst x \<and> ni_ipv4 ni = snd x
     \<and> cache_genuine os sent (interface_abs ni)"

lemma concat_interleaved: "concat (concat (map (\<lambda>b. [b, []]) bs)) = concat bs"
  by (induction bs) simp_all

lemma receive_datagram_frame:
  assumes "for_me ni (datagram_frame mac src d)" and "sendable d"
  obtains d' where "recv_frame ni (datagram_frame mac src d) = Inr (Some d', ni)" "arrived d d'"
proof -
  let ?f = "datagram_frame mac src d"
  have f: "eh_type (ef_header ?f) = TYPE_IPv4"
    "ef_payload ?f = ipv4_bytes (dg_header d) # concat (map (\<lambda>b. [b, []]) (dg_payload d))"
    by (simp_all add: datagram_frame_def unicast_frame_def datagram_buffers_def)
  have "\<exists>d'. recv_frame ni ?f = Inr (Some d', ni) \<and> dg_header d' = (dg_header d)\<lparr>ip_cksum := right_checksum (dg_header d)\<rparr>
    \<and> checksum_ok (dg_header d') \<and> concat (dg_payload d') = concat (concat (map (\<lambda>b. [b, []]) (dg_payload d)))"
    by (rule corrupted_delivery [OF assms(1) f]) (use assms(2) in \<open>simp_all add: sendable_def concat_interleaved\<close>)
  then show thesis using that by (auto simp: arrived_def concat_interleaved)
qed

lemma owner_unique: "distinct_owners os \<Longrightarrow> (mac, x) \<in> set os \<Longrightarrow> (mac, y) \<in> set os \<Longrightarrow> x = y"
  unfolding distinct_owners_def by (metis eq_key_imp_eq_value)

lemma receive_genuine:
  assumes os: "distinct_owners os" "x \<in> set os" and h: "host_ok os sent x ni" and f: "genuine os sent f"
  obtains r ni' where "recv_frame ni f = Inr (r, ni')" "host_ok os sent x ni'"
    "case r of None \<Rightarrow> True | Some d' \<Rightarrow> \<exists>d. (snd x, d) \<in> set sent \<and> arrived d d'"
proof -
  have own: "ni_ethernet_address ni = fst x" "ni_ipv4 ni = snd x" "interface_inv ni"
    and c: "cache_genuine os sent (interface_abs ni)" using h by (simp_all add: host_ok_def)
  have len: "length (fst x) = 6" using os by (simp add: distinct_owners_def)
  consider "\<not> for_me ni f" | "for_me ni f" "carries_datagram os sent f" | "for_me ni f" "carries_arp os f"
    using f by (auto simp: genuine_def)
  then show thesis
  proof cases
    case 1
    then have "recv_frame ni f = Inr (None, ni)" by (simp add: recv_frame_def for_me_def Let_def)
    then show ?thesis using h by (intro that [of None ni]) simp_all
  next
    case 2
    then obtain y d src where y: "y \<in> set os" "(snd y, d) \<in> set sent" "sendable d" "f = datagram_frame (fst y) src d"
      by (auto simp: carries_datagram_def)
    have "fst y \<noteq> ETHERNET_BROADCAST" using os(1) y(1) by (simp add: distinct_owners_def)
    then have "fst y = fst x" using 2(1) own(1) y(4) by (simp add: for_me_def datagram_frame_def unicast_frame_def)
    then have "(fst x, snd y) \<in> set os" "(fst x, snd x) \<in> set os" using y(1) os(2) by (metis prod.collapse)+
    then have "snd y = snd x" using owner_unique [OF os(1)] by blast
    then have sent: "(snd x, d) \<in> set sent" using y(2) by simp
    obtain d' where "recv_frame ni f = Inr (Some d', ni)" "arrived d d'"
      using receive_datagram_frame [OF 2(1) [unfolded y(4)] y(3)] y(4) by metis
    then show ?thesis using h sent by (intro that [of "Some d'" ni]) auto
  next
    case 3
    then obtain m where m: "ef_payload f = [arp_bytes m]" "arp_supported m" "arp_shape m" "eh_type (ef_header f) = TYPE_ARP"
      "(arp_sender_ethernet_address m, arp_sender_ip_address m) \<in> set os" by (auto simp: carries_arp_def)
    have "parse arp_parse ARPMessage (ef_payload f) = Inr (m, True)" using m by (simp add: arp_decoded default_shape)
    then obtain ni' where n: "recv_frame ni f = Inr (None, ni')" "interface_inv ni'"
      "interface_abs ni' = cache_receive_arp (ni_ethernet_address ni) (ni_ipv4 ni) (interface_abs ni) m"
      by (rule recv_arp_refines [OF own(3) 3(1) m(4)])
    have "(fst x, snd x) \<in> set os" using os(2) by simp
    then have "cache_genuine os sent (interface_abs ni')"
      using genuine_receive_arp [OF c _ len m(3,5)] by (simp add: n(3) own)
    then show ?thesis using n recv_own [OF n(1)] own by (intro that [of None ni']) (simp_all add: host_ok_def)
  qed
qed

section \<open>The invariant of the segment\<close>

definition segment_ok :: "owner list \<Rightarrow> segment \<Rightarrow> bool" where
  "segment_ok os s \<longleftrightarrow> length (seg_hosts s) = length os
     \<and> (\<forall>i < length os. host_ok os (seg_sent s) (os ! i) (seg_hosts s ! i))
     \<and> (\<forall>f \<in> set (seg_wire s). genuine os (seg_sent s) f)
     \<and> (\<forall>x \<in> set (seg_delivered s). \<exists>d. (snd (os ! fst x), d) \<in> set (seg_sent s) \<and> arrived d (snd x))"

lemma segment_okD:
  assumes "segment_ok os s" and "i < length os"
  shows "host_ok os (seg_sent s) (os ! i) (seg_hosts s ! i)" "i < length (seg_hosts s)"
  using assms by (simp_all add: segment_ok_def)

lemma segment_ok_set_host:
  assumes "segment_ok os s" and "i < length os" and "host_ok os (seg_sent s) (os ! i) ni"
  shows "segment_ok os (set_host s i ni)"
  using assms by (simp add: segment_ok_def nth_list_update)

lemma segment_ok_more_sent: "segment_ok os s \<Longrightarrow> segment_ok os (s\<lparr>seg_sent := seg_sent s @ later\<rparr>)"
  using cache_genuine_mono [of os "seg_sent s" _ later]
  unfolding segment_ok_def host_ok_def genuine_def carries_datagram_def by (auto, blast+)

lemma on_segment_ok:
  assumes "on_segment os s" and os: "distinct_owners os"
  shows "segment_ok os s"
  using assms(1)
proof induction
  case (start hs)
  have "host_ok os [] (os ! i) (hs ! i)" if "i < length os" for i
    using construct_inv [OF start(2) [rule_format, OF that]] by (simp add: host_ok_def cache_genuine_def)
  then show ?case using start(1) by (simp add: segment_ok_def)
next
  case (send s i d hop ni)
  note h = segment_okD [OF send.IH send.hyps(2)]
  then have own: "interface_inv (seg_hosts s ! i)" "ni_ethernet_address (seg_hosts s ! i) = fst (os ! i)"
    "ni_ipv4 (seg_hosts s ! i) = snd (os ! i)" "cache_genuine os (seg_sent s) (interface_abs (seg_hosts s ! i))"
    by (simp_all add: host_ok_def)
  have "ip_ver (dg_header d) = 4" using send.hyps(3) by (simp add: sendable_def ipv4_shape_def)
  then obtain n2 where n2: "send_datagram (seg_hosts s ! i) d (ipv4_address hop) = Inr n2" "interface_inv n2"
    "interface_abs n2 = cache_send (fst (os ! i)) (snd (os ! i)) (interface_abs (seg_hosts s ! i)) d hop"
    using send_refines [OF own(1)] own(2,3) by metis
  have i: "os ! i \<in> set os" using send.hyps(2) by simp
  then have "length (fst (os ! i)) = 6" using os by (simp add: distinct_owners_def)
  then have "cache_genuine os (seg_sent s @ [(hop, d)]) (interface_abs n2)"
    using genuine_send [OF own(4), of "fst (os ! i)" "snd (os ! i)"] i send.hyps(3) by (simp add: n2(3))
  then have "host_ok os (seg_sent s @ [(hop, d)]) (os ! i) ni"
    using n2 send.hyps(4) send_own [OF send.hyps(4)] own by (simp add: host_ok_def)
  then show ?case
    using segment_ok_set_host [OF segment_ok_more_sent [OF send.IH, of "[(hop, d)]"] send.hyps(2), of ni]
    by (simp add: segment_ok_def)
next
  case (transmit s i f ni)
  note h = segment_okD [OF transmit.IH transmit.hyps(2)]
  have inv: "interface_inv (seg_hosts s ! i)" using h by (simp add: host_ok_def)
  note m = maybe_send_refines [OF inv transmit.hyps(3)]
  have "host_ok os (seg_sent s) (os ! i) ni"
    using h m genuine_transmit [of os "seg_sent s" "interface_abs (seg_hosts s ! i)"] transmit.hyps(3)
    by (auto simp: host_ok_def interface_maybe_send_def split: list.splits)
  moreover have "genuine os (seg_sent s) f"
    using h transmit.hyps(3)
    by (auto simp: host_ok_def cache_genuine_def interface_maybe_send_def interface_abs_def split: list.splits)
  ultimately show ?case using segment_ok_set_host [OF transmit.IH transmit.hyps(2), of ni] by (simp add: segment_ok_def)
next
  case (receive s i f r ni)
  note h = segment_okD [OF receive.IH receive.hyps(2)]
  have i: "os ! i \<in> set os" using receive.hyps(2) by simp
  have "genuine os (seg_sent s) f" using receive.IH receive.hyps(3) by (simp add: segment_ok_def)
  then obtain r' ni' where n: "recv_frame (seg_hosts s ! i) f = Inr (r', ni')" "host_ok os (seg_sent s) (os ! i) ni'"
    "case r' of None \<Rightarrow> True | Some d' \<Rightarrow> \<exists>d. (snd (os ! i), d) \<in> set (seg_sent s) \<and> arrived d d'"
    by (rule receive_genuine [OF os i h(1)])
  then show ?case using segment_ok_set_host [OF receive.IH receive.hyps(2), of ni] receive.hyps(4)
    by (auto simp: segment_ok_def split: option.splits)
next
  case (wait s i ms)
  note h = segment_okD [OF wait.IH wait.hyps(2)]
  have inv: "interface_inv (seg_hosts s ! i)" using h by (simp add: host_ok_def)
  have "host_ok os (seg_sent s) (os ! i) (interface_tick (seg_hosts s ! i) ms)"
    using h tick_refines [OF inv wait.hyps(3)] genuine_tick by (simp add: host_ok_def)
  then show ?case by (rule segment_ok_set_host [OF wait.IH wait.hyps(2)])
qed

end
