(* ===== verification/Segment_Properties.thy ===== *)
theory Segment_Properties
  imports Ethernet_Segment
begin

text \<open>
  What the hosts of an Ethernet segment can rely on, in every state the segment can reach and
  under every loss, repetition and reordering of frames.
\<close>

section \<open>An exchange between two hosts\<close>

lemma last_frame: "ac_frames (interface_abs ni) = fs @ [f] \<Longrightarrow> last (ni_frames ni) = f"
  by (simp add: interface_abs_def)

lemma send_unknown:
  assumes "host_ok os sent x a" and "ip_ver (dg_header d) = 4"
    and "ac_learned (interface_abs a) ip = None" and "ac_requested (interface_abs a) ip = None"
  obtains a1 where "send_datagram a d (ipv4_address ip) = Inr a1" "interface_inv a1"
    "ni_ethernet_address a1 = fst x" "ni_ipv4 a1 = snd x" "last (ni_frames a1) = request_frame (fst x) (snd x) ip"
    "ac_learned (interface_abs a1) ip = None" "last (ac_pending (interface_abs a1) ip) = d" "ac_pending (interface_abs a1) ip \<noteq> []"
proof -
  have own: "interface_inv a" "ni_ethernet_address a = fst x" "ni_ipv4 a = snd x" using assms(1) by (simp_all add: host_ok_def)
  obtain a1 where a1: "send_datagram a d (ipv4_address ip) = Inr a1" "interface_inv a1"
    "interface_abs a1 = cache_send (fst x) (snd x) (interface_abs a) d ip"
    using send_refines [OF own(1) assms(2), of ip] own(2,3) by metis
  have abs: "interface_abs a1 = (interface_abs a)\<lparr>ac_frames := ac_frames (interface_abs a) @ [request_frame (fst x) (snd x) ip],
      ac_requested := (ac_requested (interface_abs a))(ip := Some (ac_now (interface_abs a))),
      ac_pending := (ac_pending (interface_abs a))(ip := ac_pending (interface_abs a) ip @ [d])\<rparr>"
    using assms(3,4) by (simp add: a1(3) cache_send_def)
  have "last (ni_frames a1) = request_frame (fst x) (snd x) ip" by (rule last_frame) (simp add: abs)
  then show thesis using a1(1,2) send_own [OF a1(1)] own assms(3) by (intro that [of a1]) (simp_all add: abs)
qed

lemma receive_arp_message:
  assumes "interface_inv ni" and "for_me ni f" and "eh_type (ef_header f) = TYPE_ARP" and "ef_payload f = [arp_bytes m]"
    and "arp_supported m" and "arp_shape m" and "arp_target_ip_address m = ni_ipv4 ni"
  obtains ni' where "recv_frame ni f = Inr (None, ni')" "interface_inv ni'"
    "ni_ethernet_address ni' = ni_ethernet_address ni" "ni_ipv4 ni' = ni_ipv4 ni"
    "interface_abs ni' = cache_answer (ni_ethernet_address ni) (ni_ipv4 ni)
       (cache_learn (ni_ethernet_address ni) (interface_abs ni) (arp_sender_ip_address m) (arp_sender_ethernet_address m)) m"
proof -
  have "parse arp_parse ARPMessage (ef_payload f) = Inr (m, True)"
    using assms(4-6) by (simp add: arp_decoded default_shape)
  then obtain ni' where n: "recv_frame ni f = Inr (None, ni')" "interface_inv ni'"
    "interface_abs ni' = cache_receive_arp (ni_ethernet_address ni) (ni_ipv4 ni) (interface_abs ni) m"
    by (rule recv_arp_refines [OF assms(1-3)])
  then show thesis using recv_own [OF n(1)] assms(7) by (intro that [of ni']) (simp_all add: cache_receive_arp_def)
qed

lemma answers_request:
  assumes "host_ok os sent y b" and "length mac = 6"
  obtains b1 where "recv_frame b (request_frame mac ip (snd y)) = Inr (None, b1)"
    "ni_ethernet_address b1 = fst y" "last (ni_frames b1) =
       unicast_frame mac (fst y) TYPE_ARP [arp_bytes (ARPMessage_reply OPCODE_REPLY (fst y) (snd y) mac ip)]"
proof -
  let ?m = "ARPMessage_request OPCODE_REQUEST mac ip (snd y)" and ?f = "request_frame mac ip (snd y)"
  have own: "interface_inv b" "ni_ethernet_address b = fst y" "ni_ipv4 b = snd y" using assms(1) by (simp_all add: host_ok_def)
  have f: "for_me b ?f" "eh_type (ef_header ?f) = TYPE_ARP" "ef_payload ?f = [arp_bytes ?m]"
    by (simp_all add: for_me_def request_frame_def broadcast_frame_def)
  have target: "arp_target_ip_address ?m = ni_ipv4 b" by (simp add: request_fields own(3))
  obtain b1 where b1: "recv_frame b ?f = Inr (None, b1)" "ni_ethernet_address b1 = ni_ethernet_address b"
    "interface_abs b1 = cache_answer (ni_ethernet_address b) (ni_ipv4 b)
       (cache_learn (ni_ethernet_address b) (interface_abs b) (arp_sender_ip_address ?m) (arp_sender_ethernet_address ?m)) ?m"
    by (rule receive_arp_message [OF own(1) f request_fields(1) request_fields(5) [OF assms(2)] target])
  have "arp_opcode ?m = OPCODE_REQUEST" by (simp add: ARPMessage_request_def ARPMessage_reply_def)
  then have "last (ni_frames b1) =
      unicast_frame mac (fst y) TYPE_ARP [arp_bytes (ARPMessage_reply OPCODE_REPLY (fst y) (snd y) mac ip)]"
    by (intro last_frame) (simp add: b1(3) cache_answer_def own request_fields)
  then show thesis using b1(1,2) own(2) by (intro that [of b1]) simp_all
qed

lemma reply_releases:
  assumes "interface_inv a" and "ni_ethernet_address a = mac" and "ni_ipv4 a = ip" and "length mac = 6" and "length mac' = 6"
    and "ac_learned (interface_abs a) ip' = None" and "ac_pending (interface_abs a) ip' \<noteq> []"
  obtains a2 where "recv_frame a (unicast_frame mac mac' TYPE_ARP [arp_bytes (ARPMessage_reply OPCODE_REPLY mac' ip' mac ip)]) = Inr (None, a2)"
    "last (ni_frames a2) = datagram_frame mac' mac (last (ac_pending (interface_abs a) ip'))"
proof -
  let ?m = "ARPMessage_reply OPCODE_REPLY mac' ip' mac ip"
  let ?f = "unicast_frame mac mac' TYPE_ARP [arp_bytes ?m]"
  have f: "for_me a ?f" "eh_type (ef_header ?f) = TYPE_ARP" "ef_payload ?f = [arp_bytes ?m]"
    using assms(2) by (simp_all add: for_me_def unicast_frame_def)
  have target: "arp_target_ip_address ?m = ni_ipv4 a" by (simp add: reply_fields assms(3))
  obtain a2 where a2: "recv_frame a ?f = Inr (None, a2)"
    "interface_abs a2 = cache_answer (ni_ethernet_address a) (ni_ipv4 a)
       (cache_learn (ni_ethernet_address a) (interface_abs a) (arp_sender_ip_address ?m) (arp_sender_ethernet_address ?m)) ?m"
    by (rule receive_arp_message [OF assms(1) f reply_fields(1) reply_fields(5) [OF assms(5,4)] target])
  have op: "arp_opcode ?m \<noteq> OPCODE_REQUEST" by (simp add: ARPMessage_reply_def OPCODE_REPLY_def OPCODE_REQUEST_def)
  let ?ds = "ac_pending (interface_abs a) ip'"
  have "map (datagram_frame mac' mac) ?ds = map (datagram_frame mac' mac) (butlast ?ds) @ [datagram_frame mac' mac (last ?ds)]"
    using assms(7) by (metis append_butlast_last_id map_append list.simps(8,9))
  then have "last (ni_frames a2) = datagram_frame mac' mac (last ?ds)"
    using op assms(6) by (intro last_frame) (simp add: a2(2) cache_answer_def cache_learn_def reply_fields assms(2))
  then show thesis by (rule that [OF a2(1)])
qed

section \<open>A run\<close>

text \<open>
  Two hosts that do not know each other: the first sends a datagram to the second, and the four
  frames cross the wire.
\<close>

definition two_hosts :: "owner list" where
  "two_hosts = [(replicate 6 1, 7), (replicate 6 2, 9)]"

lemma two_hosts_distinct: "distinct_owners two_hosts"
  by (simp add: two_hosts_def distinct_owners_def ETHERNET_BROADCAST_def replicate_numeral_run)

lemma example_sendable: "sendable IPv4Datagram"
  by (simp add: sendable_def ipv4_shape_def IPv4Datagram_def IPv4Header_def)

abbreviation empty_cache :: arp_cache where
  "empty_cache \<equiv> \<lparr>ac_now = 0, ac_learned = (\<lambda>_. None), ac_requested = (\<lambda>_. None), ac_pending = (\<lambda>_. []), ac_frames = []\<rparr>"

lemma transmit_only:
  assumes "interface_inv ni" and "ac_frames (interface_abs ni) = [f]"
  obtains ni' where "interface_maybe_send ni = (Some f, ni')" "interface_inv ni'"
    "interface_abs ni' = (interface_abs ni)\<lparr>ac_frames := []\<rparr>"
    "ni_ethernet_address ni' = ni_ethernet_address ni" "ni_ipv4 ni' = ni_ipv4 ni"
proof -
  have "ni_frames ni = [f]" using assms(2) by (simp add: interface_abs_def)
  then have m: "interface_maybe_send ni = (Some f, ni\<lparr>ni_frames := []\<rparr>)" by (simp add: interface_maybe_send_def)
  then show thesis using maybe_send_refines [OF assms(1) m] assms(2) by (intro that [OF m]) simp_all
qed

lemma example_run:
  obtains s d' where "on_segment two_hosts s" "seg_delivered s = [(1, d')]"
    "ac_learned (interface_abs (seg_hosts s ! 1)) 7 = Some (replicate 6 1, 0)" "seg_wire s \<noteq> []"
proof -
  let ?x = "replicate 6 1 :: ethernet_address" and ?y = "replicate 6 2 :: ethernet_address" and ?d = IPv4Datagram
  obtain a b where a: "NetworkInterface ?x (ipv4_address 7) = Inr a" and b: "NetworkInterface ?y (ipv4_address 9) = Inr b"
    by (simp add: construct_eq)
  note ca = construct_inv [OF a] and cb = construct_inv [OF b]
  have ver: "ip_ver (dg_header ?d) = 4" by (simp add: IPv4Datagram_def IPv4Header_def)
  have start: "on_segment two_hosts \<lparr>seg_hosts = [a, b], seg_wire = [], seg_sent = [], seg_delivered = []\<rparr>"
    by (rule on_segment.start) (use a b in \<open>auto simp: two_hosts_def less_Suc_eq\<close>)
  obtain a1 where a1: "send_datagram a ?d (ipv4_address 9) = Inr a1" "interface_inv a1"
    "interface_abs a1 = cache_send ?x 7 empty_cache ?d 9"
    using send_refines [OF ca(1) ver, of 9] ca(2-4) by metis
  note own1 = send_own [OF a1(1)]
  let ?req = "request_frame ?x 7 9"
  have "ac_frames (interface_abs a1) = [?req]" by (simp add: a1(3) cache_send_def)
  then obtain a2 where a2: "interface_maybe_send a1 = (Some ?req, a2)" "interface_inv a2"
    "interface_abs a2 = (interface_abs a1)\<lparr>ac_frames := []\<rparr>" "ni_ethernet_address a2 = ?x" "ni_ipv4 a2 = 7"
    using own1 ca(2,3) by (metis transmit_only [OF a1(2)])
  let ?m = "ARPMessage_request OPCODE_REQUEST ?x 7 9"
  obtain b1 where b1: "recv_frame b ?req = Inr (None, b1)" "interface_inv b1" "ni_ethernet_address b1 = ?y" "ni_ipv4 b1 = 9"
    "interface_abs b1 = cache_answer ?y 9 (cache_learn ?y empty_cache 7 ?x) ?m"
    by (rule receive_arp_message [OF cb(1), of ?req ?m])
      (use cb(2-4) in \<open>simp_all add: for_me_def request_frame_def broadcast_frame_def request_fields\<close>)
  let ?rep = "unicast_frame ?x ?y TYPE_ARP [arp_bytes (ARPMessage_reply OPCODE_REPLY ?y 9 ?x 7)]"
  have op: "arp_opcode ?m = OPCODE_REQUEST" by (simp add: ARPMessage_request_def ARPMessage_reply_def)
  then have fb: "ac_frames (interface_abs b1) = [?rep]" "ac_learned (interface_abs b1) 7 = Some (?x, 0)"
    by (simp_all add: b1(5) cache_answer_def cache_learn_def request_fields)
  obtain b2 where b2: "interface_maybe_send b1 = (Some ?rep, b2)" "interface_inv b2"
    "interface_abs b2 = (interface_abs b1)\<lparr>ac_frames := []\<rparr>" "ni_ethernet_address b2 = ?y"
    using b1(3,4) by (metis transmit_only [OF b1(2) fb(1)])
  let ?n = "ARPMessage_reply OPCODE_REPLY ?y 9 ?x 7" and ?frame = "datagram_frame ?y ?x ?d"
  obtain a3 where a3: "recv_frame a2 ?rep = Inr (None, a3)" "interface_inv a3"
    "interface_abs a3 = cache_answer ?x 7 (cache_learn ?x (interface_abs a2) 9 ?y) ?n"
    by (rule receive_arp_message [OF a2(2), of ?rep ?n])
      (use a2(4,5) in \<open>simp_all add: for_me_def unicast_frame_def reply_fields\<close>)
  have "arp_opcode ?n \<noteq> OPCODE_REQUEST" by (simp add: ARPMessage_reply_def OPCODE_REPLY_def OPCODE_REQUEST_def)
  then have "ac_frames (interface_abs a3) = [?frame]"
    by (simp add: a3(3) cache_answer_def cache_learn_def a2(3) a1(3) cache_send_def)
  then obtain a4 where a4: "interface_maybe_send a3 = (Some ?frame, a4)"
    by (metis transmit_only [OF a3(2)])
  have "for_me b2 ?frame" using b2(4) by (simp add: for_me_def datagram_frame_def unicast_frame_def)
  then obtain d' where d': "recv_frame b2 ?frame = Inr (Some d', b2)"
    by (rule receive_datagram_frame [OF _ example_sendable])
  let ?s = "\<lambda>x y w v. \<lparr>seg_hosts = [x, y], seg_wire = w, seg_sent = [(9, ?d)], seg_delivered = v\<rparr>"
  have n: "0 < length two_hosts" "1 < length two_hosts" by (simp_all add: two_hosts_def)
  have "on_segment two_hosts (?s a1 b [] [])"
    using on_segment.send [OF start n(1) example_sendable, of 9 a1] a1(1) by simp
  then have "on_segment two_hosts (?s a2 b [?req] [])"
    using on_segment.transmit [OF _ n(1), of "?s a1 b [] []" ?req a2] a2(1) by simp
  then have "on_segment two_hosts (?s a2 b1 [?req] [])"
    using on_segment.receive [OF _ n(2), of "?s a2 b [?req] []" ?req None b1] b1(1) by simp
  then have "on_segment two_hosts (?s a2 b2 [?req, ?rep] [])"
    using on_segment.transmit [OF _ n(2), of "?s a2 b1 [?req] []" ?rep b2] b2(1) by simp
  then have "on_segment two_hosts (?s a3 b2 [?req, ?rep] [])"
    using on_segment.receive [OF _ n(1), of "?s a2 b2 [?req, ?rep] []" ?rep None a3] a3(1) by simp
  then have "on_segment two_hosts (?s a4 b2 [?req, ?rep, ?frame] [])"
    using on_segment.transmit [OF _ n(1), of "?s a3 b2 [?req, ?rep] []" ?frame a4] a4(1) by simp
  then have "on_segment two_hosts (?s a4 b2 [?req, ?rep, ?frame] [(1, d')])"
    using on_segment.receive [OF _ n(2), of "?s a4 b2 [?req, ?rep, ?frame] []" ?frame "Some d'" b2] d' by simp
  then show thesis using fb(2) b2(3)
    by (intro that [of "?s a4 b2 [?req, ?rep, ?frame] [(1, d')]" d']) simp_all
qed

section \<open>Properties\<close>

text \<open>
  No operation on a segment fails. In every reachable state every host can send any IPv4
  datagram, and every frame on the wire can be received by every host, as often as it comes.
\<close>

theorem segment_never_fails:
  assumes "on_segment os s" and "distinct_owners os" and "i < length os"
  shows "(\<forall>d hop. ip_ver (dg_header d) = 4 \<longrightarrow> (\<exists>ni. send_datagram (seg_hosts s ! i) d (ipv4_address hop) = Inr ni))
    \<and> (\<forall>f \<in> set (seg_wire s). \<exists>r. recv_frame (seg_hosts s ! i) f = Inr r)"
proof -
  have ok: "segment_ok os s" by (rule on_segment_ok [OF assms(1,2)])
  note h = segment_okD(1) [OF ok assms(3)]
  have inv: "interface_inv (seg_hosts s ! i)" using h by (simp add: host_ok_def)
  have "\<exists>r. recv_frame (seg_hosts s ! i) f = Inr r" if "f \<in> set (seg_wire s)" for f
  proof -
    have "genuine os (seg_sent s) f" using ok that by (simp add: segment_ok_def)
    then show ?thesis using receive_genuine [OF assms(2) nth_mem [OF assms(3)] h] by metis
  qed
  moreover have "\<exists>ni. send_datagram (seg_hosts s ! i) d (ipv4_address hop) = Inr ni" if "ip_ver (dg_header d) = 4" for d hop
    using send_refines [OF inv that, of hop] by metis
  ultimately show ?thesis by blast
qed

theorem segment_never_fails_witness:
  "\<exists>s f r. on_segment two_hosts s \<and> f \<in> set (seg_wire s) \<and> recv_frame (seg_hosts s ! 1) f = Inr r"
proof -
  obtain s d' where s: "on_segment two_hosts s" "seg_wire s \<noteq> []" by (rule example_run)
  have "1 < length two_hosts" by (simp add: two_hosts_def)
  moreover have "hd (seg_wire s) \<in> set (seg_wire s)" using s(2) by simp
  ultimately show ?thesis using segment_never_fails [OF s(1) two_hosts_distinct] s(1) by blast
qed

text \<open>
  \<open>C12\<close>: hosts learn nothing but the truth: every Ethernet address that a host has learned for an
  IP address is that of the host that owns it.
\<close>

theorem hosts_learn_the_truth:
  assumes "on_segment os s" and "distinct_owners os" and "i < length os"
    and "ac_learned (interface_abs (seg_hosts s ! i)) ip = Some (mac, t)"
  shows "(mac, ip) \<in> set os"
  using segment_okD(1) [OF on_segment_ok [OF assms(1,2)] assms(3)] assms(4)
  by (simp add: host_ok_def cache_genuine_def)

theorem hosts_learn_the_truth_witness:
  "\<exists>s. on_segment two_hosts s \<and> ac_learned (interface_abs (seg_hosts s ! 1)) 7 = Some (replicate 6 1, 0)
     \<and> (replicate 6 1, 7) \<in> set two_hosts"
proof -
  obtain s d' where s: "on_segment two_hosts s" "ac_learned (interface_abs (seg_hosts s ! 1)) 7 = Some (replicate 6 1, 0)"
    by (rule example_run)
  have "1 < length two_hosts" by (simp add: two_hosts_def)
  then show ?thesis using hosts_learn_the_truth [OF s(1) two_hosts_distinct _ s(2)] s by blast
qed

text \<open>
  \<open>C13\<close>: a host hands up only what was sent to it: every datagram that \<open>recv_frame\<close> has returned
  was given to \<open>send_datagram\<close> by some host with the address of the receiving host as next hop,
  and arrives with its payload and its header unchanged but for the checksum.
\<close>

theorem deliveries_were_sent:
  assumes "on_segment os s" and "distinct_owners os" and "(j, d') \<in> set (seg_delivered s)"
  shows "\<exists>d. (snd (os ! j), d) \<in> set (seg_sent s) \<and> concat (dg_payload d') = concat (dg_payload d)
    \<and> dg_header d' = (dg_header d)\<lparr>ip_cksum := right_checksum (dg_header d)\<rparr>"
  using on_segment_ok [OF assms(1,2)] assms(3) by (fastforce simp: segment_ok_def arrived_def)

theorem deliveries_were_sent_witness:
  "\<exists>s d d'. on_segment two_hosts s \<and> seg_delivered s = [(1, d')] \<and> (9, d) \<in> set (seg_sent s)
     \<and> concat (dg_payload d') = concat (dg_payload d)"
proof -
  obtain s d' where s: "on_segment two_hosts s" "seg_delivered s = [(1, d')]" by (rule example_run)
  then have "(1, d') \<in> set (seg_delivered s)" by simp
  then obtain d where "(snd (two_hosts ! 1), d) \<in> set (seg_sent s)" "concat (dg_payload d') = concat (dg_payload d)"
    using deliveries_were_sent [OF s(1) two_hosts_distinct] by blast
  then show ?thesis using s by (auto simp: two_hosts_def)
qed

text \<open>
  \<open>C11\<close>: a datagram reaches its next hop, another host of the segment or the sender itself, the
  hosts having addresses of their own and the datagram no options, unless a request for the
  address is outstanding. When the sender knows the Ethernet address of the hop, the frame it
  queues delivers the datagram. When it does not and no request is outstanding, four steps do: the
  request that it queues, the reply that the hop queues on receiving it, and the frame that the
  sender queues on receiving the reply, which delivers the datagram. (While a request is outstanding
  the code drops the datagram: \<open>Interface_Properties.second_datagram_is_lost\<close>.)
\<close>

theorem datagram_reaches_peer:
  assumes "on_segment os s" and "distinct_owners os" and "i < length os" and "j < length os" and "sendable d"
    and "a = seg_hosts s ! i" and "b = seg_hosts s ! j" and "ip = snd (os ! j)"
  shows "(ac_learned (interface_abs a) ip \<noteq> None \<longrightarrow>
      (\<exists>a1 d'. send_datagram a d (ipv4_address ip) = Inr a1
        \<and> recv_frame b (last (ni_frames a1)) = Inr (Some d', b) \<and> arrived d d'))
    \<and> (ac_learned (interface_abs a) ip = None \<and> ac_requested (interface_abs a) ip = None \<longrightarrow>
      (\<exists>a1 b1 a2 d'. send_datagram a d (ipv4_address ip) = Inr a1
        \<and> recv_frame b (last (ni_frames a1)) = Inr (None, b1)
        \<and> recv_frame a1 (last (ni_frames b1)) = Inr (None, a2)
        \<and> recv_frame b1 (last (ni_frames a2)) = Inr (Some d', b1) \<and> arrived d d'))"
proof (intro conjI impI)
  let ?x = "os ! i" and ?y = "os ! j"
  have ok: "segment_ok os s" by (rule on_segment_ok [OF assms(1,2)])
  have x: "host_ok os (seg_sent s) ?x a" and y: "host_ok os (seg_sent s) ?y b"
    using segment_okD(1) [OF ok] assms by simp_all
  have len: "length (fst ?x) = 6" "length (fst ?y) = 6" using assms(2-4) by (simp_all add: distinct_owners_def)
  have ver: "ip_ver (dg_header d) = 4" using assms(5) by (simp add: sendable_def ipv4_shape_def)
  {
    assume "ac_learned (interface_abs a) ip \<noteq> None"
    then obtain mac t where l: "ac_learned (interface_abs a) ip = Some (mac, t)" by auto
    then have "(mac, ip) \<in> set os" using x by (simp add: host_ok_def cache_genuine_def)
    moreover have "(fst ?y, ip) \<in> set os" using assms(4,8) by (metis nth_mem prod.collapse)
    ultimately have mac: "mac = fst ?y"
      using assms(2) unfolding distinct_owners_def
      by (metis (mono_tags, lifting) distinct_map fst_conv inj_onD prod.collapse snd_conv)
    have own: "interface_inv a" "ni_ethernet_address a = fst ?x" "ni_ipv4 a = snd ?x" using x by (simp_all add: host_ok_def)
    obtain a1 where a1: "send_datagram a d (ipv4_address ip) = Inr a1"
      "interface_abs a1 = cache_send (fst ?x) (snd ?x) (interface_abs a) d ip"
      using send_refines [OF own(1) ver, of ip] own(2,3) by metis
    have "last (ni_frames a1) = datagram_frame mac (fst ?x) d"
      by (rule last_frame) (simp add: a1(2) cache_send_def l)
    moreover have "for_me b (datagram_frame mac (fst ?x) d)"
      using y by (simp add: for_me_def datagram_frame_def unicast_frame_def mac host_ok_def)
    then obtain d' where "recv_frame b (datagram_frame mac (fst ?x) d) = Inr (Some d', b)" "arrived d d'"
      by (rule receive_datagram_frame [OF _ assms(5)])
    ultimately show "\<exists>a1 d'. send_datagram a d (ipv4_address ip) = Inr a1
        \<and> recv_frame b (last (ni_frames a1)) = Inr (Some d', b) \<and> arrived d d'" using a1(1) by auto
  next
    assume "ac_learned (interface_abs a) ip = None \<and> ac_requested (interface_abs a) ip = None"
    then obtain a1 where a1: "send_datagram a d (ipv4_address ip) = Inr a1" "interface_inv a1"
      "ni_ethernet_address a1 = fst ?x" "ni_ipv4 a1 = snd ?x" "last (ni_frames a1) = request_frame (fst ?x) (snd ?x) ip"
      "ac_learned (interface_abs a1) ip = None" "last (ac_pending (interface_abs a1) ip) = d" "ac_pending (interface_abs a1) ip \<noteq> []"
      using send_unknown [OF x ver] by metis
    obtain b1 where b1: "recv_frame b (request_frame (fst ?x) (snd ?x) (snd ?y)) = Inr (None, b1)"
      "ni_ethernet_address b1 = fst ?y" "last (ni_frames b1) =
         unicast_frame (fst ?x) (fst ?y) TYPE_ARP [arp_bytes (ARPMessage_reply OPCODE_REPLY (fst ?y) (snd ?y) (fst ?x) (snd ?x))]"
      by (rule answers_request [OF y len(1)])
    obtain a2 where a2: "recv_frame a1 (last (ni_frames b1)) = Inr (None, a2)"
      "last (ni_frames a2) = datagram_frame (fst ?y) (fst ?x) d"
      using reply_releases [OF a1(2-4) len a1(6,8)] a1(7) b1(3) assms(8) by metis
    have "for_me b1 (datagram_frame (fst ?y) (fst ?x) d)"
      using b1(2) by (simp add: for_me_def datagram_frame_def unicast_frame_def)
    then obtain d' where "recv_frame b1 (datagram_frame (fst ?y) (fst ?x) d) = Inr (Some d', b1)" "arrived d d'"
      by (rule receive_datagram_frame [OF _ assms(5)])
    then show "\<exists>a1 b1 a2 d'. send_datagram a d (ipv4_address ip) = Inr a1
        \<and> recv_frame b (last (ni_frames a1)) = Inr (None, b1)
        \<and> recv_frame a1 (last (ni_frames b1)) = Inr (None, a2)
        \<and> recv_frame b1 (last (ni_frames a2)) = Inr (Some d', b1) \<and> arrived d d'"
      using a1(1,5) b1(1) a2 assms(8) by (intro exI [of _ a1] exI [of _ b1] exI [of _ a2] exI [of _ d']) simp
  }
qed

theorem datagram_reaches_peer_witness:
  "\<exists>a b a1 b1 a2 d'. NetworkInterface (replicate 6 1) (ipv4_address 7) = Inr a
     \<and> NetworkInterface (replicate 6 2) (ipv4_address 9) = Inr b
     \<and> send_datagram a IPv4Datagram (ipv4_address 9) = Inr a1
     \<and> recv_frame b (last (ni_frames a1)) = Inr (None, b1)
     \<and> recv_frame a1 (last (ni_frames b1)) = Inr (None, a2)
     \<and> recv_frame b1 (last (ni_frames a2)) = Inr (Some d', b1) \<and> arrived IPv4Datagram d'"
proof -
  obtain a b where a: "NetworkInterface (replicate 6 1) (ipv4_address 7) = Inr a"
    and b: "NetworkInterface (replicate 6 2) (ipv4_address 9) = Inr b"
    by (simp add: construct_eq)
  let ?s = "\<lparr>seg_hosts = [a, b], seg_wire = [], seg_sent = [], seg_delivered = []\<rparr>"
  have start: "on_segment two_hosts ?s"
    by (rule on_segment.start) (use a b in \<open>auto simp: two_hosts_def less_Suc_eq\<close>)
  have n: "0 < length two_hosts" "1 < length two_hosts" by (simp_all add: two_hosts_def)
  have "a = seg_hosts ?s ! 0" "b = seg_hosts ?s ! 1" "9 = snd (two_hosts ! 1)" by (simp_all add: two_hosts_def)
  from datagram_reaches_peer [OF start two_hosts_distinct n example_sendable this] show ?thesis
    using construct_inv(4) [OF a] a b by auto
qed

end
