(* ===== verification/Router.thy ===== *)
theory Router
  imports Network_Interface
begin

text \<open>
  \<open>src/src/router.hh\<close> and \<open>router.cc\<close>: the asynchronous network interface, which keeps what
  it receives in a queue, and the router, which forwards between such interfaces along the
  longest matching prefix.
\<close>

section \<open>AsyncNetworkInterface\<close>

record async_network_interface =
  an_interface :: network_interface
  an_datagrams_in :: "ipv4_datagram list"

text \<open>
  The implicit copy constructor copies the members one by one. The elements of a copied deque have
  new addresses, here positions after those of the original, while the pointers in the copied table
  still name the old ones: once the original is gone, reading through them is undefined.
\<close>

definition dq_copy :: "'n deque \<Rightarrow> 'n deque" where
  "dq_copy q = q\<lparr>dq_popped := dq_popped q + length (dq_items q)\<rparr>"

definition copy_interface :: "network_interface \<Rightarrow> network_interface" where
  "copy_interface ni = ni\<lparr>ni_mappings := dq_copy (ni_mappings ni), ni_requests := dq_copy (ni_requests ni)\<rparr>"

definition AsyncNetworkInterface :: "network_interface \<Rightarrow> async_network_interface" where
  "AsyncNetworkInterface interface = \<lparr>an_interface = copy_interface interface, an_datagrams_in = []\<rparr>"

definition async_recv_frame :: "async_network_interface \<Rightarrow> ethernet_frame \<Rightarrow> async_network_interface outcome" where
  "async_recv_frame a frame =
     andthen (recv_frame (an_interface a) frame) (\<lambda>(optional_dgram, ni).
     Inr (case optional_dgram of
            None \<Rightarrow> a\<lparr>an_interface := ni\<rparr>
          | Some d \<Rightarrow> a\<lparr>an_interface := ni, an_datagrams_in := an_datagrams_in a @ [d]\<rparr>))"

definition maybe_receive :: "async_network_interface \<Rightarrow> ipv4_datagram option \<times> async_network_interface" where
  "maybe_receive a =
     (case an_datagrams_in a of
        [] \<Rightarrow> (None, a)
      | d # ds \<Rightarrow> (Some d, a\<lparr>an_datagrams_in := ds\<rparr>))"

section \<open>Router\<close>

record route_entry =
  route_prefix :: "32 word"
  prefix_length :: "8 word"
  next_hop :: "address option"

text \<open>\<open>rt_capacity\<close> is the capacity of the vector of interfaces.\<close>

record router =
  rt_interfaces :: "async_network_interface list"
  rt_table :: "route_entry list list"
  rt_capacity :: nat

definition Router :: router where
  "Router = \<lparr>rt_interfaces = [], rt_table = [], rt_capacity = 0\<rparr>"

text \<open>
  \<open>push_back\<close> on a full vector doubles its capacity and, since the move constructor of a deque of
  the GNU library may throw, copies the elements to the new place and destroys the old ones. The
  new element is moved in, which leaves the elements of its deques where they are.
\<close>

definition push_interface :: "router \<Rightarrow> async_network_interface \<Rightarrow> router" where
  "push_interface r interface =
     (if length (rt_interfaces r) < rt_capacity r
      then r\<lparr>rt_interfaces := rt_interfaces r @ [interface]\<rparr>
      else r\<lparr>rt_interfaces := map (\<lambda>a. a\<lparr>an_interface := copy_interface (an_interface a)\<rparr>) (rt_interfaces r) @ [interface],
             rt_capacity := (if rt_capacity r = 0 then 1 else 2 * rt_capacity r)\<rparr>)"

definition add_interface :: "router \<Rightarrow> async_network_interface \<Rightarrow> nat \<times> router" where
  "add_interface r interface =
     (let r' = push_interface r interface
      in (length (rt_interfaces r') - 1, r'))"

definition router_interface :: "router \<Rightarrow> nat \<Rightarrow> async_network_interface outcome" where
  "router_interface r N =
     (if N < length (rt_interfaces r) then Inr (rt_interfaces r ! N) else Inl (Runtime_Error ''out_of_range''))"

definition add_route :: "router \<Rightarrow> 32 word \<Rightarrow> 8 word \<Rightarrow> address option \<Rightarrow> nat \<Rightarrow> router outcome" where
  "add_route r prefix len hop interface_num =
     (let table = vec_resize [] (rt_table r) (add64 interface_num 1)
      in andthen (vec_at table interface_num) (\<lambda>row.
         andthen (vec_put table interface_num
           (row @ [\<lparr>route_prefix = prefix, prefix_length = len, next_hop = hop\<rparr>])) (\<lambda>table.
         Inr (r\<lparr>rt_table := table\<rparr>))))"

text \<open>Shifting by a negative amount, for a length over 32, is undefined.\<close>

definition ipPrefixMatched :: "32 word \<Rightarrow> 32 word \<Rightarrow> 8 word \<Rightarrow> bool outcome" where
  "ipPrefixMatched dst_ip route_prefix_ip len =
     (if len = 0 then Inr True
      else andthen (check (unat len \<le> 32) Undefined) (\<lambda>_.
        let mask = push_bit (32 - unat len) 0xFFFFFFFF :: 32 word
        in Inr (dst_ip AND mask = route_prefix_ip AND mask)))"

text \<open>The best match so far: its length, the index of its interface and its next hop.\<close>

type_synonym best_match = "8 word \<times> nat \<times> address option"

definition SIZE_MAX :: nat where "SIZE_MAX = 2 ^ 64 - 1"

fun match_row :: "32 word \<Rightarrow> nat \<Rightarrow> route_entry list \<Rightarrow> best_match \<Rightarrow> best_match outcome" where
  "match_row dst_ipv4 j [] best = Inr best"
| "match_row dst_ipv4 j (e # es) (max_matched_len, max_matched_index, matched_next_hop) =
     andthen (ipPrefixMatched dst_ipv4 (route_prefix e) (prefix_length e)) (\<lambda>matched.
       if matched \<and> prefix_length e \<ge> max_matched_len
       then match_row dst_ipv4 j es (prefix_length e, j, next_hop e)
       else match_row dst_ipv4 j es (max_matched_len, max_matched_index, matched_next_hop))"

fun match_table :: "32 word \<Rightarrow> nat \<Rightarrow> route_entry list list \<Rightarrow> best_match \<Rightarrow> best_match outcome" where
  "match_table dst_ipv4 j [] best = Inr best"
| "match_table dst_ipv4 j (row # rows) best =
     andthen (match_row dst_ipv4 j row best) (\<lambda>best. match_table dst_ipv4 (j + 1) rows best)"

text \<open>One round of the loop of \<open>route\<close>, for the interface \<open>i\<close>.\<close>

definition route_interface :: "router \<Rightarrow> nat \<Rightarrow> router outcome" where
  "route_interface r i =
     andthen (vec_at (rt_interfaces r) i) (\<lambda>interface.
     let (datagram_opt, interface') = maybe_receive interface;
         r = r\<lparr>rt_interfaces := (rt_interfaces r)[i := interface']\<rparr>
     in case datagram_opt of
          None \<Rightarrow> Inr r
        | Some datagram \<Rightarrow>
            let header = dg_header datagram; dst_ipv4 = ip_dst header
            in andthen (match_table dst_ipv4 0 (rt_table r) (0, SIZE_MAX, None))
              (\<lambda>(max_matched_len, max_matched_index, matched_next_hop).
                if max_matched_index \<noteq> SIZE_MAX then
                  if ip_ttl header = 1 \<or> ip_ttl header = 0 then Inr r
                  else
                    let datagram' = datagram\<lparr>dg_header := header\<lparr>ip_ttl := ip_ttl header - 1\<rparr>\<rparr>
                    in andthen (vec_at (rt_interfaces r) max_matched_index) (\<lambda>matched_interface.
                       andthen (case matched_next_hop of Some hop \<Rightarrow> Inr hop | None \<Rightarrow> from_ipv4_numeric dst_ipv4) (\<lambda>hop.
                       andthen (send_datagram (an_interface matched_interface) datagram' hop) (\<lambda>ni.
                       Inr (r\<lparr>rt_interfaces := (rt_interfaces r)[max_matched_index := matched_interface\<lparr>an_interface := ni\<rparr>]\<rparr>))))
                else Inr r))"

fun route_all :: "nat list \<Rightarrow> router \<Rightarrow> router outcome" where
  "route_all [] r = Inr r"
| "route_all (i # is) r = andthen (route_interface r i) (\<lambda>r. route_all is r)"

definition route :: "router \<Rightarrow> router outcome" where
  "route r = route_all [0..<length (rt_interfaces r)] r"

end
