(* ===== verification/Longest_Match.thy ===== *)
theory Longest_Match
  imports Router
begin

text \<open>
  The router's search through its table, against a reference definition of longest prefix
  matching.
\<close>

section \<open>Matching a prefix\<close>

text \<open>An entry matches when the leading bits agree.\<close>

definition matches :: "32 word \<Rightarrow> route_entry \<Rightarrow> bool" where
  "matches dst e \<longleftrightarrow> drop_bit (32 - unat (prefix_length e)) dst = drop_bit (32 - unat (prefix_length e)) (route_prefix e)"

lemma and_mask_eq_iff:
  fixes a b :: "32 word"
  shows "a AND push_bit k 0xFFFFFFFF = b AND push_bit k 0xFFFFFFFF \<longleftrightarrow> drop_bit k a = drop_bit k b"
proof -
  have ones: "(0xFFFFFFFF :: 32 word) = - 1" by simp
  have mask: "bit (w AND push_bit k (- 1)) n \<longleftrightarrow> k \<le> n \<and> bit w n" for w :: "32 word" and n
    by (cases "n < 32") (auto simp: bit_simps dest: bit_imp_le_length)
  show ?thesis unfolding ones
  proof
    assume l: "a AND push_bit k (- 1) = b AND push_bit k (- 1)"
    have "bit a (k + n) \<longleftrightarrow> bit b (k + n)" for n using mask [of a "k + n"] mask [of b "k + n"] unfolding l by simp
    then show "drop_bit k a = drop_bit k b" by (intro bit_eqI) (simp add: bit_drop_bit_eq)
  next
    assume r: "drop_bit k a = drop_bit k b"
    have "bit a n \<longleftrightarrow> bit b n" if "k \<le> n" for n
      using arg_cong [OF r, of "\<lambda>w. bit w (n - k)"] that by (simp add: bit_drop_bit_eq)
    then show "a AND push_bit k (- 1) = b AND push_bit k (- 1)" by (intro bit_eqI) (simp only: mask, blast)
  qed
qed

lemma ipPrefixMatched_eq:
  assumes "unat (prefix_length e) \<le> 32"
  shows "ipPrefixMatched dst (route_prefix e) (prefix_length e) = Inr (matches dst e)"
proof (cases "prefix_length e = 0")
  case True
  have "drop_bit 32 w = 0" for w :: "32 word" by (rule bit_word_eqI) (simp add: bit_simps)
  then show ?thesis using True by (simp add: ipPrefixMatched_def matches_def)
next
  case False
  then show ?thesis using assms by (simp add: ipPrefixMatched_def matches_def Let_def and_mask_eq_iff)
qed

section \<open>The longest match\<close>

text \<open>
  The reference: of the entries that match, numbered by their interface, the last one of those
  with the greatest length.
\<close>

definition routes :: "nat \<Rightarrow> route_entry list list \<Rightarrow> (nat \<times> route_entry) list" where
  "routes j rows = concat (map (\<lambda>(i, row). map (Pair i) row) (enumerate j rows))"

definition longest :: "(nat \<times> route_entry) list \<Rightarrow> nat \<times> route_entry" where
  "longest ms = last (filter (\<lambda>x. \<forall>y \<in> set ms. prefix_length (snd y) \<le> prefix_length (snd x)) ms)"

definition longest_match :: "32 word \<Rightarrow> (nat \<times> route_entry) list \<Rightarrow> (nat \<times> route_entry) option" where
  "longest_match dst rs =
     (let ms = filter (\<lambda>x. matches dst (snd x)) rs in if ms = [] then None else Some (longest ms))"

lemma longest_in_filter:
  assumes "ms \<noteq> []"
  shows "filter (\<lambda>x. \<forall>y \<in> set ms. prefix_length (snd y) \<le> prefix_length (snd x)) ms \<noteq> []"
proof -
  let ?len = "\<lambda>x. prefix_length (snd x)"
  have "Max (?len ` set ms) \<in> ?len ` set ms" using assms by (intro Max_in) simp_all
  then obtain x where x: "x \<in> set ms" "Max (?len ` set ms) = ?len x" by (rule imageE) blast
  have "?len y \<le> ?len x" if "y \<in> set ms" for y unfolding x(2) [symmetric] by (rule Max_ge) (use that in simp_all)
  then show ?thesis using x(1) unfolding filter_empty_conv by blast
qed

lemma longest_mem:
  assumes "ms \<noteq> []"
  shows "longest ms \<in> set ms" "y \<in> set ms \<Longrightarrow> prefix_length (snd y) \<le> prefix_length (snd (longest ms))"
  using last_in_set [OF longest_in_filter [OF assms]] by (simp_all add: longest_def)

lemma longest_single: "longest [x] = x"
  by (simp add: longest_def)

lemma longest_snoc:
  assumes "ms \<noteq> []"
  shows "longest (ms @ [x]) = (if prefix_length (snd x) \<ge> prefix_length (snd (longest ms)) then x else longest ms)"
proof (cases "prefix_length (snd x) \<ge> prefix_length (snd (longest ms))")
  case True
  then have "\<forall>y \<in> set ms. prefix_length (snd y) \<le> prefix_length (snd x)"
    using longest_mem(2) [OF assms] by (meson order_trans)
  then show ?thesis using True by (simp add: longest_def)
next
  case False
  let ?ge = "\<lambda>ms z. \<forall>y \<in> set ms. prefix_length (snd y) \<le> prefix_length (snd z)"
  have lt: "prefix_length (snd x) < prefix_length (snd (longest ms))" using False by simp
  have "\<not> ?ge (ms @ [x]) x" using lt longest_mem(1) [OF assms] by (auto simp: not_le)
  moreover have "?ge (ms @ [x]) z = ?ge ms z" if "z \<in> set ms" for z
    using lt longest_mem(1) [OF assms] by auto
  then have "filter (?ge (ms @ [x])) ms = filter (?ge ms) ms" by (rule filter_cong [OF refl])
  ultimately have "filter (?ge (ms @ [x])) (ms @ [x]) = filter (?ge ms) ms" by (simp only: filter_append filter.simps if_False append_Nil2)
  then show ?thesis using False by (simp only: longest_def if_False)
qed

definition as_best :: "(nat \<times> route_entry) option \<Rightarrow> best_match" where
  "as_best m = (case m of None \<Rightarrow> (0, SIZE_MAX, None) | Some (j, e) \<Rightarrow> (prefix_length e, j, next_hop e))"

lemma longest_match_snoc:
  "longest_match dst (rs @ [x]) =
     (if matches dst (snd x) \<and> prefix_length (snd x) \<ge> fst (as_best (longest_match dst rs)) then Some x
      else longest_match dst rs)"
proof -
  let ?ms = "filter (\<lambda>x. matches dst (snd x)) rs"
  have f: "fst (as_best (Some y)) = prefix_length (snd y)" for y by (simp add: as_best_def split: prod.split)
  have n: "fst (as_best None) = 0" by (simp add: as_best_def)
  show ?thesis
    by (cases "?ms = []"; cases "matches dst (snd x)")
      (simp_all add: longest_match_def Let_def longest_single longest_snoc f n)
qed

lemma match_row_spec:
  assumes "\<forall>e \<in> set es. unat (prefix_length e) \<le> 32"
  shows "match_row dst j es (as_best (longest_match dst rs)) = Inr (as_best (longest_match dst (rs @ map (Pair j) es)))"
  using assms
proof (induction es arbitrary: rs)
  case Nil
  then show ?case by simp
next
  case (Cons e es)
  have m: "ipPrefixMatched dst (route_prefix e) (prefix_length e) = Inr (matches dst e)"
    using Cons.prems by (intro ipPrefixMatched_eq) simp
  have step: "match_row dst j (e # es) b = match_row dst j es
      (if matches dst e \<and> prefix_length e \<ge> fst b then (prefix_length e, j, next_hop e) else b)" for b
    by (cases b) (simp add: m)
  have "(if matches dst e \<and> prefix_length e \<ge> fst (as_best (longest_match dst rs)) then (prefix_length e, j, next_hop e)
      else as_best (longest_match dst rs)) = as_best (longest_match dst (rs @ [(j, e)]))"
    by (simp add: longest_match_snoc) (simp add: as_best_def)
  then have "match_row dst j (e # es) (as_best (longest_match dst rs))
      = match_row dst j es (as_best (longest_match dst (rs @ [(j, e)])))" by (simp only: step)
  then show ?case using Cons.IH [of "rs @ [(j, e)]"] Cons.prems by simp
qed

lemma match_table_spec:
  assumes "\<forall>row \<in> set rows. \<forall>e \<in> set row. unat (prefix_length e) \<le> 32"
  shows "match_table dst j rows (as_best (longest_match dst rs)) = Inr (as_best (longest_match dst (rs @ routes j rows)))"
  using assms
proof (induction rows arbitrary: j rs)
  case Nil
  then show ?case by (simp add: routes_def)
next
  case (Cons row rows)
  have "match_row dst j row (as_best (longest_match dst rs)) = Inr (as_best (longest_match dst (rs @ map (Pair j) row)))"
    using Cons.prems by (intro match_row_spec) simp
  then show ?case using Cons.IH [of "Suc j" "rs @ map (Pair j) row"] Cons.prems by (simp add: routes_def)
qed

lemma best_route_spec:
  assumes "\<forall>row \<in> set rows. \<forall>e \<in> set row. unat (prefix_length e) \<le> 32"
  shows "match_table dst 0 rows (0, SIZE_MAX, None) = Inr (as_best (longest_match dst (routes 0 rows)))"
  using match_table_spec [OF assms, of dst 0 "[]"] by (simp add: longest_match_def as_best_def)

lemma routes_mem: "(i, e) \<in> set (routes j rows) \<longleftrightarrow> j \<le> i \<and> i < j + length rows \<and> e \<in> set (rows ! (i - j))"
proof (induction rows arbitrary: j)
  case Nil
  then show ?case by (simp add: routes_def)
next
  case (Cons row rows)
  have "routes j (row # rows) = map (Pair j) row @ routes (Suc j) rows" by (simp add: routes_def)
  then have m: "(i, e) \<in> set (routes j (row # rows)) \<longleftrightarrow> (i = j \<and> e \<in> set row) \<or> (i, e) \<in> set (routes (Suc j) rows)" by auto
  show ?case unfolding m Cons.IH by (cases "i \<le> j") (auto simp: nth_Cons' Suc_diff_le)
qed

lemma longest_match_Some:
  assumes "longest_match dst (routes 0 rows) = Some (j, e)"
  shows "j < length rows" "e \<in> set (rows ! j)" "matches dst e"
    "\<And>i e'. i < length rows \<Longrightarrow> e' \<in> set (rows ! i) \<Longrightarrow> matches dst e' \<Longrightarrow> prefix_length e' \<le> prefix_length e"
proof -
  let ?ms = "filter (\<lambda>x. matches dst (snd x)) (routes 0 rows)"
  have ms: "?ms \<noteq> []" "longest ?ms = (j, e)" using assms by (auto simp: longest_match_def Let_def split: if_splits)
  have "(j, e) \<in> set ?ms" using longest_mem(1) [OF ms(1)] ms(2) by simp
  then show "j < length rows" "e \<in> set (rows ! j)" "matches dst e" by (auto simp: routes_mem)
  fix i e' assume "i < length rows" "e' \<in> set (rows ! i)" "matches dst e'"
  then have "(i, e') \<in> set ?ms" by (auto simp: routes_mem)
  then show "prefix_length e' \<le> prefix_length e" using longest_mem(2) [OF ms(1)] ms(2) by fastforce
qed

lemma longest_match_None:
  "longest_match dst (routes 0 rows) = None \<longleftrightarrow> (\<forall>i < length rows. \<forall>e \<in> set (rows ! i). \<not> matches dst e)"
proof -
  have "longest_match dst (routes 0 rows) = None \<longleftrightarrow> (\<forall>x \<in> set (routes 0 rows). \<not> matches dst (snd x))"
    by (simp add: longest_match_def Let_def filter_empty_conv)
  also have "\<dots> \<longleftrightarrow> (\<forall>i < length rows. \<forall>e \<in> set (rows ! i). \<not> matches dst e)"
    using routes_mem [of _ _ 0 rows] by fastforce
  finally show ?thesis .
qed

end
