(* ===== verification/Router_Properties.thy ===== *)
theory Router_Properties
  imports Longest_Match Interface_Properties
begin

text \<open>
  One round of the router's loop against the abstract ARP caches of its interfaces, the states
  a router can reach, and the properties of the router.
\<close>

section \<open>What a router relies on\<close>

definition hop_ok :: "address option \<Rightarrow> bool" where
  "hop_ok hop \<longleftrightarrow> (case hop of None \<Rightarrow> True | Some a \<Rightarrow> \<exists>ip. ipv4_numeric a = Inr ip)"

definition async_ok :: "async_network_interface \<Rightarrow> bool" where
  "async_ok a \<longleftrightarrow> interface_inv (an_interface a) \<and> (\<forall>d \<in> set (an_datagrams_in a). ip_ver (dg_header d) = 4)"

definition table_ok :: "route_entry list list \<Rightarrow> bool" where
  "table_ok t \<longleftrightarrow> (\<forall>row \<in> set t. \<forall>e \<in> set row. unat (prefix_length e) \<le> 32 \<and> hop_ok (next_hop e))"

definition router_ok :: "router \<Rightarrow> bool" where
  "router_ok r \<longleftrightarrow> (\<forall>a \<in> set (rt_interfaces r). async_ok a) \<and> table_ok (rt_table r)
     \<and> length (rt_table r) \<le> length (rt_interfaces r) \<and> length (rt_interfaces r) < SIZE_MAX"

text \<open>The address a datagram for \<open>dst\<close> is sent to along an entry.\<close>

definition hop_of :: "route_entry \<Rightarrow> 32 word \<Rightarrow> 32 word" where
  "hop_of e dst = (case next_hop e of None \<Rightarrow> dst | Some a \<Rightarrow> (case ipv4_numeric a of Inr ip \<Rightarrow> ip | Inl _ \<Rightarrow> dst))"

definition decrement_ttl :: "ipv4_datagram \<Rightarrow> ipv4_datagram" where
  "decrement_ttl d = d\<lparr>dg_header := (dg_header d)\<lparr>ip_ttl := ip_ttl (dg_header d) - 1\<rparr>\<rparr>"

text \<open>
  The specification of forwarding one datagram, on the list of interfaces: their own addresses
  and their abstract caches.
\<close>

type_synonym port = "ethernet_address \<times> 32 word \<times> arp_cache"

definition port_of :: "async_network_interface \<Rightarrow> port" where
  "port_of a = (ni_ethernet_address (an_interface a), ni_ipv4 (an_interface a), interface_abs (an_interface a))"

definition port_send :: "port \<Rightarrow> ipv4_datagram \<Rightarrow> 32 word \<Rightarrow> port" where
  "port_send p d ip = (case p of (eth, own, c) \<Rightarrow> (eth, own, cache_send eth own c d ip))"

definition forward :: "route_entry list list \<Rightarrow> ipv4_datagram \<Rightarrow> port list \<Rightarrow> port list" where
  "forward table d ports =
     (case longest_match (ip_dst (dg_header d)) (routes 0 table) of
        None \<Rightarrow> ports
      | Some (j, e) \<Rightarrow>
          if unat (ip_ttl (dg_header d)) \<le> 1 then ports
          else ports[j := port_send (ports ! j) (decrement_ttl d) (hop_of e (ip_dst (dg_header d)))])"

section \<open>One round\<close>

lemma send_by_number:
  "ipv4_numeric a = Inr ip \<Longrightarrow> send_datagram ni d a = send_datagram ni d (ipv4_address ip)"
  by (simp add: send_datagram_def ipv4_numeric_address)

lemma ttl_small: "(t = 1 \<or> t = 0) \<longleftrightarrow> unat t \<le> 1" for t :: "8 word"
proof
  assume "unat t \<le> 1"
  then have "unat t = 0 \<or> unat t = unat (1 :: 8 word)" by auto
  then show "t = 1 \<or> t = 0" by (metis unsigned_word_eqI unsigned_0)
qed auto

lemma index_not_sentinel: "router_ok r \<Longrightarrow> j < length (rt_table r) \<Longrightarrow> j \<noteq> SIZE_MAX \<and> j < length (rt_interfaces r)"
  by (auto simp: router_ok_def)

lemma list_update_async:
  assumes "\<forall>a \<in> set xs. async_ok a" "async_ok a"
  shows "\<forall>a \<in> set (xs[i := a]). async_ok a"
  using assms set_update_subset_insert [of xs i a] by auto

lemma map_update_same: "j < length xs \<Longrightarrow> f y = f (xs ! j) \<Longrightarrow> map f (xs[j := y]) = map f xs"
  by (simp add: map_update) (metis list_update_id nth_map)

lemma route_interface_spec:
  assumes ok: "router_ok r" and i: "i < length (rt_interfaces r)"
  obtains r' where "route_interface r i = Inr r'" "router_ok r'" "rt_table r' = rt_table r"
    "map an_datagrams_in (rt_interfaces r') = (map an_datagrams_in (rt_interfaces r))[i := tl (an_datagrams_in (rt_interfaces r ! i))]"
    "map port_of (rt_interfaces r') =
       (case an_datagrams_in (rt_interfaces r ! i) of [] \<Rightarrow> map port_of (rt_interfaces r)
        | d # _ \<Rightarrow> forward (rt_table r) d (map port_of (rt_interfaces r)))"
proof (cases "an_datagrams_in (rt_interfaces r ! i)")
  case Nil
  have "(map an_datagrams_in (rt_interfaces r))[i := tl (an_datagrams_in (rt_interfaces r ! i))] = map an_datagrams_in (rt_interfaces r)"
    using i Nil by (metis list.sel(2) list_update_id nth_map)
  then show thesis using i ok Nil
    by (intro that [of r]) (simp_all add: route_interface_def maybe_receive_def)
next
  case (Cons d ds)
  let ?itf = "(rt_interfaces r ! i)\<lparr>an_datagrams_in := ds\<rparr>"
  let ?is = "(rt_interfaces r)[i := ?itf]"
  let ?r = "r\<lparr>rt_interfaces := ?is\<rparr>"
  let ?dst = "ip_dst (dg_header d)"
  let ?m = "longest_match ?dst (routes 0 (rt_table r))"
  have aok: "async_ok (rt_interfaces r ! i)" using ok i by (simp add: router_ok_def)
  then have itf: "async_ok ?itf" and ver: "ip_ver (dg_header d) = 4" using Cons by (simp_all add: async_ok_def)
  have rok: "router_ok ?r" using ok itf list_update_async [of "rt_interfaces r" ?itf i] by (simp add: router_ok_def)
  have "\<forall>row \<in> set (rt_table r). \<forall>e \<in> set row. unat (prefix_length e) \<le> 32" using ok by (simp add: router_ok_def table_ok_def)
  note search = best_route_spec [OF this, of ?dst]
  have port_itf: "port_of ?itf = port_of (rt_interfaces r ! i)" by (simp add: port_of_def)
  have ports: "map port_of ?is = map port_of (rt_interfaces r)"
    by (rule map_update_same [OF i port_itf])
  have ins: "map an_datagrams_in ?is = (map an_datagrams_in (rt_interfaces r))[i := tl (an_datagrams_in (rt_interfaces r ! i))]"
    using Cons by (simp add: map_update)
  show thesis
  proof (cases ?m)
    case None
    then have "route_interface r i = Inr ?r"
      using i Cons search by (simp add: route_interface_def maybe_receive_def Let_def as_best_def)
    then show thesis using rok ports ins None Cons by (intro that [of ?r]) (simp_all add: forward_def)
  next
    case (Some je)
    obtain j e where je: "je = (j, e)" by (cases je)
    note m = longest_match_Some [OF Some [unfolded je]]
    have idx: "j \<noteq> SIZE_MAX" "j < length (rt_interfaces r)" using index_not_sentinel [OF ok m(1)] by simp_all
    show thesis
    proof (cases "unat (ip_ttl (dg_header d)) \<le> 1")
      case True
      then have "ip_ttl (dg_header d) = 1 \<or> ip_ttl (dg_header d) = 0" by (simp only: ttl_small)
      then have "route_interface r i = Inr ?r"
        using i Cons search Some je idx by (auto simp: route_interface_def maybe_receive_def Let_def as_best_def)
      then show thesis using rok ports ins Some je True Cons by (intro that [of ?r]) (simp_all add: forward_def)
    next
      case False
      then have ttl: "\<not> (ip_ttl (dg_header d) = 1 \<or> ip_ttl (dg_header d) = 0)" by (simp only: ttl_small not_False_eq_True)
      let ?d = "decrement_ttl d" and ?a = "?is ! j"
      have "hop_ok (next_hop e)" using ok m(1,2) by (auto simp: router_ok_def table_ok_def dest: nth_mem)
      then obtain hop where hop: "(case next_hop e of Some hop \<Rightarrow> Inr hop | None \<Rightarrow> from_ipv4_numeric ?dst) = Inr hop"
        "ipv4_numeric hop = Inr (hop_of e ?dst)"
        by (cases "next_hop e") (auto simp: hop_ok_def hop_of_def from_ipv4_numeric_eq ipv4_numeric_address)
      have a: "async_ok ?a" using rok idx(2) by (simp add: router_ok_def)
      then obtain ni where ni: "send_datagram (an_interface ?a) ?d (ipv4_address (hop_of e ?dst)) = Inr ni" "interface_inv ni"
        "interface_abs ni = cache_send (ni_ethernet_address (an_interface ?a)) (ni_ipv4 (an_interface ?a))
           (interface_abs (an_interface ?a)) ?d (hop_of e ?dst)"
        using send_refines [of "an_interface ?a" ?d "hop_of e ?dst"] ver by (auto simp: async_ok_def decrement_ttl_def)
      let ?r' = "?r\<lparr>rt_interfaces := ?is[j := ?a\<lparr>an_interface := ni\<rparr>]\<rparr>"
      have run: "route_interface r i = Inr ?r'"
        using i Cons search Some je idx ttl hop ni(1) send_by_number [OF hop(2)]
        by (simp add: route_interface_def maybe_receive_def Let_def as_best_def decrement_ttl_def)
      have "async_ok (?a\<lparr>an_interface := ni\<rparr>)" using a ni(2) by (simp add: async_ok_def)
      then have rok': "router_ok ?r'" using rok list_update_async [of ?is "?a\<lparr>an_interface := ni\<rparr>" j] by (simp add: router_ok_def)
      have "port_of (?a\<lparr>an_interface := ni\<rparr>) = port_send (port_of ?a) ?d (hop_of e ?dst)"
        using ni(3) send_own [OF ni(1)] by (simp add: port_of_def port_send_def)
      then have "map port_of (rt_interfaces ?r') = (map port_of ?is)[j := port_send (port_of ?a) ?d (hop_of e ?dst)]"
        by (simp add: map_update)
      also have "port_of ?a = map port_of ?is ! j" using idx(2) by simp
      finally have p: "map port_of (rt_interfaces ?r') = forward (rt_table r) d (map port_of (rt_interfaces r))"
        using Some je False by (simp only: ports forward_def) simp
      have "map an_datagrams_in (rt_interfaces ?r') = map an_datagrams_in ?is"
        using map_update_same [of j ?is an_datagrams_in "?a\<lparr>an_interface := ni\<rparr>"] idx(2) by simp
      then show thesis using run rok' p ins Cons by (intro that [of ?r']) simp_all
    qed
  qed
qed

section \<open>A whole pass\<close>

definition forward_first :: "route_entry list list \<Rightarrow> ipv4_datagram list \<Rightarrow> port list \<Rightarrow> port list" where
  "forward_first table ds ports = (case ds of [] \<Rightarrow> ports | d # _ \<Rightarrow> forward table d ports)"

lemma route_all_spec:
  assumes "router_ok r" "distinct is" "\<forall>i \<in> set is. i < length (rt_interfaces r)"
  obtains r' where "route_all is r = Inr r'" "router_ok r'" "rt_table r' = rt_table r"
    "length (rt_interfaces r') = length (rt_interfaces r)"
    "\<forall>i < length (rt_interfaces r). an_datagrams_in (rt_interfaces r' ! i) =
       (if i \<in> set is then tl (an_datagrams_in (rt_interfaces r ! i)) else an_datagrams_in (rt_interfaces r ! i))"
    "map port_of (rt_interfaces r') =
       fold (\<lambda>i. forward_first (rt_table r) (an_datagrams_in (rt_interfaces r ! i))) is (map port_of (rt_interfaces r))"
  using assms
proof (induction "is" arbitrary: r thesis)
  case Nil
  then show ?case by simp
next
  case (Cons i "is")
  have i: "i < length (rt_interfaces r)" using Cons.prems(4) by simp
  obtain r1 where r1: "route_interface r i = Inr r1" "router_ok r1" "rt_table r1 = rt_table r"
    "map an_datagrams_in (rt_interfaces r1) = (map an_datagrams_in (rt_interfaces r))[i := tl (an_datagrams_in (rt_interfaces r ! i))]"
    "map port_of (rt_interfaces r1) = (case an_datagrams_in (rt_interfaces r ! i) of [] \<Rightarrow> map port_of (rt_interfaces r)
        | d # _ \<Rightarrow> forward (rt_table r) d (map port_of (rt_interfaces r)))"
    by (rule route_interface_spec [OF Cons.prems(2) i])
  have len: "length (rt_interfaces r1) = length (rt_interfaces r)" using arg_cong [OF r1(4), of length] by simp
  have ins: "an_datagrams_in (rt_interfaces r1 ! k) =
      (if k = i then tl (an_datagrams_in (rt_interfaces r ! i)) else an_datagrams_in (rt_interfaces r ! k))"
    if "k < length (rt_interfaces r)" for k
    using arg_cong [OF r1(4), of "\<lambda>xs. xs ! k"] that i by (auto simp: len nth_list_update)
  have ports: "map port_of (rt_interfaces r1) = forward_first (rt_table r) (an_datagrams_in (rt_interfaces r ! i)) (map port_of (rt_interfaces r))"
    unfolding r1(5) forward_first_def ..
  have d: "distinct is" "\<forall>i \<in> set is. i < length (rt_interfaces r1)" using Cons.prems(3,4) len by simp_all
  obtain r2 where r2: "route_all is r1 = Inr r2" "router_ok r2" "rt_table r2 = rt_table r1"
    "length (rt_interfaces r2) = length (rt_interfaces r1)"
    "\<forall>i < length (rt_interfaces r1). an_datagrams_in (rt_interfaces r2 ! i) =
       (if i \<in> set is then tl (an_datagrams_in (rt_interfaces r1 ! i)) else an_datagrams_in (rt_interfaces r1 ! i))"
    "map port_of (rt_interfaces r2) =
       fold (\<lambda>i. forward_first (rt_table r1) (an_datagrams_in (rt_interfaces r1 ! i))) is (map port_of (rt_interfaces r1))"
    by (rule Cons.IH [OF _ r1(2) d])
  have f: "fold (\<lambda>k. forward_first (rt_table r) (an_datagrams_in (rt_interfaces r1 ! k))) is p
      = fold (\<lambda>k. forward_first (rt_table r) (an_datagrams_in (rt_interfaces r ! k))) is p" for p
    using Cons.prems(3) d(2) by (intro fold_cong refl) (auto simp: ins len)
  have "an_datagrams_in (rt_interfaces r2 ! k) =
       (if k \<in> set (i # is) then tl (an_datagrams_in (rt_interfaces r ! k)) else an_datagrams_in (rt_interfaces r ! k))"
    if "k < length (rt_interfaces r)" for k
    using r2(5) that ins [OF that] Cons.prems(3) by (auto simp: len)
  then show ?case using r1(1,3) r2 len ports f by (intro Cons.prems(1) [of r2]) (simp_all add: r1(3))
qed

lemma fold_nth: "fold (\<lambda>i. f (xs ! i)) [0..<length xs] a = fold f xs a"
proof -
  have "fold f (map ((!) xs) [0..<length xs]) a = fold (f \<circ> (!) xs) [0..<length xs] a" by (simp only: fold_map)
  then show ?thesis by (simp add: map_nth comp_def)
qed

lemma route_spec:
  assumes "router_ok r"
  obtains r' where "route r = Inr r'" "router_ok r'" "rt_table r' = rt_table r"
    "map an_datagrams_in (rt_interfaces r') = map tl (map an_datagrams_in (rt_interfaces r))"
    "map port_of (rt_interfaces r') = fold (forward_first (rt_table r)) (map an_datagrams_in (rt_interfaces r)) (map port_of (rt_interfaces r))"
proof -
  let ?n = "length (rt_interfaces r)"
  obtain r' where r': "route_all [0..<?n] r = Inr r'" "router_ok r'" "rt_table r' = rt_table r" "length (rt_interfaces r') = ?n"
    "\<forall>i < ?n. an_datagrams_in (rt_interfaces r' ! i) =
       (if i \<in> set [0..<?n] then tl (an_datagrams_in (rt_interfaces r ! i)) else an_datagrams_in (rt_interfaces r ! i))"
    "map port_of (rt_interfaces r') = fold (\<lambda>i. forward_first (rt_table r) (an_datagrams_in (rt_interfaces r ! i))) [0..<?n] (map port_of (rt_interfaces r))"
    by (rule route_all_spec [OF assms, of "[0..<?n]"]) auto
  have "map an_datagrams_in (rt_interfaces r') = map tl (map an_datagrams_in (rt_interfaces r))"
    by (rule nth_equalityI) (use r'(4,5) in simp_all)
  moreover have "fold (\<lambda>i. forward_first (rt_table r) (an_datagrams_in (rt_interfaces r ! i))) [0..<?n] p
      = fold (forward_first (rt_table r)) (map an_datagrams_in (rt_interfaces r)) p" for p
    using fold_nth [of "forward_first (rt_table r) \<circ> an_datagrams_in" "rt_interfaces r" p]
    by (simp add: fold_map comp_def)
  ultimately show thesis using r' by (intro that [of r']) (simp_all add: route_def)
qed

section \<open>Reachable routers\<close>

text \<open>An interface with nothing in its timeout queues, so that no pointer leads into them.\<close>

definition quiet :: "network_interface \<Rightarrow> bool" where
  "quiet ni \<longleftrightarrow> dq_items (ni_mappings ni) = [] \<and> dq_items (ni_requests ni) = []"

lemma copy_quiet: "quiet ni \<Longrightarrow> copy_interface ni = ni"
  by (simp add: quiet_def copy_interface_def dq_copy_def)

lemma construct_quiet: "NetworkInterface eth (ipv4_address ip) = Inr ni \<Longrightarrow> quiet ni"
  by (auto simp: construct_eq quiet_def dq_new_def)

text \<open>
  Interfaces are added where the vector has room for them, or where those before them are quiet;
  theory \<open>Router_Growth\<close> shows what happens otherwise.
\<close>

inductive routing :: "router \<Rightarrow> bool" where
  construct: "routing Router"
| interface: "routing r \<Longrightarrow> NetworkInterface eth (ipv4_address ip) = Inr ni \<Longrightarrow>
    length (rt_interfaces r) + 1 < SIZE_MAX \<Longrightarrow>
    length (rt_interfaces r) < rt_capacity r \<or> (\<forall>a \<in> set (rt_interfaces r). quiet (an_interface a)) \<Longrightarrow>
    add_interface r (AsyncNetworkInterface ni) = (n, r') \<Longrightarrow> routing r'"
| table: "routing r \<Longrightarrow> n < length (rt_interfaces r) \<Longrightarrow> unat len \<le> 32 \<Longrightarrow> hop_ok hop \<Longrightarrow>
    add_route r prefix len hop n = Inr r' \<Longrightarrow> routing r'"
| receive: "routing r \<Longrightarrow> router_interface r n = Inr a \<Longrightarrow> async_recv_frame a f = Inr a' \<Longrightarrow>
    routing (r\<lparr>rt_interfaces := (rt_interfaces r)[n := a']\<rparr>)"
| wait: "routing r \<Longrightarrow> router_interface r n = Inr a \<Longrightarrow> ni_timestamp (an_interface a) + ms + 30000 < 2 ^ 64 \<Longrightarrow>
    routing (r\<lparr>rt_interfaces := (rt_interfaces r)[n := a\<lparr>an_interface := interface_tick (an_interface a) ms\<rparr>]\<rparr>)"
| transmit: "routing r \<Longrightarrow> router_interface r n = Inr a \<Longrightarrow> interface_maybe_send (an_interface a) = (f, ni) \<Longrightarrow>
    routing (r\<lparr>rt_interfaces := (rt_interfaces r)[n := a\<lparr>an_interface := ni\<rparr>]\<rparr>)"
| forward: "routing r \<Longrightarrow> route r = Inr r' \<Longrightarrow> routing r'"

lemma router_ok_update:
  assumes "router_ok r" "async_ok a"
  shows "router_ok (r\<lparr>rt_interfaces := (rt_interfaces r)[n := a]\<rparr>)"
  using assms list_update_async [of "rt_interfaces r" a n] by (simp add: router_ok_def)

lemma router_interface_ok: "router_ok r \<Longrightarrow> router_interface r n = Inr a \<Longrightarrow> async_ok a"
  by (auto simp: router_interface_def router_ok_def split: if_splits)

lemma recv_inv:
  assumes "interface_inv ni" "recv_frame ni f = Inr (r, ni')"
  shows "interface_inv ni'"
proof (cases "for_me ni f \<and> eh_type (ef_header f) = TYPE_ARP")
  case True
  then obtain m ok where m: "parse arp_parse ARPMessage (ef_payload f) = Inr (m, ok)"
    using assms(2) by (auto simp: recv_frame_def Let_def for_me_def TYPE_ARP_def TYPE_IPv4_def andthen_eq_Inr_iff)
  show ?thesis by (rule recv_arp_refines [OF assms(1) _ _ m]) (use True assms(2) in simp_all)
next
  case False
  then show ?thesis using recv_other [OF assms(2) False] assms(1) by simp
qed

lemma parsed_version:
  assumes "parse ipv4_datagram_parse d0 bs = Inr (d, ok)"
  shows "ip_ver (dg_header d) = 4"
proof -
  have "ip_ver h' = 4" if c: "compute_checksum h = Inr h'" for h h'
    using c compute_checksum_eq [of h] compute_checksum_error [of h] by (cases "ip_ver h = 4") auto
  then show ?thesis using assms
    by (auto simp: parse_def ipv4_datagram_parse_def ipv4_header_parse_def Let_def andthen_eq_Inr_iff)
qed

lemma async_recv_ok:
  assumes "async_ok a" "async_recv_frame a f = Inr a'"
  shows "async_ok a'"
proof -
  obtain r ni where r: "recv_frame (an_interface a) f = Inr (r, ni)"
    using assms(2) by (auto simp: async_recv_frame_def andthen_eq_Inr_iff)
  have inv: "interface_inv ni" using recv_inv [OF _ r] assms(1) by (simp add: async_ok_def)
  have "ip_ver (dg_header d) = 4" if "r = Some d" for d
    using r that by (auto simp: recv_frame_def Let_def andthen_eq_Inr_iff split: if_splits dest: parsed_version)
  then show ?thesis using assms r inv by (auto simp: async_recv_frame_def async_ok_def split: option.splits)
qed

lemma add_route_eq:
  assumes "n < SIZE_MAX"
  defines "old \<equiv> \<lambda>t j. if j < length t then t ! j else []"
  obtains r' where "add_route r prefix len hop n = Inr r'" "rt_interfaces r' = rt_interfaces r"
    "length (rt_table r') = n + 1" "\<forall>j < n. rt_table r' ! j = old (rt_table r) j"
    "rt_table r' ! n = old (rt_table r) n @ [\<lparr>route_prefix = prefix, prefix_length = len, next_hop = hop\<rparr>]"
proof -
  let ?t = "vec_resize [] (rt_table r) (Suc n)"
  have nth: "?t ! j = old (rt_table r) j" if "j \<le> n" for j
    using that by (auto simp: vec_resize_def old_def nth_append)
  have "add64 n 1 = Suc n" using assms(1) by (simp add: SIZE_MAX_def wadd_nowrap)
  then have "add_route r prefix len hop n =
      Inr (r\<lparr>rt_table := ?t[n := ?t ! n @ [\<lparr>route_prefix = prefix, prefix_length = len, next_hop = hop\<rparr>]]\<rparr>)"
    by (simp add: add_route_def Let_def)
  then show thesis by (rule that) (simp_all add: nth)
qed

lemma quiet_growth:
  assumes "length (rt_interfaces r) < rt_capacity r \<or> (\<forall>a \<in> set (rt_interfaces r). quiet (an_interface a))"
  shows "rt_interfaces (push_interface r a) = rt_interfaces r @ [a]" "rt_table (push_interface r a) = rt_table r"
  using assms by (auto simp: push_interface_def copy_quiet map_idI)

lemma routing_ok: "routing r \<Longrightarrow> router_ok r"
proof (induction rule: routing.induct)
  case construct
  then show ?case by (simp add: Router_def router_ok_def table_ok_def SIZE_MAX_def)
next
  case (interface r eth ip ni n r')
  have "async_ok (AsyncNetworkInterface ni)"
    using construct_inv(1) [OF interface.hyps(2)] copy_quiet [OF construct_quiet [OF interface.hyps(2)]]
    by (simp add: async_ok_def AsyncNetworkInterface_def)
  then show ?case using interface.IH interface.hyps(3,5) quiet_growth [OF interface.hyps(4)]
    by (auto simp: add_interface_def Let_def router_ok_def)
next
  case (table r n len hop prefix r')
  have n: "n < SIZE_MAX" using table.hyps(2) table.IH by (simp add: router_ok_def)
  let ?old = "\<lambda>j. if j < length (rt_table r) then rt_table r ! j else []"
  let ?e = "\<lparr>route_prefix = prefix, prefix_length = len, next_hop = hop\<rparr>"
  obtain r2 where r2: "add_route r prefix len hop n = Inr r2" "rt_interfaces r2 = rt_interfaces r"
    "length (rt_table r2) = n + 1" "\<forall>j < n. rt_table r2 ! j = ?old j" "rt_table r2 ! n = ?old n @ [?e]"
    by (rule add_route_eq [OF n])
  have e: "unat (prefix_length x) \<le> 32 \<and> hop_ok (next_hop x)" if "x \<in> set (?old j)" for x j
  proof (cases "j < length (rt_table r)")
    case True
    then have "rt_table r ! j \<in> set (rt_table r)" "x \<in> set (rt_table r ! j)" using that by simp_all
    then show ?thesis using table.IH unfolding router_ok_def table_ok_def by blast
  qed (use that in simp)
  have "unat (prefix_length x) \<le> 32 \<and> hop_ok (next_hop x)" if mem: "row \<in> set (rt_table r2)" "x \<in> set row" for row x
  proof -
    obtain j where "j < length (rt_table r2)" "rt_table r2 ! j = row" using mem(1) by (meson in_set_conv_nth)
    then have j: "j < n + 1" "row = rt_table r2 ! j" using r2(3) by simp_all
    then consider "j < n" | "j = n" by linarith
    then show ?thesis
    proof cases
      case 1
      then show ?thesis using e [of x j] mem(2) j(2) r2(4) by simp
    next
      case 2
      then show ?thesis using e [of x n] mem(2) j(2) r2(5) table.hyps(3,4) by auto
    qed
  qed
  then have "table_ok (rt_table r2)" by (simp add: table_ok_def)
  then show ?case using table.IH table.hyps(2,5) r2(1-3) by (auto simp: router_ok_def)
next
  case (receive r n a f a')
  then show ?case using router_interface_ok async_recv_ok router_ok_update by blast
next
  case (wait r n a ms)
  have "async_ok (a\<lparr>an_interface := interface_tick (an_interface a) ms\<rparr>)"
    using router_interface_ok [OF wait.IH wait.hyps(2)] tick_refines(1) [OF _ wait.hyps(3)] by (simp add: async_ok_def)
  then show ?case by (rule router_ok_update [OF wait.IH])
next
  case (transmit r n a f ni)
  have "async_ok (a\<lparr>an_interface := ni\<rparr>)"
    using router_interface_ok [OF transmit.IH transmit.hyps(2)] maybe_send_refines(1) [OF _ transmit.hyps(3)]
    by (simp add: async_ok_def)
  then show ?case by (rule router_ok_update [OF transmit.IH])
next
  case (forward r r')
  then show ?case using route_spec [OF forward.IH] by (metis sum.inject(2))
qed

section \<open>Properties\<close>

text \<open>
  \<open>C18\<close>: the search through the routing table is longest prefix matching. With lengths up to 32
  it agrees with the reference, the last of the longest entries whose leading bits are those of the
  destination; the entry found matches, no matching entry is longer, and nothing is found exactly
  when nothing matches.
\<close>

theorem longest_prefix_is_found:
  assumes "\<forall>row \<in> set table. \<forall>e \<in> set row. unat (prefix_length e) \<le> 32"
  shows "match_table dst 0 table (0, SIZE_MAX, None) =
      Inr (case longest_match dst (routes 0 table) of None \<Rightarrow> (0, SIZE_MAX, None)
           | Some (j, e) \<Rightarrow> (prefix_length e, j, next_hop e))
    \<and> (case longest_match dst (routes 0 table) of
         None \<Rightarrow> \<forall>i < length table. \<forall>e \<in> set (table ! i). \<not> matches dst e
       | Some (j, e) \<Rightarrow> j < length table \<and> e \<in> set (table ! j) \<and> matches dst e
           \<and> (\<forall>i < length table. \<forall>e' \<in> set (table ! i). matches dst e' \<longrightarrow> prefix_length e' \<le> prefix_length e))"
  using best_route_spec [OF assms, of dst] longest_match_None [of dst table] longest_match_Some [of dst table]
  by (auto simp: as_best_def split: option.splits prod.splits)

theorem longest_prefix_is_found_witness:
  "match_table 0xC0A80105 0
      [[\<lparr>route_prefix = 0, prefix_length = 0, next_hop = None\<rparr>], [\<lparr>route_prefix = 0xC0A80100, prefix_length = 24, next_hop = None\<rparr>]]
      (0, SIZE_MAX, None) = Inr (24, 1, None)"
proof -
  let ?e0 = "\<lparr>route_prefix = 0, prefix_length = 0, next_hop = None\<rparr>" and ?e1 = "\<lparr>route_prefix = 0xC0A80100, prefix_length = 24, next_hop = None\<rparr>"
  have m: "matches 0xC0A80105 ?e0" "matches 0xC0A80105 ?e1"
    by (simp_all add: matches_def drop_bit_eq_div)
  have r: "routes 0 [[?e0], [?e1]] = [(0, ?e0), (1, ?e1)]" by (simp add: routes_def)
  have "longest_match 0xC0A80105 (routes 0 [[?e0], [?e1]]) = Some (1, ?e1)"
    unfolding r by (simp add: longest_match_def Let_def m longest_def)
  then show ?thesis using longest_prefix_is_found [of "[[?e0], [?e1]]" "0xC0A80105"] by simp
qed

text \<open>
  \<open>C15\<close>: in every reachable state a pass of the router succeeds. It takes the first waiting
  datagram of every interface, one each, and forwards it, its time to live decremented, through
  the interface and to the hop of the longest matching entry; a datagram that matches nothing, or
  whose time to live is at most one, is dropped.
\<close>

theorem router_forwards:
  assumes "routing r"
  shows "\<exists>r'. route r = Inr r' \<and> rt_table r' = rt_table r
    \<and> map an_datagrams_in (rt_interfaces r') = map tl (map an_datagrams_in (rt_interfaces r))
    \<and> map port_of (rt_interfaces r') =
        fold (forward_first (rt_table r)) (map an_datagrams_in (rt_interfaces r)) (map port_of (rt_interfaces r))"
  using route_spec [OF routing_ok [OF assms]] by metis

theorem router_forwards_witness:
  "\<exists>r r' d. routing r \<and> map an_datagrams_in (rt_interfaces r) = [[d]]
    \<and> route r = Inr r' \<and> map an_datagrams_in (rt_interfaces r') = [[]]
    \<and> map port_of (rt_interfaces r') = forward (rt_table r) d (map port_of (rt_interfaces r))"
proof -
  obtain ni where ni: "NetworkInterface (replicate 6 1) (ipv4_address 7) = Inr ni" by (simp add: construct_eq)
  have copy: "copy_interface ni = ni" by (rule copy_quiet [OF construct_quiet [OF ni]])
  let ?r1 = "\<lparr>rt_interfaces = [AsyncNetworkInterface ni], rt_table = [], rt_capacity = 1\<rparr>"
  have "add_interface Router (AsyncNetworkInterface ni) = (0, ?r1)"
    by (simp add: add_interface_def push_interface_def Router_def)
  then have r1: "routing ?r1"
    using routing.interface [OF routing.construct ni] by (simp add: Router_def SIZE_MAX_def)
  let ?f = "unicast_frame (replicate 6 1) (replicate 6 2) TYPE_IPv4 [ipv4_bytes IPv4Header, [1, 2]]"
  have shape: "ipv4_shape IPv4Header" by (simp add: ipv4_shape_def IPv4Header_def)
  have "for_me ni ?f" using construct_inv(2) [OF ni] by (simp add: for_me_def unicast_frame_def)
  then obtain d where d: "recv_frame ni ?f = Inr (Some d, ni)"
    using corrupted_delivery [of ni ?f IPv4Header "[[1, 2]]"] shape by (auto simp: unicast_frame_def)
  let ?a = "\<lparr>an_interface = ni, an_datagrams_in = [d]\<rparr>"
  let ?r = "\<lparr>rt_interfaces = [?a], rt_table = [], rt_capacity = 1\<rparr>"
  have "async_recv_frame (AsyncNetworkInterface ni) ?f = Inr ?a"
    using d by (simp add: async_recv_frame_def AsyncNetworkInterface_def copy)
  then have "routing (?r1\<lparr>rt_interfaces := (rt_interfaces ?r1)[0 := ?a]\<rparr>)"
    by (rule routing.receive [OF r1, of 0 "AsyncNetworkInterface ni", rotated]) (simp add: router_interface_def)
  then have r: "routing ?r" by simp
  obtain r' where r': "route ?r = Inr r'" "map an_datagrams_in (rt_interfaces r') = map tl (map an_datagrams_in (rt_interfaces ?r))"
    "map port_of (rt_interfaces r') = fold (forward_first (rt_table ?r)) (map an_datagrams_in (rt_interfaces ?r)) (map port_of (rt_interfaces ?r))"
    using router_forwards [OF r] by blast
  have "map an_datagrams_in (rt_interfaces r') = [[]]" unfolding r'(2) by simp
  moreover have "map port_of (rt_interfaces r') = forward (rt_table ?r) d (map port_of (rt_interfaces ?r))"
    unfolding r'(3) by (simp add: forward_first_def)
  moreover have "map an_datagrams_in (rt_interfaces ?r) = [[d]]" by simp
  ultimately show ?thesis using r r'(1) by (intro exI [of _ ?r] exI [of _ r'] exI [of _ d] conjI)
qed

text \<open>
  \<open>add_route\<close> adds its entry at the end of the row of its interface and truncates
  the table there: the rows of the interfaces before it are kept, and every route of an interface
  with a higher number is forgotten.
\<close>

theorem add_route_truncates:
  assumes "n < SIZE_MAX"
  shows "\<exists>r'. add_route r prefix len hop n = Inr r'
    \<and> rt_interfaces r' = rt_interfaces r \<and> length (rt_table r') = n + 1
    \<and> (\<forall>j < n. rt_table r' ! j = (if j < length (rt_table r) then rt_table r ! j else []))
    \<and> rt_table r' ! n = (if n < length (rt_table r) then rt_table r ! n else [])
        @ [\<lparr>route_prefix = prefix, prefix_length = len, next_hop = hop\<rparr>]
    \<and> (\<forall>j e. (j, e) \<in> set (routes 0 (rt_table r')) \<longrightarrow> j \<le> n)"
proof -
  obtain r' where r': "add_route r prefix len hop n = Inr r'" "rt_interfaces r' = rt_interfaces r" "length (rt_table r') = n + 1"
    "\<forall>j < n. rt_table r' ! j = (if j < length (rt_table r) then rt_table r ! j else [])"
    "rt_table r' ! n = (if n < length (rt_table r) then rt_table r ! n else [])
       @ [\<lparr>route_prefix = prefix, prefix_length = len, next_hop = hop\<rparr>]"
    by (rule add_route_eq [OF assms])
  moreover have "\<forall>j e. (j, e) \<in> set (routes 0 (rt_table r')) \<longrightarrow> j \<le> n" using r'(3) by (auto simp: routes_mem)
  ultimately show ?thesis by blast
qed

theorem add_route_truncates_witness:
  "\<exists>r'. add_route (Router\<lparr>rt_table := [[], [\<lparr>route_prefix = 1, prefix_length = 32, next_hop = None\<rparr>]]\<rparr>) 2 32 None 0 = Inr r'
     \<and> length (rt_table r') = 1
     \<and> rt_table r' ! 0 = [\<lparr>route_prefix = 2, prefix_length = 32, next_hop = None\<rparr>]"
  using add_route_truncates [of 0 "Router\<lparr>rt_table := [[], [\<lparr>route_prefix = 1, prefix_length = 32, next_hop = None\<rparr>]]\<rparr>" 2 32 None]
  by (auto simp: SIZE_MAX_def)

text \<open>
  The router decrements the time to live and leaves the checksum as it was, so every
  datagram it forwards carries a wrong checksum: what the outgoing interface is given fails the
  verification that what came in passed.
\<close>

theorem forwarded_checksum_is_wrong:
  assumes "router_ok r" and "i < length (rt_interfaces r)" and "an_datagrams_in (rt_interfaces r ! i) = d # ds"
    and "checksum_ok (dg_header d)" and "2 \<le> unat (ip_ttl (dg_header d))"
    and "longest_match (ip_dst (dg_header d)) (routes 0 (rt_table r)) = Some (j, e)"
  shows "\<exists>r' d'. route_interface r i = Inr r'
    \<and> map port_of (rt_interfaces r') = (map port_of (rt_interfaces r))
        [j := port_send (map port_of (rt_interfaces r) ! j) d' (hop_of e (ip_dst (dg_header d)))]
    \<and> ip_ttl (dg_header d') = ip_ttl (dg_header d) - 1 \<and> dg_payload d' = dg_payload d
    \<and> \<not> checksum_ok (dg_header d')"
proof -
  let ?d = "decrement_ttl d"
  obtain r' where r': "route_interface r i = Inr r'" "map port_of (rt_interfaces r') = forward (rt_table r) d (map port_of (rt_interfaces r))"
    by (rule route_interface_spec [OF assms(1,2)]) (simp add: assms(3))
  have "ip_ttl (dg_header d) - 1 \<noteq> ip_ttl (dg_header d)" by simp
  then have "\<not> checksum_ok (dg_header ?d)" using ttl_breaks_checksum [OF assms(4)] by (simp add: decrement_ttl_def)
  then show ?thesis using r' assms(5,6)
    by (intro exI [of _ r'] exI [of _ ?d]) (simp add: forward_def, simp add: decrement_ttl_def)
qed

theorem forwarded_checksum_is_wrong_witness:
  "\<exists>ni r' (d' :: ipv4_datagram). NetworkInterface (replicate 6 1) (ipv4_address 7) = Inr ni
    \<and> route_interface \<lparr>rt_interfaces = [\<lparr>an_interface = ni, an_datagrams_in =
          [IPv4Datagram\<lparr>dg_header := IPv4Header\<lparr>ip_cksum := right_checksum IPv4Header\<rparr>\<rparr>]\<rparr>],
        rt_table = [[\<lparr>route_prefix = 0, prefix_length = 0, next_hop = None\<rparr>]], rt_capacity = 1\<rparr> 0 = Inr r'
    \<and> ip_ttl (dg_header d') = 127 \<and> \<not> checksum_ok (dg_header d')"
proof -
  obtain ni where ni: "NetworkInterface (replicate 6 1) (ipv4_address 7) = Inr ni" by (simp add: construct_eq)
  let ?h = "IPv4Header\<lparr>ip_cksum := right_checksum IPv4Header\<rparr>"
  let ?d = "IPv4Datagram\<lparr>dg_header := ?h\<rparr>" and ?e = "\<lparr>route_prefix = 0, prefix_length = 0, next_hop = None\<rparr>"
  let ?r = "\<lparr>rt_interfaces = [\<lparr>an_interface = ni, an_datagrams_in = [?d]\<rparr>], rt_table = [[?e]], rt_capacity = 1\<rparr>"
  have ver: "ip_ver IPv4Header = 4" "ip_ttl IPv4Header = 128" by (simp_all add: IPv4Header_def)
  have ok: "router_ok ?r" using construct_inv(1) [OF ni]
    by (simp add: router_ok_def table_ok_def async_ok_def hop_ok_def ver SIZE_MAX_def)
  have "matches 0 ?e" by (simp add: matches_def)
  then have m: "longest_match (ip_dst (dg_header ?d)) (routes 0 (rt_table ?r)) = Some (0, ?e)"
    by (simp add: longest_match_def routes_def longest_single Let_def IPv4Header_def)
  have first: "0 < length (rt_interfaces ?r)" "an_datagrams_in (rt_interfaces ?r ! 0) = ?d # []"
    and ttl: "2 \<le> unat (ip_ttl (dg_header ?d))" by (simp_all add: ver)
  have ck: "checksum_ok (dg_header ?d)" by (simp add: checksum_ok_def)
  obtain r' and d' :: ipv4_datagram where "route_interface ?r 0 = Inr r'" "ip_ttl (dg_header d') = ip_ttl (dg_header ?d) - 1" "\<not> checksum_ok (dg_header d')"
    using forwarded_checksum_is_wrong [OF ok first ck ttl m] by blast
  then show ?thesis using ni ver by (intro exI [of _ ni] exI [of _ r'] exI [of _ d']) simp
qed

end
