(* ===== verification/Internetwork.thy ===== *)
theory Internetwork
  imports Router_Properties Segment_Properties
begin

text \<open>
  Datagrams that cross routers (\<open>src/src/router.cc\<close>): a frame arrives at an interface of a router,
  a pass of \<open>route\<close> follows, and the frames that the interfaces of the router have queued
  go on to the next one. Every router on the way is idle otherwise and knows the Ethernet address of
  the next hop.
\<close>

section \<open>Crossing one router\<close>

text \<open>The frames that a pass of the router queues after the frame \<open>f\<close> has come in at interface \<open>i\<close>.\<close>

definition cross :: "router \<Rightarrow> nat \<Rightarrow> ethernet_frame \<Rightarrow> ethernet_frame list outcome" where
  "cross r i f =
     andthen (router_interface r i) (\<lambda>a.
     andthen (async_recv_frame a f) (\<lambda>a'.
     let r1 = r\<lparr>rt_interfaces := (rt_interfaces r)[i := a']\<rparr>
     in andthen (route r1) (\<lambda>r2.
        Inr (concat (map2 (\<lambda>b b'. drop (length (ni_frames (an_interface b))) (ni_frames (an_interface b')))
          (rt_interfaces r1) (rt_interfaces r2))))))"

definition idle :: "router \<Rightarrow> bool" where
  "idle r \<longleftrightarrow> router_ok r \<and> (\<forall>a \<in> set (rt_interfaces r). an_datagrams_in a = [])"

text \<open>The router sends datagrams for \<open>dst\<close> to the Ethernet address \<open>mac\<close>.\<close>

definition leads_to :: "router \<Rightarrow> 32 word \<Rightarrow> ethernet_address \<Rightarrow> bool" where
  "leads_to r dst mac \<longleftrightarrow> (\<exists>j e t. longest_match dst (routes 0 (rt_table r)) = Some (j, e)
     \<and> ac_learned (interface_abs (an_interface (rt_interfaces r ! j))) (hop_of e dst) = Some (mac, t))"

lemma fold_only_one:
  assumes "i < n" and "\<And>p. f [] p = p"
  shows "fold f ((replicate n [])[i := x]) p = f x p"
proof -
  have "fold f (replicate m []) q = q" for m q by (induction m) (simp_all add: assms(2))
  moreover have "(replicate n [])[i := x] = replicate i [] @ x # replicate (n - Suc i) []"
    using assms(1) by (simp add: upd_conv_take_nth_drop min_def)
  ultimately show ?thesis by simp
qed

lemma concat_only_one: "i < n \<Longrightarrow> concat ((replicate n [])[i := x]) = x"
proof -
  assume "i < n"
  have "concat (replicate m []) = []" for m by (induction m) simp_all
  moreover have "(replicate n [])[i := x] = replicate i [] @ x # replicate (n - Suc i) []"
    using \<open>i < n\<close> by (simp add: upd_conv_take_nth_drop min_def)
  ultimately show ?thesis by simp
qed

lemma forward_first_Nil: "forward_first t [] p = p"
  by (simp add: forward_first_def)

lemma frames_of_port: "ni_frames (an_interface a) = ac_frames (snd (snd (port_of a)))"
  by (simp add: port_of_def interface_abs_def)

lemma router_takes_in:
  assumes "idle r" and "i < length (rt_interfaces r)" and "ip_ver (dg_header d) = 4"
  defines "r1 \<equiv> r\<lparr>rt_interfaces := (rt_interfaces r)[i := (rt_interfaces r ! i)\<lparr>an_datagrams_in := [d]\<rparr>]\<rparr>"
  obtains r2 where "route r1 = Inr r2" "length (rt_interfaces r2) = length (rt_interfaces r)"
    "map port_of (rt_interfaces r1) = map port_of (rt_interfaces r)"
    "map port_of (rt_interfaces r2) = forward (rt_table r) d (map port_of (rt_interfaces r))"
proof -
  let ?a = "(rt_interfaces r ! i)\<lparr>an_datagrams_in := [d]\<rparr>"
  let ?n = "length (rt_interfaces r)"
  have ok: "router_ok r" using assms(1) by (simp add: idle_def)
  then have "async_ok (rt_interfaces r ! i)" using assms(2) by (simp add: router_ok_def)
  then have "async_ok ?a" using assms(3) by (simp add: async_ok_def)
  then have ok1: "router_ok r1"
    using ok list_update_async [of "rt_interfaces r" ?a i] by (simp add: router_ok_def r1_def)
  have ports: "map port_of (rt_interfaces r1) = map port_of (rt_interfaces r)"
    unfolding r1_def using assms(2) by (simp add: map_update_same port_of_def)
  have "map an_datagrams_in (rt_interfaces r) = replicate ?n []"
    by (rule nth_equalityI) (use assms(1) in \<open>simp_all add: idle_def\<close>)
  then have ins: "map an_datagrams_in (rt_interfaces r1) = (replicate ?n [])[i := [d]]"
    by (simp add: r1_def map_update)
  obtain r2 where r2: "route r1 = Inr r2"
    "map port_of (rt_interfaces r2) = fold (forward_first (rt_table r1)) (map an_datagrams_in (rt_interfaces r1)) (map port_of (rt_interfaces r1))"
    by (rule route_spec [OF ok1])
  have "map port_of (rt_interfaces r2) = forward_first (rt_table r) [d] (map port_of (rt_interfaces r))"
    unfolding r2(2) ins ports using fold_only_one [OF assms(2), of "forward_first (rt_table r)"]
    by (simp add: forward_first_Nil r1_def)
  then have p: "map port_of (rt_interfaces r2) = forward (rt_table r) d (map port_of (rt_interfaces r))"
    by (simp add: forward_first_def)
  have "length (forward (rt_table r) d (map port_of (rt_interfaces r))) = ?n"
    by (simp add: forward_def split: option.split)
  then have "length (rt_interfaces r2) = ?n" using p by (metis length_map)
  then show thesis by (rule that [OF r2(1) _ ports p])
qed

text \<open>What a router sends on: the datagram with its time to live one less.\<close>

definition sent_on :: "ipv4_datagram \<Rightarrow> nat \<Rightarrow> ipv4_datagram \<Rightarrow> bool" where
  "sent_on d n d' \<longleftrightarrow> concat (dg_payload d') = concat (dg_payload d)
     \<and> (\<exists>c. dg_header d' = (dg_header d)\<lparr>ip_ttl := ip_ttl (dg_header d) - of_nat n, ip_cksum := c\<rparr>)"

lemma sent_on_sendable: "sent_on d n d' \<Longrightarrow> sendable d \<Longrightarrow> sendable d'"
  by (auto simp: sent_on_def sendable_def ipv4_shape_def)

lemma sent_on_dst: "sent_on d n d' \<Longrightarrow> ip_dst (dg_header d') = ip_dst (dg_header d)"
  by (auto simp: sent_on_def)

lemma sent_on_trans: "sent_on d m d' \<Longrightarrow> sent_on d' n d'' \<Longrightarrow> sent_on d (m + n) d''"
  by (auto simp: sent_on_def algebra_simps)

lemma cross_one:
  assumes r: "idle r" "i < length (rt_interfaces r)" and mac: "ni_ethernet_address (an_interface (rt_interfaces r ! i)) = mac"
    and d: "sendable d" and out: "leads_to r (ip_dst (dg_header d)) mac'"
  obtains d' src' where "sent_on d 1 d'" "cross r i (datagram_frame mac src d) =
    Inr (if unat (ip_ttl (dg_header d)) \<le> 1 then [] else [datagram_frame mac' src' d'])"
proof -
  let ?a = "rt_interfaces r ! i" and ?f = "datagram_frame mac src d" and ?n = "length (rt_interfaces r)"
  have "for_me (an_interface ?a) ?f" using mac by (simp add: for_me_def datagram_frame_def unicast_frame_def)
  then obtain d1 where d1: "recv_frame (an_interface ?a) ?f = Inr (Some d1, an_interface ?a)" "arrived d d1"
    by (rule receive_datagram_frame [OF _ d])
  have same: "ip_ttl (dg_header d1) = ip_ttl (dg_header d)" "ip_dst (dg_header d1) = ip_dst (dg_header d)" "ip_ver (dg_header d1) = 4"
    using d1(2) d by (simp_all add: arrived_def sendable_def ipv4_shape_def)
  have "dg_header (decrement_ttl d1) =
      (dg_header d)\<lparr>ip_ttl := ip_ttl (dg_header d) - of_nat 1, ip_cksum := right_checksum (dg_header d)\<rparr>"
    using d1(2) by (cases "dg_header d") (simp add: decrement_ttl_def arrived_def)
  moreover have "concat (dg_payload (decrement_ttl d1)) = concat (dg_payload d)"
    using d1(2) by (simp add: decrement_ttl_def arrived_def)
  ultimately have sent: "sent_on d 1 (decrement_ttl d1)" unfolding sent_on_def by blast
  have "an_datagrams_in ?a = []" using r by (simp add: idle_def)
  then have recv: "async_recv_frame ?a ?f = Inr (?a\<lparr>an_datagrams_in := [d1]\<rparr>)" using d1(1) by (simp add: async_recv_frame_def)
  let ?r1 = "r\<lparr>rt_interfaces := (rt_interfaces r)[i := ?a\<lparr>an_datagrams_in := [d1]\<rparr>]\<rparr>"
  obtain r2 where r2: "route ?r1 = Inr r2" "length (rt_interfaces r2) = ?n"
    "map port_of (rt_interfaces ?r1) = map port_of (rt_interfaces r)"
    "map port_of (rt_interfaces r2) = forward (rt_table r) d1 (map port_of (rt_interfaces r))"
    by (rule router_takes_in [OF r same(3)])
  let ?new = "map2 (\<lambda>b b'. drop (length (ni_frames (an_interface b))) (ni_frames (an_interface b')))
      (rt_interfaces ?r1) (rt_interfaces r2)"
  have run: "cross r i ?f = Inr (concat ?new)"
    using r(2) recv r2(1) by (simp add: cross_def router_interface_def)
  have before: "ni_frames (an_interface (rt_interfaces ?r1 ! k)) = ni_frames (an_interface (rt_interfaces r ! k))" if "k < ?n" for k
    using arg_cong [OF r2(3), of "\<lambda>xs. xs ! k"] that by (simp add: frames_of_port)
  have after: "ni_frames (an_interface (rt_interfaces r2 ! k))
      = ac_frames (snd (snd (forward (rt_table r) d1 (map port_of (rt_interfaces r)) ! k)))" if "k < ?n" for k
    using arg_cong [OF r2(4), of "\<lambda>xs. xs ! k"] that by (simp add: frames_of_port r2(2))
  obtain j e t where j: "longest_match (ip_dst (dg_header d)) (routes 0 (rt_table r)) = Some (j, e)"
    "ac_learned (interface_abs (an_interface (rt_interfaces r ! j))) (hop_of e (ip_dst (dg_header d))) = Some (mac', t)"
    using out by (auto simp: leads_to_def)
  have jn: "j < ?n" using index_not_sentinel [of r j] longest_match_Some(1) [OF j(1)] r(1) by (simp add: idle_def)
  show thesis
  proof (cases "unat (ip_ttl (dg_header d)) \<le> 1")
    case True
    then have "forward (rt_table r) d1 (map port_of (rt_interfaces r)) = map port_of (rt_interfaces r)"
      using j(1) same by (simp add: forward_def)
    then have "ni_frames (an_interface (rt_interfaces r2 ! k)) = ni_frames (an_interface (rt_interfaces r ! k))" if "k < ?n" for k
      using after [OF that] that by (simp add: frames_of_port)
    then have "?new = replicate ?n []" using before by (intro nth_equalityI) (simp_all add: r2(2))
    then have "concat ?new = []" by simp
    then show ?thesis using run True by (intro that [OF sent, of undefined]) simp
  next
    case False
    let ?src = "ni_ethernet_address (an_interface (rt_interfaces r ! j))"
    let ?g = "datagram_frame mac' ?src (decrement_ttl d1)"
    have fwd: "forward (rt_table r) d1 (map port_of (rt_interfaces r))
        = (map port_of (rt_interfaces r))[j := port_send (port_of (rt_interfaces r ! j)) (decrement_ttl d1) (hop_of e (ip_dst (dg_header d)))]"
      using j(1) same False jn by (simp add: forward_def)
    have "ac_frames (snd (snd (port_send (port_of (rt_interfaces r ! j)) (decrement_ttl d1) (hop_of e (ip_dst (dg_header d))))))
        = ni_frames (an_interface (rt_interfaces r ! j)) @ [?g]"
      using j(2) by (simp add: port_send_def port_of_def cache_send_def) (simp add: interface_abs_def)
    then have "ni_frames (an_interface (rt_interfaces r2 ! k)) =
        ni_frames (an_interface (rt_interfaces r ! k)) @ (if k = j then [?g] else [])" if "k < ?n" for k
      using after [OF that] that jn unfolding fwd by (auto simp: nth_list_update frames_of_port)
    then have "?new = (replicate ?n [])[j := [?g]]"
      using before jn by (intro nth_equalityI) (simp_all add: r2(2) nth_list_update)
    then have "concat ?new = [?g]" using concat_only_one [OF jn] by simp
    then show ?thesis using run False by (intro that [OF sent, of ?src]) simp
  qed
qed

section \<open>Crossing a chain of routers\<close>

text \<open>
  The routers on the way, each with the interface at which the frame comes in. The chain \<open>path\<close>
  leads from the Ethernet address \<open>mac\<close> of the first of these interfaces to \<open>mac'\<close>.
\<close>

fun travel :: "(router \<times> nat) list \<Rightarrow> ethernet_frame \<Rightarrow> ethernet_frame list outcome" where
  "travel [] f = Inr [f]"
| "travel ((r, i) # path) f =
     andthen (cross r i f) (\<lambda>fs. case fs of [] \<Rightarrow> Inr [] | g # _ \<Rightarrow> travel path g)"

fun leads_along :: "32 word \<Rightarrow> (router \<times> nat) list \<Rightarrow> ethernet_address \<Rightarrow> ethernet_address \<Rightarrow> bool" where
  "leads_along dst [] mac mac' \<longleftrightarrow> mac = mac'"
| "leads_along dst ((r, i) # path) mac mac' \<longleftrightarrow> idle r \<and> i < length (rt_interfaces r)
     \<and> ni_ethernet_address (an_interface (rt_interfaces r ! i)) = mac
     \<and> (\<exists>m. leads_to r dst m \<and> leads_along dst path m mac')"

lemma ttl_decremented:
  assumes "sent_on d 1 d'" and "1 < unat (ip_ttl (dg_header d))"
  shows "unat (ip_ttl (dg_header d')) = unat (ip_ttl (dg_header d)) - 1"
proof -
  have "ip_ttl (dg_header d') = ip_ttl (dg_header d) - 1" using assms(1) by (auto simp: sent_on_def)
  moreover have "(1 :: 8 word) \<le> ip_ttl (dg_header d)" using assms(2) by (simp add: word_le_nat_alt)
  ultimately show ?thesis by (simp add: unat_sub)
qed

lemma travel_spec:
  assumes "leads_along (ip_dst (dg_header d)) path mac mac'" and "sendable d"
  shows "if path = [] \<or> length path < unat (ip_ttl (dg_header d))
    then \<exists>src' d'. travel path (datagram_frame mac src d) = Inr [datagram_frame mac' src' d'] \<and> sent_on d (length path) d'
    else travel path (datagram_frame mac src d) = Inr []"
  using assms
proof (induction path arbitrary: d mac src)
  case Nil
  then show ?case by (auto simp: sent_on_def intro!: exI [of _ src] exI [of _ d] exI [of _ "ip_cksum (dg_header d)"])
next
  case (Cons x path)
  obtain r i where x: "x = (r, i)" by (cases x)
  let ?ttl = "unat (ip_ttl (dg_header d))"
  obtain m where p: "idle r" "i < length (rt_interfaces r)" "ni_ethernet_address (an_interface (rt_interfaces r ! i)) = mac"
    "leads_to r (ip_dst (dg_header d)) m" "leads_along (ip_dst (dg_header d)) path m mac'"
    using Cons.prems(1) x by auto
  obtain d1 s1 where d1: "sent_on d 1 d1"
    "cross r i (datagram_frame mac src d) = Inr (if ?ttl \<le> 1 then [] else [datagram_frame m s1 d1])"
    by (rule cross_one [OF p(1-3) Cons.prems(2) p(4)])
  show ?case
  proof (cases "?ttl \<le> 1")
    case True
    then show ?thesis using d1(2) x by auto
  next
    case False
    then have ttl: "unat (ip_ttl (dg_header d1)) = ?ttl - 1" by (intro ttl_decremented [OF d1(1)]) simp
    have step: "travel (x # path) (datagram_frame mac src d) = travel path (datagram_frame m s1 d1)"
      using d1(2) False x by simp
    have "leads_along (ip_dst (dg_header d1)) path m mac'" using p(5) sent_on_dst [OF d1(1)] by simp
    note ih = Cons.IH [OF this sent_on_sendable [OF d1(1) Cons.prems(2)], of s1]
    show ?thesis
    proof (cases "length (x # path) < ?ttl")
      case True
      then have "length path < ?ttl - 1" by simp
      then have "path = [] \<or> length path < unat (ip_ttl (dg_header d1))" unfolding ttl by blast
      then obtain s2 d2 where "travel path (datagram_frame m s1 d1) = Inr [datagram_frame mac' s2 d2]" "sent_on d1 (length path) d2"
        using ih by auto
      then show ?thesis using step True sent_on_trans [OF d1(1)] by auto
    next
      case no: False
      then have "path \<noteq> []" using False by auto
      moreover have "\<not> length path < unat (ip_ttl (dg_header d1))" using no by (simp add: ttl)
      ultimately have "travel path (datagram_frame m s1 d1) = Inr []" using ih by simp
      then show ?thesis using step no by simp
    qed
  qed
qed

section \<open>A router that knows its neighbour\<close>

lemma learned_neighbour:
  obtains ni where "interface_inv ni" "ni_ethernet_address ni = replicate 6 1"
    "ac_learned (interface_abs ni) 9 = Some (replicate 6 2, 0)"
proof -
  let ?m = "ARPMessage_reply OPCODE_REPLY (replicate 6 2) 9 (replicate 6 1) 7"
  let ?f = "unicast_frame (replicate 6 1) (replicate 6 2) TYPE_ARP [arp_bytes ?m]"
  obtain a where "NetworkInterface (replicate 6 1) (ipv4_address 7) = Inr a" by (simp add: construct_eq)
  note a = construct_inv [OF this]
  obtain ni where ni: "interface_inv ni" "ni_ethernet_address ni = ni_ethernet_address a"
    "interface_abs ni = cache_answer (ni_ethernet_address a) (ni_ipv4 a)
       (cache_learn (ni_ethernet_address a) (interface_abs a) (arp_sender_ip_address ?m) (arp_sender_ethernet_address ?m)) ?m"
    by (rule receive_arp_message [OF a(1), of ?f ?m]) (use a(2,3) in \<open>simp_all add: for_me_def unicast_frame_def reply_fields\<close>)
  have "arp_opcode ?m \<noteq> OPCODE_REQUEST" by (simp add: ARPMessage_reply_def OPCODE_REPLY_def OPCODE_REQUEST_def)
  then show thesis using ni a by (intro that [of ni]) (simp_all add: cache_answer_def cache_learn_def reply_fields)
qed

lemma example_path:
  obtains r where "leads_along 9 [(r, 0)] (replicate 6 1) (replicate 6 2)"
proof -
  obtain ni where ni: "interface_inv ni" "ni_ethernet_address ni = replicate 6 1"
    "ac_learned (interface_abs ni) 9 = Some (replicate 6 2, 0)" by (rule learned_neighbour)
  let ?e = "\<lparr>route_prefix = 0, prefix_length = 0, next_hop = None\<rparr>"
  let ?r = "\<lparr>rt_interfaces = [\<lparr>an_interface = ni, an_datagrams_in = []\<rparr>], rt_table = [[?e]], rt_capacity = 1\<rparr>"
  have "idle ?r" using ni(1)
    by (simp add: idle_def router_ok_def table_ok_def async_ok_def hop_ok_def SIZE_MAX_def)
  moreover have "matches 9 ?e" by (simp add: matches_def)
  then have "longest_match 9 (routes 0 (rt_table ?r)) = Some (0, ?e)"
    by (simp add: longest_match_def routes_def longest_single Let_def)
  then have "leads_to ?r 9 (replicate 6 2)" using ni(3) by (simp add: leads_to_def hop_of_def)
  ultimately show thesis using ni(2) by (intro that [of ?r]) auto
qed

definition example_datagram :: "8 word \<Rightarrow> ipv4_datagram" where
  "example_datagram ttl = \<lparr>dg_header = IPv4Header\<lparr>ip_ttl := ttl, ip_dst := 9\<rparr>, dg_payload = [[1, 2], [3]]\<rparr>"

lemma example_datagram_sendable: "sendable (example_datagram ttl)"
  by (simp add: sendable_def example_datagram_def ipv4_shape_def IPv4Header_def)

section \<open>Properties\<close>

text \<open>
  \<open>C16\<close>: a datagram crosses any chain of fewer routers than its time to live, each of which is idle (no
  datagram waits in it), has its longest matching route lead to the next hop and
  has learned the Ethernet address of that hop, and the host at the end hands it up: its payload is
  what was sent, and its header differs in the time to live, which is less by the number of routers,
  and in the checksum, which is right. (\<open>ttl_ends_every_path\<close>: on a longer chain it is dropped.)
\<close>

theorem datagram_crosses_routers:
  assumes "leads_along (ip_dst (dg_header d)) path mac mac'" and "sendable d"
    and "length path < unat (ip_ttl (dg_header d))" and "ni_ethernet_address host = mac'"
  shows "\<exists>f d'. travel path (datagram_frame mac src d) = Inr [f] \<and> recv_frame host f = Inr (Some d', host)
    \<and> concat (dg_payload d') = concat (dg_payload d)
    \<and> (\<exists>c. dg_header d' = (dg_header d)\<lparr>ip_ttl := ip_ttl (dg_header d) - of_nat (length path), ip_cksum := c\<rparr>)
    \<and> checksum_ok (dg_header d')"
proof -
  obtain src' d1 where t: "travel path (datagram_frame mac src d) = Inr [datagram_frame mac' src' d1]"
    "sent_on d (length path) d1"
    using travel_spec [OF assms(1,2), of src] assms(3) by auto
  have "for_me host (datagram_frame mac' src' d1)"
    using assms(4) by (simp add: for_me_def datagram_frame_def unicast_frame_def)
  then obtain d' where d': "recv_frame host (datagram_frame mac' src' d1) = Inr (Some d', host)" "arrived d1 d'"
    by (rule receive_datagram_frame [OF _ sent_on_sendable [OF t(2) assms(2)]])
  obtain c where c: "dg_header d1 = (dg_header d)\<lparr>ip_ttl := ip_ttl (dg_header d) - of_nat (length path), ip_cksum := c\<rparr>"
    using t(2) by (auto simp: sent_on_def)
  have "dg_header d' = (dg_header d)\<lparr>ip_ttl := ip_ttl (dg_header d) - of_nat (length path),
      ip_cksum := right_checksum (dg_header d1)\<rparr>" using d'(2) by (simp add: arrived_def c)
  moreover have "checksum_ok (dg_header d')" using d'(2) by (simp add: arrived_def checksum_ok_def)
  moreover have "concat (dg_payload d') = concat (dg_payload d)" using d'(2) t(2) by (simp add: arrived_def sent_on_def)
  ultimately show ?thesis using t(1) d'(1) by blast
qed

theorem datagram_crosses_routers_witness:
  "\<exists>r host f d'. leads_along 9 [(r, 0)] (replicate 6 1) (replicate 6 2)
    \<and> travel [(r, 0)] (datagram_frame (replicate 6 1) [] (example_datagram 64)) = Inr [f]
    \<and> recv_frame host f = Inr (Some d', host) \<and> concat (dg_payload d') = [1, 2, 3] \<and> ip_ttl (dg_header d') = 63"
proof -
  obtain r where r: "leads_along 9 [(r, 0)] (replicate 6 1) (replicate 6 2)" by (rule example_path)
  obtain host where "NetworkInterface (replicate 6 2) (ipv4_address 9) = Inr host" by (simp add: construct_eq)
  then have host: "ni_ethernet_address host = replicate 6 2" by (rule construct_inv)
  have d: "ip_dst (dg_header (example_datagram 64)) = 9" "ip_ttl (dg_header (example_datagram 64)) = 64"
    "concat (dg_payload (example_datagram 64)) = [1, 2, 3]" by (simp_all add: example_datagram_def)
  have p: "leads_along (ip_dst (dg_header (example_datagram 64))) [(r, 0)] (replicate 6 1) (replicate 6 2)"
    unfolding d by (rule r)
  have l: "length [(r, 0 :: nat)] < unat (ip_ttl (dg_header (example_datagram 64)))" unfolding d by simp
  obtain f d' c where f: "travel [(r, 0)] (datagram_frame (replicate 6 1) [] (example_datagram 64)) = Inr [f]"
    "recv_frame host f = Inr (Some d', host)" "concat (dg_payload d') = concat (dg_payload (example_datagram 64))"
    "dg_header d' = (dg_header (example_datagram 64))\<lparr>ip_ttl := ip_ttl (dg_header (example_datagram 64)) - of_nat (length [(r, 0 :: nat)]), ip_cksum := c\<rparr>"
    using datagram_crosses_routers [OF p example_datagram_sendable l host, of "[]"] by blast
  have "ip_ttl (dg_header d') = 63" unfolding f(4) d by simp
  then show ?thesis using r f(1-3) d(3) by metis
qed

text \<open>
  The time to live ends every path. On a chain of at least as many routers as its time to
  live, a loop of the routes for instance, the datagram is dropped on the way.
\<close>

theorem ttl_ends_every_path:
  assumes "leads_along (ip_dst (dg_header d)) path mac mac'" and "sendable d"
    and "path \<noteq> []" and "unat (ip_ttl (dg_header d)) \<le> length path"
  shows "travel path (datagram_frame mac src d) = Inr []"
  using travel_spec [OF assms(1,2), of src] assms(3,4) by simp

theorem ttl_ends_every_path_witness:
  "\<exists>r. leads_along 9 [(r, 0)] (replicate 6 1) (replicate 6 2)
    \<and> travel [(r, 0)] (datagram_frame (replicate 6 1) [] (example_datagram 1)) = Inr []"
proof -
  obtain r where r: "leads_along 9 [(r, 0)] (replicate 6 1) (replicate 6 2)" by (rule example_path)
  have d: "ip_dst (dg_header (example_datagram 1)) = 9" "ip_ttl (dg_header (example_datagram 1)) = 1"
    by (simp_all add: example_datagram_def)
  have p: "leads_along (ip_dst (dg_header (example_datagram 1))) [(r, 0)] (replicate 6 1) (replicate 6 2)"
    unfolding d by (rule r)
  have l: "unat (ip_ttl (dg_header (example_datagram 1))) \<le> length [(r, 0 :: nat)]" unfolding d by simp
  show ?thesis using ttl_ends_every_path [OF p example_datagram_sendable _ l, of "[]"] r by blast
qed

end
