(* ===== verification/Router_Growth.thy ===== *)
theory Router_Growth
  imports Internetwork
begin

text \<open>
  What \<open>Router::add_interface\<close> does to the interfaces that the router of \<open>src/src/router.hh\<close> has already.
  The vector that holds them copies them when it grows, and the copies point into the freed queues of
  the originals.
\<close>

lemma copied_pointer_dangles:
  assumes "interface_inv ni" and "ac_learned (interface_abs ni) hop \<noteq> None"
  shows "send_datagram (copy_interface ni) d (ipv4_address hop) = Inl Undefined"
proof -
  have pts: "points mn_ipv4 (ni_mappings ni) (mapping_ptr ni)" using assms(1) by (simp add: interface_inv_def)
  obtain p where p: "mapping_ptr ni hop = Some p" using assms(2) by (auto simp: interface_abs_def looked_def)
  then have "p < dq_popped (dq_copy (ni_mappings ni))" using pts unfolding points_def by (auto simp: dq_copy_def)
  then have "dq_deref (ni_mappings (copy_interface ni)) p = Inl Undefined" by (simp add: dq_deref_def copy_interface_def)
  moreover have "te_mapping (table_at (ni_table (copy_interface ni)) hop) = Some p"
    using p by (simp add: pointers_def copy_interface_def)
  ultimately show ?thesis by (simp add: send_datagram_def ipv4_numeric_address Let_def)
qed

section \<open>Property\<close>

text \<open>
  \<open>C17\<close>: adding an interface to a router. The new interface is the last one and its number is
  returned. The others stay as they are when the vector has room, or when nothing is in their timeout
  queues. But when the vector is full, every one of them that has learned the address of a hop is
  left with a pointer into freed memory, which the next datagram for that hop is sent through.
\<close>

theorem add_interface_grows:
  assumes "router_ok r" and "add_interface r interface = (n, r')"
  shows "n = length (rt_interfaces r) \<and> router_interface r' n = Inr interface
    \<and> (n < rt_capacity r \<or> (\<forall>a \<in> set (rt_interfaces r). quiet (an_interface a)) \<longrightarrow>
        rt_interfaces r' = rt_interfaces r @ [interface])
    \<and> (\<forall>j < n. \<forall>hop. rt_capacity r \<le> n \<longrightarrow> ac_learned (interface_abs (an_interface (rt_interfaces r ! j))) hop \<noteq> None \<longrightarrow>
        (\<exists>a. router_interface r' j = Inr a \<and> (\<forall>d. send_datagram (an_interface a) d (ipv4_address hop) = Inl Undefined)))"
proof (intro conjI allI impI)
  let ?is = "rt_interfaces r"
  have r': "r' = push_interface r interface" and len: "length (rt_interfaces r') = length ?is + 1"
    using assms(2) by (auto simp: add_interface_def push_interface_def Let_def)
  show n: "n = length ?is" using assms(2) len r' by (simp add: add_interface_def Let_def)
  have "rt_interfaces r' ! n = interface" by (simp add: n r' push_interface_def nth_append)
  then show "router_interface r' n = Inr interface" using len by (simp add: router_interface_def n)
  show "rt_interfaces r' = ?is @ [interface]" if "n < rt_capacity r \<or> (\<forall>a \<in> set ?is. quiet (an_interface a))"
    using quiet_growth(1) that by (simp add: n r')
  fix j hop
  assume j: "j < n" "rt_capacity r \<le> n" "ac_learned (interface_abs (an_interface (?is ! j))) hop \<noteq> None"
  have "router_interface r' j = Inr ((?is ! j)\<lparr>an_interface := copy_interface (an_interface (?is ! j))\<rparr>)"
    using j(1,2) len by (simp add: router_interface_def n) (simp add: r' push_interface_def nth_append)
  moreover have "interface_inv (an_interface (?is ! j))" using assms(1) j(1) by (simp add: n router_ok_def async_ok_def)
  ultimately show "\<exists>a. router_interface r' j = Inr a \<and> (\<forall>d. send_datagram (an_interface a) d (ipv4_address hop) = Inl Undefined)"
    using copied_pointer_dangles j(3) by simp
qed

theorem add_interface_grows_witness:
  "\<exists>ni (r' :: router) a. ac_learned (interface_abs ni) 9 = Some (replicate 6 2, 0)
     \<and> add_interface \<lparr>rt_interfaces = [\<lparr>an_interface = ni, an_datagrams_in = []\<rparr>], rt_table = [], rt_capacity = 1\<rparr>
         \<lparr>an_interface = ni, an_datagrams_in = []\<rparr> = (1, r')
     \<and> router_interface r' 0 = Inr a
     \<and> send_datagram (an_interface a) IPv4Datagram (ipv4_address 9) = Inl Undefined"
proof -
  obtain ni where ni: "interface_inv ni" "ac_learned (interface_abs ni) 9 = Some (replicate 6 2, 0)"
    by (rule learned_neighbour)
  let ?a = "\<lparr>an_interface = ni, an_datagrams_in = []\<rparr>"
  let ?r = "\<lparr>rt_interfaces = [?a], rt_table = [], rt_capacity = 1\<rparr>"
  obtain n r' where add: "add_interface ?r ?a = (n, r')" by (cases "add_interface ?r ?a")
  have "router_ok ?r" using ni(1) by (simp add: router_ok_def table_ok_def async_ok_def SIZE_MAX_def)
  note g = add_interface_grows [OF this add]
  then have n: "n = 1" by simp
  have "ac_learned (interface_abs (an_interface (rt_interfaces ?r ! 0))) 9 \<noteq> None" using ni(2) by simp
  then obtain a where "router_interface r' 0 = Inr a" "\<forall>d. send_datagram (an_interface a) d (ipv4_address 9) = Inl Undefined"
    using g n by fastforce
  then show ?thesis using ni(2) add n by blast
qed

end
