(* ===== verification/Packet_Text.thy ===== *)
theory Packet_Text
  imports Headers Address
begin

text \<open>
  The texts that the packet headers print: \<open>to_string\<close> of \<open>ethernet_header.cc\<close>,
  \<open>arp_message.cc\<close> and \<open>ipv4_header.cc\<close>. The C library's \<open>inet_ntoa\<close> (of the address in
  network order) is a parameter.
\<close>

definition hex_digit :: "nat \<Rightarrow> char" where
  "hex_digit n = char_of (if n < 10 then 48 + n else 87 + n)"

fun hexadecimal :: "nat \<Rightarrow> string" where
  "hexadecimal n = (if n < 16 then [hex_digit n] else hexadecimal (n div 16) @ [hex_digit (n mod 16)])"

declare hexadecimal.simps [simp del]

text \<open>\<open>ss.width (n)\<close> with the fill character \<open>0\<close>.\<close>

definition padded :: "nat \<Rightarrow> string \<Rightarrow> string" where
  "padded n s = replicate (n - length s) CHR ''0'' @ s"

fun ethernet_address_to_string :: "ethernet_address \<Rightarrow> string" where
  "ethernet_address_to_string [] = ''''"
| "ethernet_address_to_string (b # bs) =
     padded 2 (hexadecimal (unat b)) @ (if bs = [] then '''' else '':'') @ ethernet_address_to_string bs"

definition ethernet_header_to_string :: "ethernet_header \<Rightarrow> string" where
  "ethernet_header_to_string h =
     ''dst='' @ ethernet_address_to_string (eh_dst h) @ '', src='' @ ethernet_address_to_string (eh_src h) @ '', type=''
     @ (if eh_type h = TYPE_IPv4 then ''IPv4''
        else if eh_type h = TYPE_ARP then ''ARP''
        else ''[unknown type '' @ hexadecimal (unat (eh_type h)) @ ''!]'')"

definition arp_to_string :: "(32 word \<Rightarrow> string) \<Rightarrow> arp_message \<Rightarrow> string" where
  "arp_to_string inet_ntoa m =
     (let opcode_str = ''(unknown type)'';
          opcode_str = (if arp_opcode m = OPCODE_REQUEST then ''REQUEST'' else opcode_str);
          opcode_str = (if arp_opcode m = OPCODE_REPLY then ''REPLY'' else opcode_str)
      in ''opcode='' @ opcode_str @ '', sender='' @ ethernet_address_to_string (arp_sender_ethernet_address m) @ ''/''
         @ inet_ntoa (arp_sender_ip_address m) @ '', target='' @ ethernet_address_to_string (arp_target_ethernet_address m)
         @ ''/'' @ inet_ntoa (arp_target_ip_address m))"

text \<open>The time to live is printed when it has one digit only.\<close>

definition ipv4_header_to_string :: "(32 word \<Rightarrow> string) \<Rightarrow> ipv4_header \<Rightarrow> string" where
  "ipv4_header_to_string inet_ntoa h =
     ''IPv'' @ hexadecimal (unat (ip_ver h)) @ '', len='' @ hexadecimal (unat (ip_len h))
     @ '', protocol='' @ hexadecimal (unat (ip_proto h)) @ '', ''
     @ (if ip_ttl h \<ge> 10 then '''' else ''ttl='' @ decimal (unat (ip_ttl h)) @ '', '')
     @ ''src='' @ inet_ntoa (ip_src h) @ '', dst='' @ inet_ntoa (ip_dst h)"

section \<open>An Ethernet address is printed without loss\<close>

lemma of_hex_digit: "n < 16 \<Longrightarrow> of_char (hex_digit n) = (if n < 10 then 48 + n else 87 + n :: nat)"
proof (cases "n < 10")
  case True
  then show ?thesis using digit_char [OF True] by (simp add: hex_digit_def)
next
  case False
  assume "n < 16"
  then have small: "(87 + n) mod 256 = 87 + n" by (intro mod_less) linarith
  have "of_char (char_of (87 + n)) = 87 + n" by (simp only: of_char_of small)
  with False show ?thesis by (simp add: hex_digit_def)
qed

lemma hex_digit_inj: "m < 16 \<Longrightarrow> n < 16 \<Longrightarrow> hex_digit m = hex_digit n \<Longrightarrow> m = n"
proof -
  assume mn: "m < 16" "n < 16" and "hex_digit m = hex_digit n"
  then have "(of_char (hex_digit m) :: nat) = of_char (hex_digit n)" by (simp only:)
  then have "(if m < 10 then 48 + m else 87 + m) = (if n < 10 then 48 + n else 87 + n)"
    by (simp only: of_hex_digit [OF mn(1)] of_hex_digit [OF mn(2)])
  with mn show "m = n" by (simp split: if_splits)
qed

lemma hex_digit_0: "hex_digit 0 = CHR ''0''"
  by code_simp

lemma hex_byte: "padded 2 (hexadecimal (unat (b :: byte))) = [hex_digit (unat b div 16), hex_digit (unat b mod 16)]"
proof (cases "unat b < 16")
  case True
  then show ?thesis by (simp add: hexadecimal.simps [of "unat b"] padded_def hex_digit_0)
next
  case False
  have "unat b < 256" using unsigned_less [of b, where ?'a = nat] by simp
  then have "unat b div 16 < 16" by (simp add: less_mult_imp_div_less)
  then show ?thesis
    using False by (simp add: hexadecimal.simps [of "unat b"] hexadecimal.simps [of "unat b div 16"] padded_def)
qed

lemma hex_byte_inj: "padded 2 (hexadecimal (unat a)) = padded 2 (hexadecimal (unat b)) \<Longrightarrow> a = (b :: byte)"
proof -
  assume "padded 2 (hexadecimal (unat a)) = padded 2 (hexadecimal (unat b))"
  then have d: "hex_digit (unat a div 16) = hex_digit (unat b div 16)" "hex_digit (unat a mod 16) = hex_digit (unat b mod 16)"
    by (simp_all add: hex_byte)
  have "unat a < 256" "unat b < 256"
    using unsigned_less [of a, where ?'a = nat] unsigned_less [of b, where ?'a = nat] by simp_all
  then have "unat a div 16 < 16" "unat b div 16 < 16" by (simp_all add: less_mult_imp_div_less)
  with d have "unat a div 16 = unat b div 16" "unat a mod 16 = unat b mod 16"
    by (simp_all add: hex_digit_inj)
  then have "unat a = unat b" by (metis div_mult_mod_eq)
  then show "a = b" by (rule unsigned_word_eqI)
qed

theorem ethernet_address_text_inj:
  assumes "length a = length b" and "ethernet_address_to_string a = ethernet_address_to_string b"
  shows "a = b"
  using assms
proof (induction a b rule: list_induct2)
  case (Cons x xs y ys)
  have "(xs = []) = (ys = [])" using Cons.hyps by (metis length_0_conv)
  with Cons.prems have "padded 2 (hexadecimal (unat x)) = padded 2 (hexadecimal (unat y))"
    and "ethernet_address_to_string xs = ethernet_address_to_string ys"
    by (simp_all add: hex_byte split: if_splits)
  with Cons.IH show ?case by (simp add: hex_byte_inj)
qed simp

end
