(* ===== verification/Debug_Text.thy ===== *)
theory Debug_Text
  imports TCP_Messages Network_Interface
begin

text \<open>
  The texts the classes print for debugging: \<open>toString\<close> of \<open>TCPReceiverMessage\<close>,
  \<open>TCPSenderMessage\<close>, \<open>TCPSenderMessageWrapper\<close> and \<open>NetworkInterface\<close>. A number is streamed in
  base ten, a \<open>bool\<close> as 0 or 1, and an Ethernet address of the interface byte by byte in base ten.
\<close>

section \<open>Texts\<close>

definition newline :: string where "newline = [CHR 0x0A]"

definition bool_text :: "bool \<Rightarrow> string" where
  "bool_text b = (if b then ''1'' else ''0'')"

definition TCPReceiverMessage_toString :: "tcp_receiver_message \<Rightarrow> string" where
  "TCPReceiverMessage_toString m =
     ''{ ackno: '' @ (case ackno m of Some a \<Rightarrow> decimal (unat (getRawValue a)) | None \<Rightarrow> ''nullopt'') @
     '', window_size: '' @ decimal (window_field m) @ '' }'' @ newline"

definition TCPSenderMessage_toString :: "tcp_sender_message \<Rightarrow> string" where
  "TCPSenderMessage_toString m =
     ''{ seqno: '' @ decimal (unat (getRawValue (seqno m))) @ '', SYN: '' @ bool_text (SYN m) @
     '', payload size: '' @ decimal (length (payload m)) @ '', FIN: '' @ bool_text (FIN m) @ '' }'' @ newline"

definition TCPSenderMessageWrapper_toString :: "tcp_sender_message_wrapper \<Rightarrow> string" where
  "TCPSenderMessageWrapper_toString w =
     ''{ msg: '' @ TCPSenderMessage_toString (msg w) @ '', is_retransmitted: '' @
     bool_text (is_retransmitted w) @ '' }'' @ newline"

definition NetworkInterface_toString :: "name_lookup \<Rightarrow> network_interface \<Rightarrow> string outcome" where
  "NetworkInterface_toString getnameinfo ni =
     andthen (address_to_string getnameinfo (ni_ip_address ni)) (\<lambda>ip.
     Inr (''IP: '' @ ip @ '', MAC: '' @
          concat (map (\<lambda>c. decimal (unat c) @ '' '') (ni_ethernet_address ni))))"

section \<open>What the texts tell apart\<close>

lemma decimal_inj [simp]: "decimal m = decimal n \<longleftrightarrow> m = n"
  using decimal_value [of m] decimal_value [of n] by (metis of_nat_eq_iff)

lemma decimal_no_sep:
  assumes "\<not> is_digit c"
  shows "c \<notin> set (decimal n)"
  using decimal_digits [of n] assms by blast

lemma before_sep:
  assumes "c \<notin> set xs" "c \<notin> set ys" "xs @ c # us = ys @ c # vs"
  shows "xs = ys \<and> us = vs"
  using assms by (induction xs ys rule: list_induct2') auto

lemma ackno_text_inj:
  assumes "(case a of Some x \<Rightarrow> decimal (unat (getRawValue x)) | None \<Rightarrow> ''nullopt'') =
           (case b of Some x \<Rightarrow> decimal (unat (getRawValue x)) | None \<Rightarrow> ''nullopt'')"
  shows "a = b"
proof -
  have "''nullopt'' \<noteq> decimal n" for n
    using decimal_digits [of n] by (cases "decimal n") (auto simp: is_digit_def)
  with assms show ?thesis
    by (cases a; cases b) (auto simp: eq_commute [of "''nullopt''"] getRawValue_def word_eq_iff_unsigned [where ?'a = nat] intro!: wrap32.equality)
qed

text \<open>
  Two acknowledgments that print the same are the same message. (The text of a segment names the
  size of the payload only.)
\<close>

theorem receiver_text_determines_message:
  fixes m m' :: tcp_receiver_message
  assumes "TCPReceiverMessage_toString m = TCPReceiverMessage_toString m'"
  shows "m = m'"
proof -
  define A where "A = (\<lambda>m :: tcp_receiver_message. case ackno m of Some x \<Rightarrow> decimal (unat (getRawValue x)) | None \<Rightarrow> ''nullopt'')"
  have nc: "CHR '','' \<notin> set (A x)" for x
    by (auto simp: A_def decimal_no_sep is_digit_def split: option.splits)
  have "A m @ CHR '','' # ('' window_size: '' @ decimal (window_field m) @ '' }'' @ newline) =
        A m' @ CHR '','' # ('' window_size: '' @ decimal (window_field m') @ '' }'' @ newline)"
    using assms by (simp add: TCPReceiverMessage_toString_def A_def)
  from before_sep [OF nc nc this]
  have "A m = A m'" "decimal (window_field m) @ CHR '' '' # (''}'' @ newline) = decimal (window_field m') @ CHR '' '' # (''}'' @ newline)"
    by simp_all
  moreover have "ackno m = ackno m'" using calculation(1) ackno_text_inj unfolding A_def by blast
  moreover have "window_field m = window_field m'" using calculation(2) by simp
  ultimately show ?thesis by simp
qed

end
