(* ===== verification/File_Properties.thy ===== *)
theory File_Properties
  imports File_Descriptor
begin

text \<open>
  What the wrappers make of the answers of the kernel: the reads of \<open>FileDescriptor\<close>, the loop
  of \<open>webget\<close>, the socket of an accepted connection and the addresses.
\<close>

section \<open>Reading\<close>

text \<open>\<open>delivered c\<close> is the answer of a kernel that has put the bytes \<open>c\<close> into the buffer.\<close>

definition delivered :: "byte list \<Rightarrow> sys_return \<times> byte list" where
  "delivered c = ((int (length c), 0), c)"

definition after_read :: "byte list \<Rightarrow> fd_wrapper \<Rightarrow> fd_wrapper" where
  "after_read c w = (register_read w)\<lparr>fd_eof := (fd_eof w \<or> c = [])\<rparr>"

lemma length_filled [simp]: "length (filled n c) = n"
  by (simp add: filled_def)

lemma take_filled: "length c \<le> n \<Longrightarrow> take (length c) (filled n c) = c"
  by (simp add: filled_def min_def)

lemma filled_exact: "length c \<le> n \<Longrightarrow> filled n c = c @ replicate (n - length c) 0"
  by (simp add: filled_def)

lemma read_delivers:
  assumes "length c \<le> kReadBufferSize"
  shows "fd_read (delivered c) w = Inr (c, after_read c w)"
  using assms take_filled [OF assms]
  by (auto simp: fd_read_def delivered_def after_read_def vec_resize_def Let_def register_read_def)

text \<open>A read that would block leaves the zeros that the buffer was filled with.\<close>

lemma read_would_block:
  assumes "r < 0" and "would_block w errno"
  shows "fd_read ((r, errno), []) w = Inr (replicate kReadBufferSize 0, w)"
  using assms by (simp add: fd_read_def filled_def)

lemma read_zero_ends:
  assumes "fd_read ((0, errno), data) w = Inr (c, w')"
  shows "c = [] \<and> fd_eof w'"
  using assms by (auto simp: fd_read_def Let_def vec_resize_def)

section \<open>The response of a server\<close>

lemma print_response_eof: "fd_eof w \<Longrightarrow> print_response as w = Some (Inr ([], w))"
  by (simp add: print_response.simps)

lemma print_response_read:
  assumes "\<not> fd_eof w" and "fd_read a w = Inr (c, w')"
  shows "print_response (a # as) w
    = map_option (\<lambda>r. andthen r (\<lambda>(out, w''). Inr (c @ out, w''))) (print_response as w')"
  using assms by (simp add: print_response.simps [of "a # as"])

lemma response_printed_up_to_end:
  assumes "\<forall>c \<in> set cs. c \<noteq> [] \<and> length c \<le> kReadBufferSize" and "\<not> fd_eof w"
  shows "print_response (map delivered cs @ delivered [] # later) w
    = Some (Inr (concat cs, after_read [] (fold after_read cs w)))"
  using assms
proof (induction cs arbitrary: w)
  case Nil
  then show ?case
    using print_response_read [OF Nil(2) read_delivers [of "[]" w]] print_response_eof [of "after_read [] w" later]
    by (simp add: after_read_def)
next
  case (Cons c cs)
  have "\<not> fd_eof (after_read c w)" using Cons.prems by (simp add: after_read_def register_read_def)
  from Cons.IH [OF _ this] print_response_read [OF Cons.prems(2) read_delivers] Cons.prems(1)
  show ?case by simp
qed

lemma print_response_ends:
  assumes "\<exists>a \<in> set as. fst (fst a) = 0"
  shows "print_response as w \<noteq> None"
  using assms
proof (induction as arbitrary: w)
  case (Cons a as)
  show ?case
  proof (cases "fd_eof w")
    case False
    obtain r e d where a: "a = ((r, e), d)" by (metis prod.exhaust)
    show ?thesis
    proof (cases "fd_read a w")
      case (Inr x)
      obtain c w' where x: "x = (c, w')" by (cases x)
      have "print_response as w' \<noteq> None"
      proof (cases "r = 0")
        case True
        then show ?thesis using read_zero_ends [of e d w c w'] Inr a x by (simp add: print_response_eof)
      next
        case False
        then show ?thesis using Cons a by simp
      qed
      with False Inr x show ?thesis by (simp add: print_response_read)
    qed (simp add: False print_response.simps [of "a # as"])
  qed (simp add: print_response_eof)
qed simp

text \<open>\<open>connects k\<close>: the socket is made, connected, and takes some of the request.\<close>

definition connects :: "resolver \<Rightarrow> web_answers \<Rightarrow> string \<Rightarrow> string \<Rightarrow> bool" where
  "connects getaddrinfo k host path \<longleftrightarrow>
     0 \<le> fst (socket_answer k) \<and> 0 \<le> fst (fcntl_answer k) \<and> 0 \<le> fst (connect_answer k)
     \<and> 0 < fst (write_answer k) \<and> fst (write_answer k) \<le> int (length (http_request host path))
     \<and> (\<exists>a. Address_host getaddrinfo host ''http'' = Inr a)"

lemma CheckSystemCall_ok: "0 \<le> fst r \<Longrightarrow> CheckSystemCall w s r = Inr (fst r)"
  by (cases r) (simp add: CheckSystemCall_def)

lemma write_takes_some:
  assumes "0 < fst r" and "fst r \<le> int (length bytes)" and "length bytes < 2 ^ 64"
  shows "fd_write r w bytes = Inr (nat (fst r), register_write w)"
  using assms by (simp add: fd_write_def fd_writev_def total_length_def wadd_nowrap CheckSystemCall_ok Let_def)

lemma connected_response:
  assumes "connects getaddrinfo k host path" and "length (http_request host path) < 2 ^ 64"
  obtains w where "\<not> fd_eof w" "get_URL getaddrinfo k host path
    = map_option (\<lambda>r. andthen r (\<lambda>(printed, _). Inr printed)) (print_response (read_answers k) w)"
proof -
  define w where "w = register_write \<lparr>fd_number = fst (socket_answer k), fd_eof = False, fd_closed = False,
    fd_non_blocking = (word_of_int (fst (fcntl_answer k)) AND O_NONBLOCK \<noteq> 0), fd_read_count = 0, fd_write_count = 0\<rparr>"
  obtain r e where s: "socket_answer k = (r, e)" by (cases "socket_answer k")
  have "get_URL getaddrinfo k host path
    = map_option (\<lambda>r. andthen r (\<lambda>(printed, _). Inr printed)) (print_response (read_answers k) w)"
    using assms write_takes_some [of "write_answer k" "map of_char (http_request host path)"]
    by (auto simp: get_URL_def connects_def Socket_def check_system_call_def s FDWrapper_def CheckSystemCall_ok
        socket_connect_def w_def Let_def)
  moreover have "\<not> fd_eof w" by (simp add: w_def register_write_def)
  ultimately show ?thesis by (rule that [rotated])
qed

text \<open>
  \<open>C35\<close>: once \<open>webget\<close> is connected it prints exactly the bytes that its reads deliver up to the
  end of the stream, in order; and it ends, whatever the answers are, as soon as one of its
  reads reports the end.
\<close>

theorem response_is_printed:
  assumes "connects getaddrinfo k host path" and "length (http_request host path) < 2 ^ 64"
  shows "((\<exists>a \<in> set (read_answers k). fst (fst a) = 0) \<longrightarrow> get_URL getaddrinfo k host path \<noteq> None)
    \<and> ((\<forall>c \<in> set cs. c \<noteq> [] \<and> length c \<le> kReadBufferSize)
        \<and> read_answers k = map delivered cs @ delivered [] # later
      \<longrightarrow> get_URL getaddrinfo k host path = Some (Inr (concat cs)))"
proof -
  obtain w where w: "\<not> fd_eof w" "get_URL getaddrinfo k host path
    = map_option (\<lambda>r. andthen r (\<lambda>(printed, _). Inr printed)) (print_response (read_answers k) w)"
    by (rule connected_response [OF assms])
  have "get_URL getaddrinfo k host path \<noteq> None" if "\<exists>a \<in> set (read_answers k). fst (fst a) = 0"
    using w(2) print_response_ends [OF that, of w] by auto
  moreover have "get_URL getaddrinfo k host path = Some (Inr (concat cs))"
    if "\<forall>c \<in> set cs. c \<noteq> [] \<and> length c \<le> kReadBufferSize" "read_answers k = map delivered cs @ delivered [] # later"
    using w(2) response_printed_up_to_end [OF that(1) w(1)] that(2) by simp
  ultimately show ?thesis by blast
qed

definition example_resolver :: resolver where
  "example_resolver node service hints = (0, Some (addr_storage (ipv4_address 0x0a000001), 16))"

definition example_web :: web_answers where
  "example_web = \<lparr>socket_answer = (3, 0), fcntl_answer = (2, 0), connect_answer = (0, 0), write_answer = (5, 0),
     read_answers = map delivered [[1, 2], [3]] @ delivered [] # []\<rparr>"

theorem response_is_printed_witness:
  "get_URL example_resolver example_web ''h'' ''/'' = Some (Inr [1, 2, 3])"
proof -
  have "connects example_resolver example_web ''h'' ''/''"
    by (simp add: connects_def example_web_def http_request_def crlf_def Address_host_def Address_lookup_def
        example_resolver_def Address_raw_def memcpy_from_def SOCKADDR_STORAGE_def ipv4_address_def
        length_integer_bytes)
  then show ?thesis
    using response_is_printed [of example_resolver example_web "''h''" "''/''" "[[1, 2], [3]]" "[]"]
    by (simp add: http_request_def crlf_def kReadBufferSize_def) (simp add: example_web_def)
qed

section \<open>Vectored reads\<close>

lemma wsub_underflow:
  assumes "a < b" and "b < 2 ^ w"
  shows "wsub w a b = 2 ^ w - (b - a)"
proof -
  have "a + (2 ^ w - b mod 2 ^ w) = 2 ^ w - (b - a)" using assms by simp
  moreover have "2 ^ w - (b - a) < (2 :: nat) ^ w" using assms by simp
  ultimately show ?thesis by (simp add: wsub_def)
qed

lemma trim_one: "n \<le> length buf \<Longrightarrow> trim_buffers n [buf] = Inr [buf]"
  by simp

lemma trim_short_first:
  assumes "n < length buf" and "length buf < 2 ^ 62" and "length buf' < 2 ^ 62"
  shows "trim_buffers n [buf, buf'] = Inl (Runtime_Error ''length_error'')"
proof -
  define m where "m = sub64 n (length buf)"
  have "m = 2 ^ 64 - (length buf - n)"
    unfolding m_def using assms(1,2) by (intro wsub_underflow) simp_all
  with assms(2) have "2 ^ 63 \<le> m" by simp
  then have "trim_buffers m [buf'] = Inl (Runtime_Error ''length_error'')"
    using assms(3) by (simp add: string_resize_def string_max_size_def)
  then show ?thesis using assms(1) by (simp add: m_def)
qed

lemma length_scatter: "map length (scatter data bs) = map length bs"
  by (induction data bs rule: scatter.induct) (auto simp: min_def)

text \<open>
  A vectored read compares the number of bytes read with the size of a buffer the wrong
  way round. One buffer keeps all its bytes however few were read, and the end of the stream is
  not noticed; with two buffers, a read that does not fill the first one fails on resizing the
  second.
\<close>

theorem vectored_read_miscounts:
  assumes "length data \<le> kReadBufferSize" and "length data < length b" and "length b < 2 ^ 62"
  shows "fd_readv (delivered data) w [c] = Inr ([filled kReadBufferSize data], register_read w)
    \<and> fd_readv (delivered data) w [b, c] = Inl (Runtime_Error ''length_error'')"
proof
  let ?z = "replicate kReadBufferSize (0 :: byte)"
  have "fd_readv (delivered data) w [c]
      = andthen (trim_buffers (length data) [filled kReadBufferSize data]) (\<lambda>bs. Inr (bs, register_read w))"
    using assms(1) by (simp add: fd_readv_def delivered_def total_length_def wadd_nowrap kReadBufferSize_def
        filled_exact del: trim_buffers.simps)
  then show "fd_readv (delivered data) w [c] = Inr ([filled kReadBufferSize data], register_read w)"
    using assms(1) by (simp only: trim_one length_filled andthen_Inr)
  obtain x y where xy: "scatter data [b, ?z] = [x, y]" by simp
  then have l: "length x = length b" "length y = kReadBufferSize" using length_scatter [of data "[b, ?z]"] by simp_all
  have "total_length [b, ?z] = length b + kReadBufferSize"
    using assms(3) by (simp add: total_length_def wadd_nowrap kReadBufferSize_def)
  then have "fd_readv (delivered data) w [b, c]
      = andthen (trim_buffers (length data) [x, y]) (\<lambda>bs. Inr (bs, register_read w))"
    using assms(1) xy by (simp add: fd_readv_def delivered_def Let_def del: trim_buffers.simps scatter.simps)
  moreover have "trim_buffers (length data) [x, y] = Inl (Runtime_Error ''length_error'')"
    using assms(2,3) l by (intro trim_short_first) (simp_all add: kReadBufferSize_def)
  ultimately show "fd_readv (delivered data) w [b, c] = Inl (Runtime_Error ''length_error'')" by simp
qed

section \<open>Accepting a connection\<close>

definition protocol_is :: "int \<Rightarrow> option_answer \<Rightarrow> bool" where
  "protocol_is p answer \<longleftrightarrow> (\<exists>errno. answer = ((0, errno), p, 4))"

lemma verify_option_ok: "protocol_is p answer \<Longrightarrow> verify_option msg p answer w = Inr ()"
  by (auto simp: protocol_is_def verify_option_def getsockopt_def CheckSystemCall_ok)

lemma verify_option_wrong:
  "protocol_is p answer \<Longrightarrow> p \<noteq> q \<Longrightarrow> verify_option msg q answer w = Inl (Runtime_Error msg)"
  by (auto simp: protocol_is_def verify_option_def getsockopt_def CheckSystemCall_ok)

lemma accepted_socket:
  assumes "0 \<le> fst new_answer" and "0 \<le> fst flags_answer"
    and "protocol_is 2 domain_answer" and "protocol_is SOCK_STREAM type_answer"
  obtains new where "fd_number new = fst new_answer" and "\<not> fd_eof new"
    and "\<And>w protocol_answer. socket_accept new_answer flags_answer domain_answer type_answer protocol_answer w
      = andthen (verify_option ''socket protocol mismatch'' 0 protocol_answer new) (\<lambda>_. Inr (new, register_read w))"
proof -
  define new where "new = \<lparr>fd_number = fst new_answer, fd_eof = False, fd_closed = False,
    fd_non_blocking = (word_of_int (fst flags_answer) AND O_NONBLOCK \<noteq> 0), fd_read_count = 0, fd_write_count = 0\<rparr>"
  have "FDWrapper flags_answer (fst new_answer) = Inr new"
    using assms(1,2) by (simp add: FDWrapper_def CheckSystemCall_ok new_def)
  moreover have "TCPSocket_from_fd domain_answer type_answer a new
      = andthen (verify_option ''socket protocol mismatch'' 0 a new) (\<lambda>_. Inr new)" for a
    using assms(3,4) by (simp add: TCPSocket_from_fd_def Socket_from_fd_def AF_INET_def verify_option_ok)
  ultimately have "socket_accept new_answer flags_answer domain_answer type_answer a w
      = andthen (verify_option ''socket protocol mismatch'' 0 a new) (\<lambda>_. Inr (new, register_read w))" for a w
    using assms(1) by (cases "verify_option ''socket protocol mismatch'' 0 a new")
      (simp_all add: socket_accept_def CheckSystemCall_ok)
  then show ?thesis using that [of new] by (simp add: new_def)
qed

text \<open>
  \<open>C37\<close>: the socket of an accepted connection is checked against the protocol zero, so with a
  kernel that answers \<open>SO_PROTOCOL\<close> with the protocol of the socket, six for TCP, no
  connection is ever accepted, while a kernel that answered zero would have it accepted.
\<close>

theorem accept_refuses_TCP:
  assumes "0 \<le> fst new_answer" and "0 \<le> fst flags_answer"
    and "protocol_is 2 domain_answer" and "protocol_is SOCK_STREAM type_answer"
  shows "(protocol_is 6 protocol_answer
      \<longrightarrow> socket_accept new_answer flags_answer domain_answer type_answer protocol_answer w
        = Inl (Runtime_Error ''socket protocol mismatch''))
    \<and> (protocol_is 0 protocol_answer
      \<longrightarrow> (\<exists>new. socket_accept new_answer flags_answer domain_answer type_answer protocol_answer w
        = Inr (new, register_read w) \<and> fd_number new = fst new_answer \<and> \<not> fd_eof new))"
proof -
  obtain new where "fd_number new = fst new_answer" "\<not> fd_eof new"
    and "\<And>w a. socket_accept new_answer flags_answer domain_answer type_answer a w
      = andthen (verify_option ''socket protocol mismatch'' 0 a new) (\<lambda>_. Inr (new, register_read w))"
    by (rule accepted_socket [OF assms]) blast
  then show ?thesis by (simp add: verify_option_ok verify_option_wrong)
qed

definition example_handle :: fd_wrapper where
  "example_handle = \<lparr>fd_number = 3, fd_eof = False, fd_closed = False, fd_non_blocking = False,
     fd_read_count = 0, fd_write_count = 0\<rparr>"

theorem accept_refuses_TCP_witness:
  "socket_accept (7, 0) (2, 0) ((0, 0), 2, 4) ((0, 0), SOCK_STREAM, 4) ((0, 0), 6, 4) example_handle
    = Inl (Runtime_Error ''socket protocol mismatch'')"
  using accept_refuses_TCP [of "(7, 0)" "(2, 0)" "((0, 0), 2, 4)" "((0, 0), SOCK_STREAM, 4)" "((0, 0), 6, 4)" example_handle]
  by (simp add: protocol_is_def)

section \<open>Addresses\<close>

lemma ipv4_address_as:
  "address_as Sockaddr_in (ipv4_address ip) = Inr ([2, 0, 0, 0] @ integer_bytes ip @ replicate 8 0)"
  "address_as Sockaddr_in6 (ipv4_address ip) = Inl (Runtime_Error ''Address::as() conversion failure'')"
  by (simp add: address_as_def ss_family_ipv4 SOCKADDR_IN_def)
    (simp_all add: ipv4_address_def length_integer_bytes address_as_def ss_family_def AF_INET6_def)

text \<open>
  The address made of an IPv4 number gives that number back, is a \<open>sockaddr_in\<close> and
  nothing else, and differs from the address of any other number; a host and port that the
  resolver reports for it are printed with a colon between them.
\<close>

theorem ipv4_address_roundtrip:
  assumes "getnameinfo (addr_storage (ipv4_address ip)) 16 = (0, host, decimal (unat port))"
  shows "\<exists>a. from_ipv4_numeric ip = Inr a \<and> ipv4_numeric a = Inr ip
    \<and> (\<exists>sa. address_as Sockaddr_in a = Inr sa \<and> take 4 (drop 4 sa) = integer_bytes ip)
    \<and> address_as Sockaddr_in6 a = Inl (Runtime_Error ''Address::as() conversion failure'')
    \<and> (\<exists>b. from_ipv4_numeric ip' = Inr b \<and> (address_eq a b \<longleftrightarrow> ip = ip'))
    \<and> ip_port getnameinfo a = Inr (host, port)
    \<and> address_to_string getnameinfo a = Inr (host @ '':'' @ decimal (unat port))"
proof -
  have "addr_size (ipv4_address ip) = 16" by (simp add: ipv4_address_def)
  moreover have "unat port < 2 ^ 31" using unsigned_less [of port, where ?'a = nat] by simp
  ultimately have p: "ip_port getnameinfo (ipv4_address ip) = Inr (host, port)"
    using assms by (simp add: ip_port_def stoi_decimal)
  then show ?thesis
    by (simp add: from_ipv4_numeric_eq ipv4_numeric_address ipv4_address_as ipv4_address_eq_iff
        address_to_string_def length_integer_bytes)
qed

theorem ipv4_address_roundtrip_witness:
  "\<exists>a. from_ipv4_numeric 0x0a000001 = Inr a
    \<and> ip_port (\<lambda>st n. (0, ''10.0.0.1'', decimal (unat (80 :: 16 word)))) a = Inr (''10.0.0.1'', 80)"
  using ipv4_address_roundtrip [where getnameinfo = "\<lambda>st n. (0, ''10.0.0.1'', decimal (unat (80 :: 16 word)))"
      and ip = "0x0a000001" and host = "''10.0.0.1''" and port = 80]
  by blast

end
