(* ===== verification/Descriptor_Handles.thy ===== *)
theory Descriptor_Handles
  imports File_Properties
begin

text \<open>
  The handles of \<open>src/util/file_descriptor.hh\<close>: a \<open>FileDescriptor\<close> is a shared pointer to its
  wrapper, duplicates share it, a handle that was moved from holds nothing, and the destructor of
  the wrapper runs when its last handle goes. Wrappers and handles are named by their index. The
  log keeps every call of \<open>close\<close> of the kernel: for which wrapper, whether the destructor made
  it, and what the kernel answered.
\<close>

section \<open>Handles\<close>

record fd_table =
  ft_wrappers :: "fd_wrapper list"
  ft_handles :: "nat option list"
  ft_log :: "(nat \<times> bool \<times> sys_return) list"

definition no_handles :: fd_table where
  "no_handles = \<lparr>ft_wrappers = [], ft_handles = [], ft_log = []\<rparr>"

definition FileDescriptor :: "sys_return \<Rightarrow> int \<Rightarrow> fd_table \<Rightarrow> (nat \<times> fd_table) outcome" where
  "FileDescriptor flags_answer fd t =
     andthen (FDWrapper flags_answer fd) (\<lambda>w.
     Inr (length (ft_handles t), t\<lparr>ft_wrappers := ft_wrappers t @ [w],
       ft_handles := ft_handles t @ [Some (length (ft_wrappers t))]\<rparr>))"

definition duplicate :: "nat \<Rightarrow> fd_table \<Rightarrow> (nat \<times> fd_table) outcome" where
  "duplicate h t =
     andthen (vec_at (ft_handles t) h) (\<lambda>p.
     Inr (length (ft_handles t), t\<lparr>ft_handles := ft_handles t @ [p]\<rparr>))"

definition move_handle :: "nat \<Rightarrow> fd_table \<Rightarrow> (nat \<times> fd_table) outcome" where
  "move_handle h t =
     andthen (vec_at (ft_handles t) h) (\<lambda>p.
     Inr (length (ft_handles t), t\<lparr>ft_handles := (ft_handles t)[h := None] @ [p]\<rparr>))"

text \<open>The end of the life of a handle.\<close>

definition drop_handle :: "sys_return \<Rightarrow> nat \<Rightarrow> fd_table \<Rightarrow> fd_table outcome" where
  "drop_handle close_answer h t =
     andthen (vec_at (ft_handles t) h) (\<lambda>p.
     let t' = t\<lparr>ft_handles := (ft_handles t)[h := None]\<rparr>
     in case p of
          None \<Rightarrow> Inr t'
        | Some k \<Rightarrow>
            if Some k \<in> set (ft_handles t') then Inr t'
            else
              andthen (vec_at (ft_wrappers t') k) (\<lambda>w.
              let w' = fd_destruct close_answer w
              in Inr (t'\<lparr>ft_wrappers := (ft_wrappers t')[k := w'],
                         ft_log := (if fd_closed w then ft_log t' else ft_log t' @ [(k, True, close_answer)])\<rparr>)))"

text \<open>
  \<open>close\<close> through a handle; the table is returned also when it throws. A handle that holds nothing
  is dereferenced.
\<close>

definition close_handle :: "sys_return \<Rightarrow> nat \<Rightarrow> fd_table \<Rightarrow> unit outcome \<times> fd_table" where
  "close_handle close_answer h t =
     (case andthen (vec_at (ft_handles t) h) (\<lambda>p. case p of None \<Rightarrow> Inl Undefined | Some k \<Rightarrow>
             andthen (vec_at (ft_wrappers t) k) (\<lambda>w. Inr (k, w))) of
        Inl e \<Rightarrow> (Inl e, t)
      | Inr (k, w) \<Rightarrow>
          (case fd_close close_answer w of
             Inl e \<Rightarrow> (Inl e, t\<lparr>ft_log := ft_log t @ [(k, False, close_answer)]\<rparr>)
           | Inr w' \<Rightarrow> (Inr (), t\<lparr>ft_wrappers := (ft_wrappers t)[k := w'], ft_log := ft_log t @ [(k, False, close_answer)]\<rparr>)))"

text \<open>
  Every other operation works on the wrapper that the handle holds. \<open>fd_num\<close>, an argument of the
  system call, is evaluated first.
\<close>

definition with_handle :: "nat \<Rightarrow> fd_table \<Rightarrow> (fd_wrapper \<Rightarrow> ('a \<times> fd_wrapper) outcome) \<Rightarrow> ('a \<times> fd_table) outcome" where
  "with_handle h t f =
     andthen (vec_at (ft_handles t) h) (\<lambda>p. case p of
         None \<Rightarrow> Inl Undefined
       | Some k \<Rightarrow>
           andthen (vec_at (ft_wrappers t) k) (\<lambda>w.
           andthen (f w) (\<lambda>(x, w'). Inr (x, t\<lparr>ft_wrappers := (ft_wrappers t)[k := w']\<rparr>))))"

text \<open>The check of the handle in \<open>FileDescriptor::CheckSystemCall\<close>.\<close>

definition handle_CheckSystemCall :: "nat \<Rightarrow> fd_table \<Rightarrow> string \<Rightarrow> sys_return \<Rightarrow> int outcome" where
  "handle_CheckSystemCall h t s_attempt r =
     andthen (vec_at (ft_handles t) h) (\<lambda>p. case p of
         None \<Rightarrow> Inl (Runtime_Error ''internal error: missing internal_fd_'')
       | Some k \<Rightarrow> andthen (vec_at (ft_wrappers t) k) (\<lambda>w. CheckSystemCall w s_attempt r))"

text \<open>The accessors, and \<open>set_eof\<close>, which nothing calls.\<close>

definition handle_field :: "nat \<Rightarrow> fd_table \<Rightarrow> (fd_wrapper \<Rightarrow> 'a) \<Rightarrow> 'a outcome" where
  "handle_field h t field =
     andthen (vec_at (ft_handles t) h) (\<lambda>p. case p of
         None \<Rightarrow> Inl Undefined
       | Some k \<Rightarrow> andthen (vec_at (ft_wrappers t) k) (\<lambda>w. Inr (field w)))"

definition fd_num :: "nat \<Rightarrow> fd_table \<Rightarrow> int outcome" where
  "fd_num h t = handle_field h t fd_number"

definition handle_eof :: "nat \<Rightarrow> fd_table \<Rightarrow> bool outcome" where
  "handle_eof h t = handle_field h t fd_eof"

definition handle_closed :: "nat \<Rightarrow> fd_table \<Rightarrow> bool outcome" where
  "handle_closed h t = handle_field h t fd_closed"

definition read_count :: "nat \<Rightarrow> fd_table \<Rightarrow> nat outcome" where
  "read_count h t = handle_field h t fd_read_count"

definition write_count :: "nat \<Rightarrow> fd_table \<Rightarrow> nat outcome" where
  "write_count h t = handle_field h t fd_write_count"

definition set_eof :: "nat \<Rightarrow> fd_table \<Rightarrow> (unit \<times> fd_table) outcome" where
  "set_eof h t = with_handle h t (\<lambda>w. Inr ((), w\<lparr>fd_eof := True\<rparr>))"

section \<open>Reachable tables\<close>

inductive handling :: "fd_table \<Rightarrow> bool" where
  start: "handling no_handles"
| construct: "handling t \<Longrightarrow> FileDescriptor flags_answer fd t = Inr (h, t') \<Longrightarrow> handling t'"
| duplicate: "handling t \<Longrightarrow> duplicate h t = Inr (h', t') \<Longrightarrow> handling t'"
| move: "handling t \<Longrightarrow> move_handle h t = Inr (h', t') \<Longrightarrow> handling t'"
| drop: "handling t \<Longrightarrow> drop_handle close_answer h t = Inr t' \<Longrightarrow> handling t'"
| close: "handling t \<Longrightarrow> close_handle close_answer h t = (r, t') \<Longrightarrow> handling t'"
| reads: "handling t \<Longrightarrow> with_handle h t (fd_read answer) = Inr (data, t') \<Longrightarrow> handling t'"
| writes: "handling t \<Longrightarrow> with_handle h t (\<lambda>w. fd_writev reply w buffers) = Inr (n, t') \<Longrightarrow> handling t'"
| configure: "handling t \<Longrightarrow> with_handle h t (\<lambda>w. set_blocking get_answer set_answer w blocking) = Inr (flags, t') \<Longrightarrow>
    handling t'"
| mark_eof: "handling t \<Longrightarrow> set_eof h t = Inr (u, t') \<Longrightarrow> handling t'"

text \<open>
  A call that the kernel has carried out, and one that it has not, but that a non-blocking wrapper
  takes for carried out.
\<close>

definition succeeded :: "sys_return \<Rightarrow> bool" where
  "succeeded a \<longleftrightarrow> 0 \<le> fst a"

definition taken_for_closed :: "sys_return \<Rightarrow> bool" where
  "taken_for_closed a \<longleftrightarrow> succeeded a \<or> snd a = EAGAIN \<or> snd a = EINPROGRESS"

lemma fd_close_taken: "fd_close a w = Inr w' \<Longrightarrow> fd_closed w' \<and> taken_for_closed a"
  by (cases a) (auto simp: fd_close_def andthen_eq_Inr_iff CheckSystemCall_def would_block_def taken_for_closed_def
      succeeded_def split: if_splits)

lemma fd_close_refused: "fd_close a w = Inl e \<Longrightarrow> \<not> succeeded a"
  by (cases a) (auto simp: fd_close_def CheckSystemCall_def succeeded_def split: if_splits)

lemma destruct_outcome:
  "\<not> fd_closed w \<Longrightarrow> (fd_closed (fd_destruct a w) \<longrightarrow> taken_for_closed a) \<and> (succeeded a \<longrightarrow> fd_closed (fd_destruct a w))"
  using fd_close_taken [of a w] fd_close_refused [of a w] by (auto simp: fd_destruct_def split: sum.split)

text \<open>
  \<open>orderly\<close>: after a call by the destructor there is no call for that wrapper, and the destructor
  makes none after a successful one.
\<close>

definition orderly :: "(nat \<times> bool \<times> sys_return) list \<Rightarrow> bool" where
  "orderly log \<longleftrightarrow>
     sorted_wrt (\<lambda>a b. fst a = fst b \<longrightarrow> \<not> fst (snd a) \<and> \<not> (succeeded (snd (snd a)) \<and> fst (snd b))) log"

definition wrapper_ok :: "fd_table \<Rightarrow> nat \<Rightarrow> bool" where
  "wrapper_ok t k \<longleftrightarrow>
     (\<forall>b a. (k, b, a) \<in> set (ft_log t) \<and> succeeded a \<longrightarrow> fd_closed (ft_wrappers t ! k))
   \<and> (fd_closed (ft_wrappers t ! k) \<longrightarrow> (\<exists>b a. (k, b, a) \<in> set (ft_log t) \<and> taken_for_closed a))
   \<and> (Some k \<in> set (ft_handles t) \<longrightarrow> (\<forall>a. (k, True, a) \<notin> set (ft_log t)))
   \<and> (Some k \<notin> set (ft_handles t) \<longrightarrow> (\<exists>a. (k, True, a) \<in> set (ft_log t)) \<or> fd_closed (ft_wrappers t ! k))"

definition table_inv :: "fd_table \<Rightarrow> bool" where
  "table_inv t \<longleftrightarrow> orderly (ft_log t)
     \<and> (\<forall>k. Some k \<in> set (ft_handles t) \<longrightarrow> k < length (ft_wrappers t))
     \<and> (\<forall>x \<in> set (ft_log t). fst x < length (ft_wrappers t))
     \<and> (\<forall>k < length (ft_wrappers t). wrapper_ok t k)"

text \<open>Answers of the kernel stay whole in the proofs about the log.\<close>

declare split_paired_All [simp del] split_paired_Ex [simp del]

lemma orderly_snoc:
  "orderly (log @ [(k, b, a)]) \<longleftrightarrow> orderly log
     \<and> (\<forall>b' a'. (k, b', a') \<in> set log \<longrightarrow> \<not> b' \<and> \<not> (succeeded a' \<and> b))"
proof -
  have "(\<forall>x \<in> set log. fst x = k \<longrightarrow> \<not> fst (snd x) \<and> \<not> (succeeded (snd (snd x)) \<and> b))
      \<longleftrightarrow> (\<forall>b' a'. (k, b', a') \<in> set log \<longrightarrow> \<not> b' \<and> \<not> (succeeded a' \<and> b))"
    by (metis fst_conv snd_conv prod.exhaust_sel)
  then show ?thesis by (simp add: orderly_def sorted_wrt_append)
qed

lemma held_before:
  assumes "h < length xs"
  shows "Some j \<in> set xs \<longleftrightarrow> xs ! h = Some j \<or> Some j \<in> set (xs[h := None])"
proof -
  have "set xs = set (take h xs @ xs ! h # drop (Suc h) xs)" using id_take_nth_drop [OF assms] by simp
  moreover have "set (xs[h := None]) = set (take h xs @ None # drop (Suc h) xs)" using assms by (simp add: upd_conv_take_nth_drop)
  ultimately show ?thesis by auto
qed

text \<open>Whoever changes handles but keeps the set of wrappers they hold, or a wrapper but not its flag.\<close>

lemma table_inv_same_handles:
  assumes "table_inv t" and "\<And>k. Some k \<in> set hs \<longleftrightarrow> Some k \<in> set (ft_handles t)"
  shows "table_inv (t\<lparr>ft_handles := hs\<rparr>)"
  using assms by (simp add: table_inv_def wrapper_ok_def)

lemma table_inv_wrapper:
  assumes "table_inv t" and "k < length (ft_wrappers t)" and "fd_closed w = fd_closed (ft_wrappers t ! k)"
  shows "table_inv (t\<lparr>ft_wrappers := (ft_wrappers t)[k := w]\<rparr>)"
  using assms by (simp add: table_inv_def wrapper_ok_def nth_list_update)

lemma table_inv_with:
  assumes "table_inv t" and "with_handle h t f = Inr (x, t')"
    and "\<And>w y w'. f w = Inr (y, w') \<Longrightarrow> fd_closed w' = fd_closed w"
  shows "table_inv t'"
  using assms(2) table_inv_wrapper [OF assms(1)] assms(3)
  by (auto simp: with_handle_def andthen_eq_Inr_iff vec_at_def split: if_splits option.splits)

lemma reads_keep_closed: "fd_read answer w = Inr (y, w') \<Longrightarrow> fd_closed w' = fd_closed w"
  by (auto simp: fd_read_def register_read_def Let_def split: prod.splits if_splits)

lemma writes_keep_closed: "fd_writev answer w buffers = Inr (y, w') \<Longrightarrow> fd_closed w' = fd_closed w"
  by (auto simp: fd_writev_def register_write_def Let_def andthen_eq_Inr_iff split: if_splits)

lemma set_blocking_keeps_closed: "set_blocking g s w b = Inr (y, w') \<Longrightarrow> fd_closed w' = fd_closed w"
  by (auto simp: set_blocking_def Let_def andthen_eq_Inr_iff)

lemma destruct_closed: "fd_closed w \<Longrightarrow> fd_destruct a w = w"
  by (simp add: fd_destruct_def)

lemma table_inv_construct:
  assumes "table_inv t" and "\<not> fd_closed w"
  shows "table_inv (t\<lparr>ft_wrappers := ft_wrappers t @ [w], ft_handles := ft_handles t @ [Some (length (ft_wrappers t))]\<rparr>)"
proof -
  let ?n = "length (ft_wrappers t)"
  have fresh: "(?n, b, ok) \<notin> set (ft_log t)" for b ok using assms(1) by (auto simp: table_inv_def)
  have "wrapper_ok (t\<lparr>ft_wrappers := ft_wrappers t @ [w], ft_handles := ft_handles t @ [Some ?n]\<rparr>) k" if "k < Suc ?n" for k
  proof (cases "k = ?n")
    case True
    then show ?thesis using assms(2) fresh by (simp add: wrapper_ok_def)
  next
    case False
    then have "k < ?n" using that by simp
    then show ?thesis using assms(1) by (simp add: table_inv_def wrapper_ok_def nth_append)
  qed
  then show ?thesis using assms(1) by (auto simp: table_inv_def less_Suc_eq)
qed

lemma table_inv_drop:
  assumes inv: "table_inv t" and h: "h < length (ft_handles t)" "ft_handles t ! h = Some k"
    and last: "Some k \<notin> set ((ft_handles t)[h := None])"
    and w: "w = ft_wrappers t ! k" and w': "w' = fd_destruct a w"
  shows "table_inv (t\<lparr>ft_handles := (ft_handles t)[h := None], ft_wrappers := (ft_wrappers t)[k := w'],
    ft_log := (if fd_closed w then ft_log t else ft_log t @ [(k, True, a)])\<rparr>)" (is "table_inv ?t")
proof -
  have held: "Some k \<in> set (ft_handles t)" using h by (metis nth_mem)
  then have k: "k < length (ft_wrappers t)" "wrapper_ok t k" using inv by (simp_all add: table_inv_def)
  have others: "Some j \<in> set ((ft_handles t)[h := None]) \<longleftrightarrow> Some j \<in> set (ft_handles t)" if "j \<noteq> k" for j
    using held_before [OF h(1), of j] h(2) that by auto
  have none: "(k, True, x) \<notin> set (ft_log t)" for x using k(2) held by (simp add: wrapper_ok_def)
  have "orderly (ft_log ?t)"
    using inv none k(2) by (auto simp: table_inv_def orderly_snoc wrapper_ok_def w)
  moreover have "wrapper_ok ?t j" if "j < length (ft_wrappers ?t)" for j
  proof (cases "j = k")
    case True
    show ?thesis
    proof (cases "fd_closed w")
      case closed: True
      then show ?thesis using True k last by (simp add: wrapper_ok_def w w' destruct_closed)
    next
      case False
      then show ?thesis using True k last destruct_outcome [OF False, of a]
        by (auto simp: wrapper_ok_def w w')
    qed
  next
    case False
    then have "wrapper_ok t j" using inv that by (simp add: table_inv_def)
    then show ?thesis using False others [OF False] by (auto simp: wrapper_ok_def)
  qed
  moreover have "j < length (ft_wrappers ?t)" if "Some j \<in> set (ft_handles ?t)" for j
  proof (cases "j = k")
    case False
    then show ?thesis using others [OF False] that inv by (simp add: table_inv_def)
  qed (use k(1) in simp)
  ultimately show ?thesis using inv k(1) by (auto simp: table_inv_def)
qed

lemma table_inv_close:
  assumes inv: "table_inv t" and k: "Some k \<in> set (ft_handles t)"
    and w: "fd_closed w \<longrightarrow> taken_for_closed a \<or> fd_closed (ft_wrappers t ! k)"
      "succeeded a \<or> fd_closed (ft_wrappers t ! k) \<longrightarrow> fd_closed w"
  shows "table_inv (t\<lparr>ft_wrappers := (ft_wrappers t)[k := w], ft_log := ft_log t @ [(k, False, a)]\<rparr>)" (is "table_inv ?t")
proof -
  have kl: "k < length (ft_wrappers t)" "wrapper_ok t k" using inv k by (simp_all add: table_inv_def)
  then have "orderly (ft_log ?t)"
    using inv k by (auto simp: table_inv_def orderly_snoc wrapper_ok_def)
  moreover have "wrapper_ok ?t j" if "j < length (ft_wrappers t)" for j
  proof (cases "j = k")
    case True
    then show ?thesis using kl k w by (auto simp: wrapper_ok_def)
  next
    case False
    then show ?thesis using inv that by (auto simp: table_inv_def wrapper_ok_def)
  qed
  ultimately show ?thesis using inv kl(1) by (auto simp: table_inv_def)
qed

lemma handling_inv: "handling t \<Longrightarrow> table_inv t"
proof (induction rule: handling.induct)
  case start
  then show ?case by (simp add: table_inv_def no_handles_def orderly_def)
next
  case (construct t a fd h t')
  then obtain w where "FDWrapper a fd = Inr w"
    "t' = t\<lparr>ft_wrappers := ft_wrappers t @ [w], ft_handles := ft_handles t @ [Some (length (ft_wrappers t))]\<rparr>"
    by (auto simp: FileDescriptor_def andthen_eq_Inr_iff)
  moreover have "\<not> fd_closed w" using calculation(1) by (auto simp: FDWrapper_def Let_def andthen_eq_Inr_iff split: if_splits)
  ultimately show ?case using table_inv_construct [OF construct.IH] by simp
next
  case (duplicate t h h' t')
  then show ?case
    by (auto simp: duplicate_def andthen_eq_Inr_iff vec_at_def split: if_splits intro!: table_inv_same_handles)
next
  case (move t h h' t')
  then have h: "h < length (ft_handles t)" "t' = t\<lparr>ft_handles := (ft_handles t)[h := None] @ [ft_handles t ! h]\<rparr>"
    by (auto simp: move_handle_def andthen_eq_Inr_iff vec_at_def split: if_splits)
  have "Some k \<in> set ((ft_handles t)[h := None] @ [ft_handles t ! h]) \<longleftrightarrow> Some k \<in> set (ft_handles t)" for k
    using held_before [OF h(1), of k] by auto
  then show ?case unfolding h(2) by (rule table_inv_same_handles [OF move.IH])
next
  case (drop t a h t')
  have h: "h < length (ft_handles t)" using drop.hyps(2) by (auto simp: drop_handle_def vec_at_def split: if_splits)
  show ?case
  proof (cases "ft_handles t ! h")
    case None
    have "Some k \<in> set ((ft_handles t)[h := None]) \<longleftrightarrow> Some k \<in> set (ft_handles t)" for k
      using held_before [OF h, of k] None by simp
    then have "table_inv (t\<lparr>ft_handles := (ft_handles t)[h := None]\<rparr>)" by (rule table_inv_same_handles [OF drop.IH])
    then show ?thesis using drop.hyps(2) h None by (simp add: drop_handle_def)
  next
    case (Some k)
    then have "Some k \<in> set (ft_handles t)" using h by (metis nth_mem)
    then have k: "k < length (ft_wrappers t)" using drop.IH by (simp add: table_inv_def)
    show ?thesis
    proof (cases "Some k \<in> set ((ft_handles t)[h := None])")
      case True
      have "Some j \<in> set ((ft_handles t)[h := None]) \<longleftrightarrow> Some j \<in> set (ft_handles t)" for j
        using held_before [OF h, of j] Some True by auto
      then have "table_inv (t\<lparr>ft_handles := (ft_handles t)[h := None]\<rparr>)" by (rule table_inv_same_handles [OF drop.IH])
      then show ?thesis using drop.hyps(2) h Some True by (simp add: drop_handle_def)
    next
      case False
      then show ?thesis using drop.hyps(2) h Some k table_inv_drop [OF drop.IH h Some False refl refl, of a]
        by (cases "fd_closed (ft_wrappers t ! k)") (auto simp: drop_handle_def Let_def)
    qed
  qed
next
  case (close t a h r t')
  show ?case
  proof (cases "h < length (ft_handles t) \<and> ft_handles t ! h \<noteq> None")
    case True
    then obtain k where h: "h < length (ft_handles t)" "ft_handles t ! h = Some k" by auto
    then have held: "Some k \<in> set (ft_handles t)" by (metis nth_mem)
    then have k: "k < length (ft_wrappers t)" using close.IH by (simp add: table_inv_def)
    show ?thesis
    proof (cases "fd_close a (ft_wrappers t ! k)")
      case (Inl e)
      then have "t' = t\<lparr>ft_log := ft_log t @ [(k, False, a)]\<rparr>"
        using close.hyps(2) h k by (simp add: close_handle_def)
      then show ?thesis using table_inv_close [OF close.IH held, of "ft_wrappers t ! k" a] fd_close_refused [OF Inl] by simp
    next
      case (Inr w')
      then have "t' = t\<lparr>ft_wrappers := (ft_wrappers t)[k := w'], ft_log := ft_log t @ [(k, False, a)]\<rparr>"
        using close.hyps(2) h k by (simp add: close_handle_def)
      then show ?thesis using table_inv_close [OF close.IH held, of w' a] fd_close_taken [OF Inr] by simp
    qed
  next
    case False
    then have "t' = t" using close.hyps(2) by (auto simp: close_handle_def vec_at_def split: if_splits)
    then show ?thesis using close.IH by simp
  qed
next
  case (reads t h answer data t')
  show ?case by (rule table_inv_with [OF reads.IH reads.hyps(2)]) (rule reads_keep_closed)
next
  case (writes t h reply buffers n t')
  show ?case by (rule table_inv_with [OF writes.IH writes.hyps(2)]) (rule writes_keep_closed)
next
  case (configure t h g s b flags t')
  show ?case by (rule table_inv_with [OF configure.IH configure.hyps(2)]) (rule set_blocking_keeps_closed)
next
  case (mark_eof t h u t')
  show ?case by (rule table_inv_with [OF mark_eof.IH mark_eof.hyps(2) [unfolded set_eof_def]]) auto
qed

section \<open>Properties\<close>

text \<open>
  \<open>C36\<close>: the destructor of the last handle releases the kernel descriptor. In every reachable state
  the destructor has called \<open>close\<close> for no wrapper that still has a handle; a wrapper without handles
  has had that call, or a call through one of its handles before that was carried out or that the
  kernel answered with \<open>EAGAIN\<close> or \<open>EINPROGRESS\<close>; the destructor calls at most once, after which there
  is no other call, and never after a call the kernel has carried out. A wrapper for which the
  kernel has carried out a call says that it is closed, and one that says so has had a call that
  was carried out or answered in one of those two ways. (An explicit \<open>close\<close> comes when it comes,
  whatever handles there are, and again: \<open>close_closes_again\<close>.)
\<close>

theorem descriptor_is_released_once:
  assumes "handling t"
  shows "\<forall>k < length (ft_wrappers t).
      (Some k \<in> set (ft_handles t) \<longrightarrow> (\<forall>a. (k, True, a) \<notin> set (ft_log t)))
    \<and> (Some k \<notin> set (ft_handles t) \<longrightarrow>
         (\<exists>a. (k, True, a) \<in> set (ft_log t)) \<or> (\<exists>a. (k, False, a) \<in> set (ft_log t) \<and> taken_for_closed a))
    \<and> (\<forall>i j. i < j \<and> j < length (ft_log t) \<and> fst (ft_log t ! i) = k \<and> fst (ft_log t ! j) = k
         \<longrightarrow> \<not> fst (snd (ft_log t ! i)) \<and> \<not> (succeeded (snd (snd (ft_log t ! i))) \<and> fst (snd (ft_log t ! j))))
    \<and> (\<forall>b a. (k, b, a) \<in> set (ft_log t) \<and> succeeded a \<longrightarrow> fd_closed (ft_wrappers t ! k))
    \<and> (fd_closed (ft_wrappers t ! k) \<longrightarrow> (\<exists>b a. (k, b, a) \<in> set (ft_log t) \<and> taken_for_closed a))"
proof (intro allI impI)
  note inv = handling_inv [OF assms]
  fix k assume "k < length (ft_wrappers t)"
  then have w: "wrapper_ok t k" using inv by (simp add: table_inv_def)
  have "(\<exists>a. (k, True, a) \<in> set (ft_log t)) \<or> (\<exists>a. (k, False, a) \<in> set (ft_log t) \<and> taken_for_closed a)"
    if none: "Some k \<notin> set (ft_handles t)"
  proof -
    consider a where "(k, True, a) \<in> set (ft_log t)" | "fd_closed (ft_wrappers t ! k)"
      using w none unfolding wrapper_ok_def by blast
    then show ?thesis
    proof cases
      case 2
      then obtain b a where "(k, b, a) \<in> set (ft_log t)" "taken_for_closed a" using w unfolding wrapper_ok_def by blast
      then show ?thesis by (cases b) auto
    qed blast
  qed
  moreover have "\<forall>i j. i < j \<and> j < length (ft_log t) \<and> fst (ft_log t ! i) = k \<and> fst (ft_log t ! j) = k
      \<longrightarrow> \<not> fst (snd (ft_log t ! i)) \<and> \<not> (succeeded (snd (snd (ft_log t ! i))) \<and> fst (snd (ft_log t ! j)))"
  proof (intro allI impI)
    have o: "orderly (ft_log t)" using inv by (simp add: table_inv_def)
    fix i j assume "i < j \<and> j < length (ft_log t) \<and> fst (ft_log t ! i) = k \<and> fst (ft_log t ! j) = k"
    then show "\<not> fst (snd (ft_log t ! i)) \<and> \<not> (succeeded (snd (snd (ft_log t ! i))) \<and> fst (snd (ft_log t ! j)))"
      using sorted_wrt_nth_less [OF o [unfolded orderly_def], of i j] by simp
  qed
  ultimately show "(Some k \<in> set (ft_handles t) \<longrightarrow> (\<forall>a. (k, True, a) \<notin> set (ft_log t)))
    \<and> (Some k \<notin> set (ft_handles t) \<longrightarrow>
         (\<exists>a. (k, True, a) \<in> set (ft_log t)) \<or> (\<exists>a. (k, False, a) \<in> set (ft_log t) \<and> taken_for_closed a))
    \<and> (\<forall>i j. i < j \<and> j < length (ft_log t) \<and> fst (ft_log t ! i) = k \<and> fst (ft_log t ! j) = k
         \<longrightarrow> \<not> fst (snd (ft_log t ! i)) \<and> \<not> (succeeded (snd (snd (ft_log t ! i))) \<and> fst (snd (ft_log t ! j))))
    \<and> (\<forall>b a. (k, b, a) \<in> set (ft_log t) \<and> succeeded a \<longrightarrow> fd_closed (ft_wrappers t ! k))
    \<and> (fd_closed (ft_wrappers t ! k) \<longrightarrow> (\<exists>b a. (k, b, a) \<in> set (ft_log t) \<and> taken_for_closed a))"
    using w unfolding wrapper_ok_def by simp
qed

text \<open>A descriptor with a duplicate: the first handle goes and nothing is closed, the second closes it.\<close>

theorem descriptor_is_released_once_witness:
  "\<exists>t t'. handling t \<and> Some 0 \<in> set (ft_handles t) \<and> ft_log t = []
     \<and> drop_handle (0, 0) 1 t = Inr t' \<and> handling t' \<and> Some 0 \<notin> set (ft_handles t') \<and> (0, True, (0, 0)) \<in> set (ft_log t')
     \<and> fd_closed (ft_wrappers t' ! 0)"
proof -
  let ?w = "\<lambda>c. \<lparr>fd_number = 3, fd_eof = c, fd_closed = c, fd_non_blocking = False, fd_read_count = 0, fd_write_count = 0\<rparr>"
  let ?t = "\<lambda>c hs log. \<lparr>ft_wrappers = [?w c], ft_handles = hs, ft_log = log\<rparr>"
  have 1: "FileDescriptor (0, 0) 3 no_handles = Inr (0, ?t False [Some 0] [])"
    by (simp add: FileDescriptor_def FDWrapper_def CheckSystemCall_def no_handles_def)
  have 2: "duplicate 0 (?t False [Some 0] []) = Inr (1, ?t False [Some 0, Some 0] [])" by (simp add: duplicate_def)
  have 3: "drop_handle (0, 0) 0 (?t False [Some 0, Some 0] []) = Inr (?t False [None, Some 0] [])"
    by (simp add: drop_handle_def)
  have 4: "drop_handle (0, 0) 1 (?t False [None, Some 0] []) = Inr (?t True [None, None] [(0, True, (0, 0))])"
    by (simp add: drop_handle_def fd_destruct_def fd_close_def CheckSystemCall_def)
  have t: "handling (?t False [None, Some 0] [])"
    by (rule handling.drop [OF handling.duplicate [OF handling.construct [OF handling.start 1] 2] 3])
  have t': "handling (?t True [None, None] [(0, True, (0, 0))])" by (rule handling.drop [OF t 4])
  have "0 < length (ft_wrappers (?t True [None, None] [(0, True, (0, 0))]))" by simp
  moreover have "(0, True, (0, 0)) \<in> set (ft_log (?t True [None, None] [(0, True, (0, 0))]))" "succeeded (0, 0)"
    by (simp_all add: succeeded_def)
  ultimately have "fd_closed (ft_wrappers (?t True [None, None] [(0, True, (0, 0))]) ! 0)"
    using descriptor_is_released_once [OF t'] by blast
  then show ?thesis using t t' 4 by (intro exI [of _ "?t False [None, Some 0] []"] exI [of _ "?t True [None, None] [(0, True, (0, 0))]"]) simp
qed

text \<open>
  The check for a handle that holds nothing comes too late: the number of the descriptor is an
  argument of the call and read first.
\<close>

lemma missing_handle:
  assumes "h < length (ft_handles t)" and "ft_handles t ! h = None"
  shows "handle_CheckSystemCall h t s r = Inl (Runtime_Error ''internal error: missing internal_fd_'')"
    and "with_handle h t f = Inl Undefined"
  using assms by (simp_all add: handle_CheckSystemCall_def with_handle_def)

text \<open>An explicit \<open>close\<close> has no such guard: it calls the kernel again on a closed descriptor.\<close>

lemma close_closes_again:
  assumes "h < length (ft_handles t)" and "ft_handles t ! h = Some k" and "k < length (ft_wrappers t)" and "0 \<le> fst answer"
  shows "ft_log (snd (close_handle answer h t)) = ft_log t @ [(k, False, answer)]"
  using assms by (cases answer) (simp add: close_handle_def fd_close_def CheckSystemCall_def)

text \<open>
  A non-blocking wrapper takes a call that the kernel refused because it would block for a success:
  it says that it is closed, and the destructor does not try again.
\<close>

lemma refused_close_leaks:
  assumes "fd_non_blocking w"
  shows "\<exists>w'. fd_close (-1, EAGAIN) w = Inr w' \<and> fd_closed w' \<and> fd_destruct a w' = w'"
  using assms by (simp add: fd_close_def CheckSystemCall_def would_block_def fd_destruct_def)

end
