(* ===== verification/Random_Engine.thy ===== *)
theory Random_Engine
  imports Prelude
begin

text \<open>
  \<open>src/util/random.cc\<close>: a generator seeded from the random device. The device is a parameter, the
  sequence of numbers it yields; \<open>std::seed_seq\<close> is as the C++ standard defines it, and
  \<open>std::default_random_engine\<close> is that of the GNU library, \<open>minstd_rand0\<close>.
\<close>

section \<open>The seed sequence\<close>

definition seed_mix :: "32 word \<Rightarrow> 32 word" where
  "seed_mix x = x XOR drop_bit 27 x"

definition seed_shift :: "nat \<Rightarrow> nat" where
  "seed_shift n = (if n \<ge> 623 then 11 else if n \<ge> 68 then 7 else if n \<ge> 39 then 5 else if n \<ge> 7 then 3 else (n - 1) div 2)"

text \<open>One round of each of the two loops of \<open>generate\<close>, on the numbers \<open>b\<close> generated so far.\<close>

definition seed_round :: "32 word list \<Rightarrow> nat \<Rightarrow> 32 word list \<Rightarrow> nat \<Rightarrow> 32 word list" where
  "seed_round v n b k =
     (let t = seed_shift n; p = (n - t) div 2; q = p + t; s = length v;
          r1 = 1664525 * seed_mix (b ! (k mod n) XOR b ! ((k + p) mod n) XOR b ! ((k + n - 1) mod n));
          r2 = r1 + (if k = 0 then of_nat s else if k \<le> s then of_nat (k mod n) + v ! (k - 1) else of_nat (k mod n));
          b1 = b[(k + p) mod n := b ! ((k + p) mod n) + r1];
          b2 = b1[(k + q) mod n := b1 ! ((k + q) mod n) + r2]
      in b2[k mod n := r2])"

definition seed_round' :: "nat \<Rightarrow> 32 word list \<Rightarrow> nat \<Rightarrow> 32 word list" where
  "seed_round' n b k =
     (let t = seed_shift n; p = (n - t) div 2; q = p + t;
          r3 = 1566083941 * seed_mix (b ! (k mod n) + b ! ((k + p) mod n) + b ! ((k + n - 1) mod n));
          r4 = r3 - of_nat (k mod n);
          b1 = b[(k + p) mod n := b ! ((k + p) mod n) XOR r3];
          b2 = b1[(k + q) mod n := b1 ! ((k + q) mod n) XOR r4]
      in b2[k mod n := r4])"

definition seed_generate :: "32 word list \<Rightarrow> nat \<Rightarrow> 32 word list" where
  "seed_generate v n =
     (if n = 0 then []
      else let m = max (length v + 1) n;
               b = foldl (seed_round v n) (replicate n 0x8b8b8b8b) [0..<m]
           in foldl (seed_round' n) b [m..<m + n])"

section \<open>The engine\<close>

definition engine_modulus :: nat where "engine_modulus = 2147483647"

text \<open>The fourth of four numbers is the seed; a seed of zero, which would repeat for ever, becomes one.\<close>

definition engine_seed :: "32 word list \<Rightarrow> nat" where
  "engine_seed v =
     (let x = unat (seed_generate v 4 ! 3) mod engine_modulus in if x = 0 then 1 else x)"

definition engine_step :: "nat \<Rightarrow> nat" where
  "engine_step x = 16807 * x mod engine_modulus"

definition get_random_engine :: "(nat \<Rightarrow> 32 word) \<Rightarrow> nat" where
  "get_random_engine rd = engine_seed (map rd [0..<1024])"

section \<open>Properties\<close>

lemma engine_step_bounds:
  assumes "0 < x" and "x < engine_modulus"
  shows "0 < engine_step x \<and> engine_step x < engine_modulus"
proof -
  have "coprime (2147483647 :: nat) 16807" 
    by (simp add: coprime_iff_gcd_eq_1
      gcd_red_nat [of 2147483647 16807] gcd_red_nat [of 16807 2836] gcd_red_nat [of 2836 2627] gcd_red_nat [of 2627 209]
      gcd_red_nat [of 209 119] gcd_red_nat [of 119 90] gcd_red_nat [of 90 29] gcd_red_nat [of 29 3] gcd_red_nat [of 3 2])
  then have "\<not> engine_modulus dvd 16807 * x"
    using assms by (auto simp: engine_modulus_def coprime_dvd_mult_right_iff dest: dvd_imp_le)
  then have "16807 * x mod engine_modulus \<noteq> 0" by (simp add: dvd_eq_mod_eq_0)
  then show ?thesis by (simp add: engine_step_def engine_modulus_def)
qed

lemma engine_seed_bounds: "0 < engine_seed v \<and> engine_seed v < engine_modulus"
  by (simp add: engine_seed_def Let_def engine_modulus_def)

text \<open>
  Whatever the random device yields, the engine starts, and stays for every number of draws,
  strictly between zero and its modulus: it never gets stuck at zero, and every number it draws is
  one of those between \<open>min\<close> and \<open>max\<close>.
\<close>

theorem engine_never_sticks:
  "0 < (engine_step ^^ n) (get_random_engine rd) \<and> (engine_step ^^ n) (get_random_engine rd) < 2147483647"
proof (induction n)
  case 0
  then show ?case using engine_seed_bounds by (simp add: get_random_engine_def engine_modulus_def)
next
  case (Suc n)
  then show ?case using engine_step_bounds [of "(engine_step ^^ n) (get_random_engine rd)"] by (simp add: engine_modulus_def)
qed

end
