(* ===== verification/Spec2Isabelle.thy ===== *)
theory Spec2Isabelle
  imports Prelude Wrapping_Integers Byte_Stream Bitmap Reassembler Reassembly TCP_Messages
    TCP_Receiver TCP_Sender Sender_Invariant TCP_Connection TCP_Properties TCP_Bounds TCP_Recovery
    TCP_Completion TCP_Rounds TCP_Order TCP_Flow TCP_Early_FIN Exceptions Shared_Buffer Base_Properties Wire_Format Checksum Headers Codec Packet_Properties
    Address Network_Interface Interface_Refinement Interface_Properties Interface_Types Ethernet_Segment
    Segment_Properties Router Longest_Match Router_Properties Internetwork Router_Growth Packet_Text Debug_Text
    File_Descriptor File_Properties Descriptor_Handles Random_Engine
begin

text \<open>
  A verification of the TCP/IP stack of this repository (the CS144 labs): byte stream, reassembler, TCP
  receiver and sender, network interface, router, the wire formats below them, and the wrappers
  of sockets and addresses in \<open>src/util\<close>.

  The parts and how they interact. The application writes into a byte stream; the TCP sender cuts
  it into segments with 32-bit sequence numbers; the receiver unwraps the numbers and hands the
  payload to the reassembler, which writes it in order into the inbound byte stream, and answers
  with an acknowledgment and a window. Datagrams travel in Ethernet frames between network
  interfaces, which resolve addresses with ARP; a router forwards datagrams between its
  interfaces. Frames, ARP messages and datagrams are parsed and serialized by \<open>parser.hh\<close>.

  Conventions (theory \<open>Prelude\<close>). A C++ class is a record of the same members, a method a
  function from the record to the new one. Counters of type \<open>uint64_t\<close> or \<open>uint32_t\<close> are
  natural numbers on which every operation wraps around explicitly (\<open>add64\<close>, \<open>sub64\<close>,
  \<open>add32\<close>); values handled bit by bit are words. An operation that can fail returns an
  \<open>outcome\<close>: undefined behaviour, a failed assertion, an exception, or a loop that never ends;
  the state that an exception leaves behind is not kept. A loop is recursion on data, or
  has fuel and answers \<open>Diverges\<close> without it: the drain loop of the reassembler, the loop of
  \<open>push\<close> and the loop over the blocks of a bitmap. Each is called with as many steps as it can
  take before its state must repeat or its data is used up, and the properties that say that these
  operations succeed exclude \<open>Diverges\<close>.

  \<^item> \<open>Wrapping_Integers\<close>: \<open>src/src/wrapping_integers.*\<close>.
  \<^item> \<open>Byte_Stream\<close>: \<open>src/src/byte_stream.*\<close> and \<open>byte_stream_helpers.cc\<close>; the locale
    \<open>fifo_stream\<close> is the contract of the stream with its two ends.
  \<^item> \<open>Bitmap\<close>: \<open>src/util/bitmap.hpp\<close>, the block bitmap and the naive one; both
    interpret the locale \<open>bit_table\<close>.
  \<^item> \<open>Base_Properties\<close>: what these three promise: \<open>unwrap\<close> is the closest number, the stream
    is a bounded queue, the two bitmaps agree, the batch operation counts and clears.
  \<^item> \<open>Reassembler\<close> (\<open>src/src/reassembler.*\<close>, \<open>src/util/task_guard.hpp\<close>) with its invariant,
    and \<open>Reassembly\<close>: the refinement of an abstract reassembler, delivery of a prefix, success
    of every insertion, closing at the end, and where the code departs from these.
  \<^item> \<open>TCP_Messages\<close> (\<open>tcp_sender_message.hh\<close>, \<open>tcp_receiver_message.hh\<close>, \<open>tcp_config.hh\<close>),
    \<open>TCP_Receiver\<close> and \<open>TCP_Sender\<close> (\<open>src/src/tcp_receiver.*\<close>, \<open>tcp_sender.*\<close>);
    \<open>Sender_Invariant\<close>: the segments kept by the sender tile the numbers in flight, preserved by
    every operation, and the operations do not fail; \<open>TCP_Connection\<close>: a sender and a receiver as a step relation over a network
    that loses, repeats and reorders; \<open>TCP_Properties\<close>: what follows for the applications;
    \<open>TCP_Bounds\<close>: how much a connection holds at most; \<open>TCP_Recovery\<close>: the same network as single
    steps, and that nothing is acknowledged which was not sent; \<open>TCP_Completion\<close>: what one segment,
    one acknowledgment and one \<open>push\<close> achieve; \<open>TCP_Rounds\<close>: a round in which the network loses
    nothing, as a function, and that it always acknowledges something new; \<open>TCP_Order\<close>: arbitrary
    steps with such rounds among them complete a transfer, when a FIN is only delivered in its place,
    and what the sender forgets has then been delivered;
    \<open>TCP_Flow\<close>: flow control, and the acknowledgments that make the sender leave the window;
    \<open>TCP_Early_FIN\<close>: what a FIN out of its place does.
  \<^item> \<open>Shared_Buffer\<close> (\<open>buffer.hh\<close>): payloads as strings in a store that the copies of a segment
    share, the receiver on them, and what its \<open>release\<close> does to the other copies.
  \<^item> \<open>Wire_Format\<close> (\<open>src/util/parser.hh\<close>, \<open>buffer.hh\<close>, \<open>checksum.hh\<close>; a buffer is the list of its
    bytes), \<open>Checksum\<close> (one's complement arithmetic), \<open>Headers\<close> (\<open>ethernet_header.*\<close>, \<open>ethernet_frame.hh\<close>,
    \<open>arp_message.*\<close>, \<open>ipv4_header.*\<close>, \<open>ipv4_datagram.hh\<close>), \<open>Packet_Text\<close> (their
    \<open>to_string\<close>), \<open>Codec\<close> (a combinator for reading fields and the lemmas of the round trips)
    and \<open>Packet_Properties\<close>: round trips, the checksum as a one's complement sum, totality.
  \<^item> \<open>Address\<close> (\<open>src/util/address.*\<close>), \<open>File_Descriptor\<close> (\<open>file_descriptor.*\<close>, \<open>socket.*\<close>,
    \<open>exception.hh\<close>, \<open>src/apps/webget.cc\<close>) and \<open>File_Properties\<close>. The kernel and the resolver
    are arguments: a call is given the answers of the system calls it makes.
    \<open>Exceptions\<close> (\<open>exception.hh\<close>): the texts and codes of the exceptions, of which the other theories
    keep the attempt that failed; the messages of the C library are arguments.
    \<open>Descriptor_Handles\<close>: the shared handles of \<open>FileDescriptor\<close>, duplicated, moved and dropped, and
    when the kernel is told to close, with a log of its answers.
  \<^item> \<open>Debug_Text\<close>: \<open>toString\<close> of messages and interfaces. \<open>Random_Engine\<close> (\<open>src/util/random.cc\<close>): the
    seed sequence and the generator; the random device is an argument.
  \<^item> \<open>Network_Interface\<close> (\<open>src/src/network_interface.*\<close>): a pointer into a timeout queue is a
    position in it, and reading it after its element was popped is undefined behaviour.
    \<open>Interface_Refinement\<close> proves, through a locale for a queue of expiring entries interpreted
    on both queues, that the interface implements an abstract ARP cache; \<open>Interface_Properties\<close>
    lifts this to every reachable state, and \<open>Interface_Types\<close> shows every queued frame well formed.
  \<^item> \<open>Ethernet_Segment\<close>, \<open>Segment_Properties\<close>: any number of interfaces on a wire that loses,
    repeats and reorders frames: what hosts learn, what they hand up, and that a datagram gets through.
  \<^item> \<open>Router\<close> (\<open>src/src/router.*\<close>), \<open>Longest_Match\<close> (the search against a reference definition
    of longest prefix matching) and \<open>Router_Properties\<close> (a pass of the router from every
    reachable state). \<open>Internetwork\<close>: a datagram on its way from router to router.
    \<open>Router_Growth\<close>: what adding an interface does to those the router has already.

  Bounds. The theorems on streams assume a stream below \<open>2 ^ 31\<close> bytes where \<open>unwrap\<close> is used
  with an arbitrary number of that stream, and capacities below \<open>2 ^ 62\<close>, so that the counters do
  not wrap around; the receiving capacity of a connection is at least 1031 bytes, a largest
  payload and a block of the bitmap less one, because with pieces about as long as the window the
  batch operation of the bitmap misses a range (\<open>Reassembly.stale_byte_delivered\<close>).

  The liveness of a transfer is stated for executions in which, among steps of any kind, rounds
  without loss take place, and says how many of them suffice; the liveness of delivery on a
  segment says that steps which complete exist from every state it names.

  Not modelled. What is written to \<open>cerr\<close>; \<open>FileDescriptor::size\<close>, which is declared and defined
  nowhere; the tests.
\<close>

end
